(* ===== verification/Prelude.thy ===== *)
theory Prelude
  imports Main "HOL-Library.Word" "HOL-Library.Sublist" "HOL-Library.Multiset"
begin

text \<open>
  The vocabulary every component shares.

  A Rust \<^verbatim>\<open>&str\<close> or \<^verbatim>\<open>String\<close> is the list of its UTF-8 bytes, an Isabelle
  \<^typ>\<open>string\<close> (a \<^typ>\<open>char\<close> is one byte).  A \<^verbatim>\<open>Result<T, E>\<close> is a sum with
  the error on the left; \<open>and_then\<close> is the \<^verbatim>\<open>?\<close> operator.  The functions of the
  standard library that the sources call on strings and integers
  (\<^verbatim>\<open>to_ascii_lowercase\<close>, \<^verbatim>\<open>split\<close>, \<^verbatim>\<open>split_once\<close>, \<^verbatim>\<open>trim\<close>, \<^verbatim>\<open>contains\<close>,
  \<^verbatim>\<open>parse::<i64>\<close>, decimal \<^verbatim>\<open>Display\<close>) are defined here once, with the generic
  lemmas the component proofs use.  The collections \<open>result_simps\<close> and
  \<open>str_simps\<close> hold the rewrite rules those proofs pass to the simplifier.
\<close>

named_theorems result_simps
named_theorems str_simps

section \<open>Results\<close>

abbreviation Ok :: "'a \<Rightarrow> 'e + 'a" where "Ok \<equiv> Inr"
abbreviation Err :: "'e \<Rightarrow> 'e + 'a" where "Err \<equiv> Inl"

fun and_then :: "'e + 'a \<Rightarrow> ('a \<Rightarrow> 'e + 'b) \<Rightarrow> 'e + 'b" where
  "and_then (Inl e) f = Inl e"
| "and_then (Inr a) f = f a"

fun ok_or :: "'a option \<Rightarrow> 'e \<Rightarrow> 'e + 'a" where
  "ok_or None e = Inl e"
| "ok_or (Some a) e = Inr a"

fun is_ok :: "'e + 'a \<Rightarrow> bool" where
  "is_ok (Inl e) = False"
| "is_ok (Inr a) = True"

text \<open>The loop that pushes the result of a fallible call for every element and
  stops at the first error.\<close>

fun try_map :: "('a \<Rightarrow> 'e + 'b) \<Rightarrow> 'a list \<Rightarrow> 'e + 'b list" where
  "try_map f [] = Inr []"
| "try_map f (x # xs) = and_then (f x) (\<lambda>y. and_then (try_map f xs) (\<lambda>ys. Inr (y # ys)))"

text \<open>The loop that threads a state through a fallible call.\<close>

fun try_fold :: "('a \<Rightarrow> 's \<Rightarrow> 'e + 's) \<Rightarrow> 'a list \<Rightarrow> 's \<Rightarrow> 'e + 's" where
  "try_fold f [] s = Inr s"
| "try_fold f (x # xs) s = and_then (f x s) (try_fold f xs)"

lemma and_then_Inr_iff [result_simps]:
  "and_then r f = Inr b \<longleftrightarrow> (\<exists>a. r = Inr a \<and> f a = Inr b)"
  by (cases r) auto

lemma and_then_Inl_iff [result_simps]:
  "and_then r f = Inl e \<longleftrightarrow> r = Inl e \<or> (\<exists>a. r = Inr a \<and> f a = Inl e)"
  by (cases r) auto

lemma ok_or_Inr_iff [result_simps]: "ok_or r e = Inr a \<longleftrightarrow> r = Some a"
  by (cases r) auto

lemma is_ok_iff: "is_ok r \<longleftrightarrow> (\<exists>a. r = Inr a)"
  by (cases r) auto

lemma try_map_Inr_iff:
  "try_map f xs = Inr ys \<longleftrightarrow> list_all2 (\<lambda>x y. f x = Inr y) xs ys"
  by (induction xs arbitrary: ys) (auto simp: result_simps list_all2_Cons1)

lemma try_fold_append:
  "try_fold f (xs @ ys) s = and_then (try_fold f xs s) (try_fold f ys)"
proof (induction xs arbitrary: s)
  case (Cons x xs)
  then show ?case by (cases "f x s") auto
qed simp

text \<open>An invariant of every step is an invariant of the loop.\<close>

lemma try_fold_invariant:
  assumes "try_fold f xs s = Inr t" and "P s"
    and "\<And>x u v. x \<in> set xs \<Longrightarrow> P u \<Longrightarrow> f x u = Inr v \<Longrightarrow> P v"
  shows "P t"
  using assms
proof (induction xs arbitrary: s)
  case (Cons x xs)
  then obtain u where "f x s = Inr u" "try_fold f xs u = Inr t"
    by (auto simp: result_simps)
  with Cons show ?case by (metis list.set_intros)
qed simp

section \<open>Bytes and ASCII\<close>

definition byte_val :: "char \<Rightarrow> nat" where
  "byte_val c = of_char c"

definition is_ascii :: "char \<Rightarrow> bool" where
  "is_ascii c \<longleftrightarrow> byte_val c < 128"

definition is_ascii_digit :: "char \<Rightarrow> bool" where
  "is_ascii_digit c \<longleftrightarrow> 48 \<le> byte_val c \<and> byte_val c \<le> 57"

definition is_ascii_lowercase :: "char \<Rightarrow> bool" where
  "is_ascii_lowercase c \<longleftrightarrow> 97 \<le> byte_val c \<and> byte_val c \<le> 122"

text \<open>\<^verbatim>\<open>u8::is_ascii_whitespace\<close>: space, tab, line feed, form feed, carriage return.\<close>

definition is_ascii_whitespace :: "char \<Rightarrow> bool" where
  "is_ascii_whitespace c \<longleftrightarrow> byte_val c \<in> {32, 9, 10, 12, 13}"

definition ascii_lower :: "char \<Rightarrow> char" where
  "ascii_lower c =
    (if 65 \<le> byte_val c \<and> byte_val c \<le> 90 then char_of (byte_val c + 32) else c)"

definition to_ascii_lowercase :: "string \<Rightarrow> string" where
  "to_ascii_lowercase s = map ascii_lower s"

definition eq_ignore_ascii_case :: "string \<Rightarrow> string \<Rightarrow> bool" where
  "eq_ignore_ascii_case a b \<longleftrightarrow> to_ascii_lowercase a = to_ascii_lowercase b"

lemma byte_val_less [simp]: "byte_val c < 256"
  by (simp add: byte_val_def)

lemma byte_val_inject [simp]: "byte_val c = byte_val d \<longleftrightarrow> c = d"
  by (simp add: byte_val_def)

lemma byte_val_char_of [simp]: "n < 256 \<Longrightarrow> byte_val (char_of n) = n"
  by (simp add: byte_val_def)

lemma ascii_lower_idem [simp]: "ascii_lower (ascii_lower c) = ascii_lower c"
  by (simp add: ascii_lower_def)

lemma to_ascii_lowercase_idem [simp]:
  "to_ascii_lowercase (to_ascii_lowercase s) = to_ascii_lowercase s"
  by (simp add: to_ascii_lowercase_def)

lemma length_to_ascii_lowercase [simp]: "length (to_ascii_lowercase s) = length s"
  by (simp add: to_ascii_lowercase_def)

lemma to_ascii_lowercase_append [simp]:
  "to_ascii_lowercase (s @ t) = to_ascii_lowercase s @ to_ascii_lowercase t"
  by (simp add: to_ascii_lowercase_def)

section \<open>Substrings, splitting and joining\<close>

definition starts_with :: "'a list \<Rightarrow> 'a list \<Rightarrow> bool" where
  "starts_with s p \<longleftrightarrow> take (length p) s = p"

definition ends_with :: "'a list \<Rightarrow> 'a list \<Rightarrow> bool" where
  "ends_with s p \<longleftrightarrow> starts_with (rev s) (rev p)"

fun contains_str :: "'a list \<Rightarrow> 'a list \<Rightarrow> bool" where
  "contains_str [] p \<longleftrightarrow> p = []"
| "contains_str (x # xs) p \<longleftrightarrow> starts_with (x # xs) p \<or> contains_str xs p"

text \<open>\<^verbatim>\<open>str::split(c)\<close>: one piece more than there are separators.\<close>

fun split_on :: "'a \<Rightarrow> 'a list \<Rightarrow> 'a list list" where
  "split_on c [] = [[]]"
| "split_on c (x # xs) =
    (if x = c then [] # split_on c xs
     else (case split_on c xs of [] \<Rightarrow> [[x]] | y # ys \<Rightarrow> (x # y) # ys))"

text \<open>\<^verbatim>\<open>str::split_once(c)\<close>: around the first separator.\<close>

fun split_once :: "'a \<Rightarrow> 'a list \<Rightarrow> ('a list \<times> 'a list) option" where
  "split_once c [] = None"
| "split_once c (x # xs) =
    (if x = c then Some ([], xs)
     else map_option (\<lambda>(a, b). (x # a, b)) (split_once c xs))"

text \<open>\<^verbatim>\<open>str::rfind(c)\<close> followed by slicing: around the last separator.\<close>

fun rsplit_once :: "'a \<Rightarrow> 'a list \<Rightarrow> ('a list \<times> 'a list) option" where
  "rsplit_once c [] = None"
| "rsplit_once c (x # xs) =
    (case rsplit_once c xs of
       Some (a, b) \<Rightarrow> Some (x # a, b)
     | None \<Rightarrow> if x = c then Some ([], xs) else None)"

fun join :: "'a list \<Rightarrow> 'a list list \<Rightarrow> 'a list" where
  "join sep [] = []"
| "join sep [x] = x"
| "join sep (x # y # ys) = x @ sep @ join sep (y # ys)"

lemma starts_with_iff [str_simps]: "starts_with s p \<longleftrightarrow> (\<exists>r. s = p @ r)"
  by (auto simp: starts_with_def) (metis append_take_drop_id)

lemma starts_with_append [simp]: "starts_with (p @ r) p"
  by (simp add: starts_with_def)

lemma starts_with_Nil [simp]: "starts_with s []"
  by (simp add: starts_with_def)

lemma ends_with_iff [str_simps]: "ends_with s p \<longleftrightarrow> (\<exists>r. s = r @ p)"
  by (simp add: ends_with_def starts_with_iff)
    (metis rev_append rev_rev_ident)

lemma contains_str_iff [str_simps]: "contains_str s p \<longleftrightarrow> (\<exists>a b. s = a @ p @ b)"
proof (induction s)
  case (Cons x xs)
  have "(\<exists>a b. x # xs = a @ p @ b) \<longleftrightarrow> starts_with (x # xs) p \<or> (\<exists>a b. xs = a @ p @ b)"
    by (auto simp: starts_with_iff Cons_eq_append_conv)
  with Cons.IH show ?case by simp
qed auto

lemma split_on_not_Nil [simp]: "split_on c s \<noteq> []"
  by (induction s) (auto split: list.splits)

lemma join_split_on [simp]: "join [c] (split_on c s) = s"
proof (induction s)
  case (Cons x xs)
  obtain y ys where "split_on c xs = y # ys" by (cases "split_on c xs") auto
  with Cons.IH show ?case by (cases ys) auto
qed simp

lemma split_on_no_sep: "c \<notin> set s \<Longrightarrow> split_on c s = [s]"
  by (induction s) auto

lemma split_on_append_sep: "c \<notin> set s \<Longrightarrow> split_on c (s @ c # t) = s # split_on c t"
  by (induction s) auto

lemma split_on_pieces: "p \<in> set (split_on c s) \<Longrightarrow> c \<notin> set p"
proof (induction s arbitrary: p)
  case (Cons x xs)
  obtain y ys where "split_on c xs = y # ys" by (cases "split_on c xs") auto
  with Cons show ?case by (auto split: if_splits)
qed simp

lemma split_on_join:
  assumes "ps \<noteq> []" "\<forall>p \<in> set ps. c \<notin> set p"
  shows "split_on c (join [c] ps) = ps"
  using assms
proof (induction "[c]" ps rule: join.induct)
  case (3 x y ys)
  then show ?case by (simp add: split_on_append_sep)
qed (simp_all add: split_on_no_sep)

lemma split_once_Some_iff [str_simps]:
  "split_once c s = Some (a, b) \<longleftrightarrow> s = a @ c # b \<and> c \<notin> set a"
  by (induction s arbitrary: a b) (auto simp: Cons_eq_append_conv)

lemma split_once_None_iff [str_simps]: "split_once c s = None \<longleftrightarrow> c \<notin> set s"
  by (induction s) auto

lemma rsplit_once_None_iff [str_simps]: "rsplit_once c s = None \<longleftrightarrow> c \<notin> set s"
  by (induction s) (auto split: option.splits)

lemma rsplit_once_Some_iff [str_simps]:
  "rsplit_once c s = Some (a, b) \<longleftrightarrow> s = a @ c # b \<and> c \<notin> set b"
proof (induction s arbitrary: a b)
  case (Cons x xs)
  show ?case
  proof (cases "rsplit_once c xs")
    case None
    then have "c \<notin> set xs" by (simp add: rsplit_once_None_iff)
    with None show ?thesis by (auto simp: Cons_eq_append_conv)
  next
    case (Some ab)
    then obtain a' b' where ab: "rsplit_once c xs = Some (a', b')" by (cases ab) auto
    then have xs: "xs = a' @ c # b'" "c \<notin> set b'" using Cons.IH by auto
    have "x # xs = a @ c # b \<and> c \<notin> set b \<longleftrightarrow> a = x # a' \<and> b = b'"
      using xs by (auto simp: Cons_eq_append_conv append_eq_append_conv2 append_eq_Cons_conv)
    with ab show ?thesis by auto
  qed
qed simp

section \<open>Trimming\<close>

text \<open>The UTF-8 encodings of the code points with the Unicode property White_Space,
  which \<^verbatim>\<open>str::trim\<close> removes at both ends.\<close>

definition white_space_encodings :: "string list" where
  "white_space_encodings =
    [[CHR 0x09], [CHR 0x0A], [CHR 0x0B], [CHR 0x0C], [CHR 0x0D], [CHR 0x20],
     [CHR 0xC2, CHR 0x85], [CHR 0xC2, CHR 0xA0], [CHR 0xE1, CHR 0x9A, CHR 0x80],
     [CHR 0xE2, CHR 0x80, CHR 0x80], [CHR 0xE2, CHR 0x80, CHR 0x81],
     [CHR 0xE2, CHR 0x80, CHR 0x82], [CHR 0xE2, CHR 0x80, CHR 0x83],
     [CHR 0xE2, CHR 0x80, CHR 0x84], [CHR 0xE2, CHR 0x80, CHR 0x85],
     [CHR 0xE2, CHR 0x80, CHR 0x86], [CHR 0xE2, CHR 0x80, CHR 0x87],
     [CHR 0xE2, CHR 0x80, CHR 0x88], [CHR 0xE2, CHR 0x80, CHR 0x89],
     [CHR 0xE2, CHR 0x80, CHR 0x8A], [CHR 0xE2, CHR 0x80, CHR 0xA8],
     [CHR 0xE2, CHR 0x80, CHR 0xA9], [CHR 0xE2, CHR 0x80, CHR 0xAF],
     [CHR 0xE2, CHR 0x81, CHR 0x9F], [CHR 0xE3, CHR 0x80, CHR 0x80]]"

fun strip_any :: "string list \<Rightarrow> string \<Rightarrow> string option" where
  "strip_any [] s = None"
| "strip_any (p # ps) s = (if p \<noteq> [] \<and> starts_with s p then Some (drop (length p) s) else strip_any ps s)"

lemma strip_any_length: "strip_any ps s = Some t \<Longrightarrow> length t < length s"
  by (induction ps) (auto simp: starts_with_iff split: if_splits)

function trim_with :: "string list \<Rightarrow> string \<Rightarrow> string" where
  "trim_with ps s = (case strip_any ps s of None \<Rightarrow> s | Some t \<Rightarrow> trim_with ps t)"
  by pat_completeness auto
termination
  by (relation "measure (\<lambda>(ps, s). length s)") (auto simp: strip_any_length)

declare trim_with.simps [simp del]

definition trim :: "string \<Rightarrow> string" where
  "trim s = rev (trim_with (map rev white_space_encodings)
                  (rev (trim_with white_space_encodings s)))"

lemma suffix_trim_with: "\<exists>a. s = a @ trim_with ps s"
proof (induction ps s rule: trim_with.induct)
  case (1 ps s)
  show ?case
  proof (cases "strip_any ps s")
    case None
    then show ?thesis by (simp add: trim_with.simps)
  next
    case (Some t)
    have "\<exists>a. s = a @ t"
      using Some by (induction ps) (auto simp: starts_with_iff split: if_splits)
    with 1[OF Some] Some show ?thesis
      by (metis append.assoc option.simps(5) trim_with.simps)
  qed
qed

lemma set_trim: "set (trim s) \<subseteq> set s"
proof -
  obtain a where a: "s = a @ trim_with white_space_encodings s"
    using suffix_trim_with by blast
  obtain b where b: "rev (trim_with white_space_encodings s) = b @ rev (trim s)"
    using suffix_trim_with[of "rev (trim_with white_space_encodings s)"]
    unfolding trim_def by (metis rev_rev_ident)
  have "set (trim s) \<subseteq> set (rev (trim_with white_space_encodings s))"
    by (subst b) auto
  also have "\<dots> \<subseteq> set s" by (subst (2) a) auto
  finally show ?thesis .
qed

section \<open>Decimal numbers\<close>

definition digit_char :: "nat \<Rightarrow> char" where
  "digit_char d = char_of (48 + d)"

fun show_nat :: "nat \<Rightarrow> string" where
  "show_nat n = (if n < 10 then [digit_char n]
                 else show_nat (n div 10) @ [digit_char (n mod 10)])"

declare show_nat.simps [simp del]

definition show_int :: "int \<Rightarrow> string" where
  "show_int z = (if z < 0 then CHR ''-'' # show_nat (nat (- z)) else show_nat (nat z))"

text \<open>The digit loop of \<^verbatim>\<open>i64::from_str\<close> and its siblings; the sign is read by
  \<open>parse_int\<close>, which also applies the range of the target type.\<close>

fun digits_val :: "nat \<Rightarrow> string \<Rightarrow> nat option" where
  "digits_val acc [] = Some acc"
| "digits_val acc (c # cs) =
    (if is_ascii_digit c then digits_val (acc * 10 + (byte_val c - 48)) cs else None)"

definition parse_digits :: "string \<Rightarrow> nat option" where
  "parse_digits s = (if s = [] then None else digits_val 0 s)"

definition parse_int :: "int \<Rightarrow> int \<Rightarrow> string \<Rightarrow> int option" where
  "parse_int lo hi s =
    (let z = (case s of
                [] \<Rightarrow> None
              | c # cs \<Rightarrow>
                  if c = CHR ''-'' then map_option (\<lambda>n. - int n) (parse_digits cs)
                  else if c = CHR ''+'' then map_option int (parse_digits cs)
                  else map_option int (parse_digits s))
     in (case z of None \<Rightarrow> None | Some v \<Rightarrow> if lo \<le> v \<and> v \<le> hi then Some v else None))"

definition parse_i64 :: "string \<Rightarrow> int option" where
  "parse_i64 = parse_int (- (2 ^ 63)) (2 ^ 63 - 1)"

definition parse_i32 :: "string \<Rightarrow> int option" where
  "parse_i32 = parse_int (- (2 ^ 31)) (2 ^ 31 - 1)"

lemma byte_val_digit_char [simp]: "d < 10 \<Longrightarrow> byte_val (digit_char d) = 48 + d"
  by (simp add: digit_char_def)

lemma is_ascii_digit_digit_char [simp]: "d < 10 \<Longrightarrow> is_ascii_digit (digit_char d)"
  by (simp add: is_ascii_digit_def)

lemma digits_val_append:
  "digits_val acc (s @ t) = (case digits_val acc s of None \<Rightarrow> None | Some a \<Rightarrow> digits_val a t)"
  by (induction acc s rule: digits_val.induct) auto

lemma show_nat_not_Nil [simp]: "show_nat n \<noteq> []"
  by (subst show_nat.simps) simp

lemma show_nat_digits: "c \<in> set (show_nat n) \<Longrightarrow> is_ascii_digit c"
proof (induction n rule: show_nat.induct)
  case (1 n)
  from 1(2) show ?case
    by (subst (asm) show_nat.simps) (auto split: if_splits dest: 1(1))
qed

lemma digits_val_show_nat: "digits_val 0 (show_nat n) = Some n"
proof (induction n rule: show_nat.induct)
  case (1 n)
  show ?case
  proof (cases "n < 10")
    case True
    then show ?thesis by (subst show_nat.simps) simp
  next
    case False
    then show ?thesis using 1 by (subst show_nat.simps) (simp add: digits_val_append)
  qed
qed

lemma parse_digits_show_nat [simp]: "parse_digits (show_nat n) = Some n"
  by (simp add: parse_digits_def digits_val_show_nat)

lemma hd_show_nat_digit: "is_ascii_digit (hd (show_nat n))"
  using show_nat_digits[of "hd (show_nat n)" n] by simp

text \<open>What \<^verbatim>\<open>Display\<close> prints, \<^verbatim>\<open>parse\<close> reads back when it is in range.\<close>

lemma parse_int_show_int:
  assumes "lo \<le> z" "z \<le> hi"
  shows "parse_int lo hi (show_int z) = Some z"
proof (cases "z < 0")
  case True
  then show ?thesis using assms by (simp add: parse_int_def show_int_def)
next
  case False
  obtain c cs where s: "show_nat (nat z) = c # cs"
    by (cases "show_nat (nat z)") auto
  have "is_ascii_digit c" using hd_show_nat_digit[of "nat z"] s by simp
  then have "c \<noteq> CHR ''-''" "c \<noteq> CHR ''+''"
    by (auto simp: is_ascii_digit_def byte_val_def)
  moreover have "parse_digits (c # cs) = Some (nat z)"
    using parse_digits_show_nat[of "nat z"] s by simp
  ultimately show ?thesis using False assms s
    by (simp add: parse_int_def show_int_def)
qed

lemma parse_i64_show_int: "- (2 ^ 63) \<le> z \<Longrightarrow> z \<le> 2 ^ 63 - 1 \<Longrightarrow> parse_i64 (show_int z) = Some z"
  unfolding parse_i64_def by (rule parse_int_show_int)

lemma parse_int_range: "parse_int lo hi s = Some z \<Longrightarrow> lo \<le> z \<and> z \<le> hi"
  by (auto simp: parse_int_def Let_def split: option.splits if_splits)

section \<open>Quoting and code points\<close>

text \<open>A value between single quotes, as the error messages print it.\<close>

definition quoted :: "string \<Rightarrow> string" where
  "quoted s = CHR 0x27 # s @ [CHR 0x27]"

text \<open>\<^verbatim>\<open>str::chars\<close>, each code point as its UTF-8 encoding: a byte that is not a
  continuation byte together with the continuation bytes after it.\<close>

definition is_continuation :: "char \<Rightarrow> bool" where
  "is_continuation c \<longleftrightarrow> 128 \<le> byte_val c \<and> byte_val c < 192"

fun chars :: "string \<Rightarrow> string list" where
  "chars [] = []"
| "chars (c # cs) =
    (case chars cs of
       [] \<Rightarrow> [[c]]
     | d # ds \<Rightarrow> (case d of
         [] \<Rightarrow> [c] # ds
       | x # _ \<Rightarrow> if is_continuation x then (c # d) # ds else [c] # d # ds))"

lemma concat_chars [simp]: "concat (chars s) = s"
  by (induction s) (auto split: list.splits)

lemma chars_not_Nil: "c \<in> set (chars s) \<Longrightarrow> c \<noteq> []"
  by (induction s arbitrary: c) (auto split: list.splits if_splits)

lemma chars_eq_iff [simp]: "chars s = chars t \<longleftrightarrow> s = t"
  by (metis concat_chars)

lemma chars_ascii: "\<forall>c \<in> set s. is_ascii c \<Longrightarrow> chars s = map (\<lambda>c. [c]) s"
proof (induction s)
  case (Cons c cs)
  then have "chars cs = map (\<lambda>c. [c]) cs" by simp
  then show ?case using Cons.prems
    by (cases cs) (auto simp: is_continuation_def is_ascii_def)
qed simp

section \<open>Well-formed UTF-8\<close>

text \<open>\<^verbatim>\<open>String::from_utf8\<close> succeeds on well-formed byte sequences.\<close>

definition in_range :: "nat \<Rightarrow> nat \<Rightarrow> char \<Rightarrow> bool" where
  "in_range lo hi c \<longleftrightarrow> lo \<le> byte_val c \<and> byte_val c \<le> hi"

function utf8_valid :: "string \<Rightarrow> bool" where
  "utf8_valid [] = True"
| "utf8_valid (a # r) =
    (if in_range 0 0x7F a then utf8_valid r
     else (case r of
       [] \<Rightarrow> False
     | b # r1 \<Rightarrow>
        if in_range 0xC2 0xDF a then in_range 0x80 0xBF b \<and> utf8_valid r1
        else (case r1 of
          [] \<Rightarrow> False
        | c # r2 \<Rightarrow>
           if in_range 0xE0 0xE0 a then in_range 0xA0 0xBF b \<and> in_range 0x80 0xBF c \<and> utf8_valid r2
           else if in_range 0xE1 0xEC a \<or> in_range 0xEE 0xEF a then
             in_range 0x80 0xBF b \<and> in_range 0x80 0xBF c \<and> utf8_valid r2
           else if in_range 0xED 0xED a then in_range 0x80 0x9F b \<and> in_range 0x80 0xBF c \<and> utf8_valid r2
           else (case r2 of
             [] \<Rightarrow> False
           | d # r3 \<Rightarrow>
              (if in_range 0xF0 0xF0 a then in_range 0x90 0xBF b
               else if in_range 0xF1 0xF3 a then in_range 0x80 0xBF b
               else in_range 0xF4 0xF4 a \<and> in_range 0x80 0x8F b)
              \<and> in_range 0x80 0xBF c \<and> in_range 0x80 0xBF d \<and> utf8_valid r3))))"
  by pat_completeness auto
termination by (relation "measure length") auto

declare utf8_valid.simps(2) [simp del]

text \<open>\<^verbatim>\<open>String::from_utf8_lossy\<close>: the longest well-formed or truncated start of a code point is one
  step; what is not well-formed becomes U+FFFD.  \<open>utf8_head\<close> says whether the text starts with a
  code point, and how many bytes the step takes.\<close>

definition utf8_second :: "char \<Rightarrow> char \<Rightarrow> bool" where
  "utf8_second a b \<longleftrightarrow>
    (if in_range 0xE0 0xE0 a then in_range 0xA0 0xBF b
     else if in_range 0xED 0xED a then in_range 0x80 0x9F b
     else if in_range 0xF0 0xF0 a then in_range 0x90 0xBF b
     else if in_range 0xF4 0xF4 a then in_range 0x80 0x8F b
     else in_range 0x80 0xBF b)"

definition utf8_head :: "char \<Rightarrow> string \<Rightarrow> bool \<times> nat" where
  "utf8_head a r =
    (let cont = (\<lambda>i. i < length r \<and> in_range 0x80 0xBF (r ! i));
         second = (r \<noteq> [] \<and> utf8_second a (hd r)) in
     if in_range 0 0x7F a then (True, 1)
     else if in_range 0xC2 0xDF a then (if second then (True, 2) else (False, 1))
     else if in_range 0xE0 0xEF a then
       (if \<not> second then (False, 1) else if cont 1 then (True, 3) else (False, 2))
     else if in_range 0xF0 0xF4 a then
       (if \<not> second then (False, 1) else if \<not> cont 1 then (False, 2) else if cont 2 then (True, 4) else (False, 3))
     else (False, 1))"

lemma utf8_head_pos: "0 < snd (utf8_head a r)"
  by (simp add: utf8_head_def Let_def)

function from_utf8_lossy :: "string \<Rightarrow> string" where
  "from_utf8_lossy [] = []"
| "from_utf8_lossy (a # r) =
    (let (good, n) = utf8_head a r in
     (if good then take n (a # r) else [CHR 0xEF, CHR 0xBF, CHR 0xBD]) @ from_utf8_lossy (drop n (a # r)))"
  by pat_completeness auto
termination
proof (relation "measure length", goal_cases)
  case (2 a r x good n)
  then have "n = snd (utf8_head a r)" by (metis snd_conv)
  then show ?case using utf8_head_pos[of a r] by simp
qed simp

declare from_utf8_lossy.simps(2) [simp del]

text \<open>A head is well-formed by the class of its first byte.\<close>

lemma utf8_valid_head:
  assumes "utf8_valid (a # r)"
  shows "fst (utf8_head a r) \<and> utf8_valid (drop (snd (utf8_head a r)) (a # r))"
proof -
  note v = assms[unfolded utf8_valid.simps(2)[of a r]]
  consider (one) "in_range 0 0x7F a" | (more) b r1 where "\<not> in_range 0 0x7F a" "r = b # r1"
    using v by (cases r) (simp_all split: if_splits)
  then show ?thesis
  proof cases
    case one
    then show ?thesis using v by (simp add: utf8_head_def)
  next
    case (more b r1)
    note v1 = v[unfolded more(2), simplified more(1) if_False list.case]
    have c2: "in_range 0xC2 0xDF a \<Longrightarrow> utf8_second a b = in_range 0x80 0xBF b"
      by (simp add: utf8_second_def in_range_def)
    consider (two) "in_range 0xC2 0xDF a" | (more) c r2 where "\<not> in_range 0xC2 0xDF a" "r1 = c # r2"
      using v1 by (cases r1) (simp_all split: if_splits)
    then show ?thesis
    proof cases
      case two
      then show ?thesis using v1 more c2 by (simp add: utf8_head_def)
    next
      case m2: (more c r2)
      note v2 = v1[unfolded m2(2), simplified m2(1) if_False list.case]
      show ?thesis
      proof (cases "in_range 0xE0 0xEF a")
        case True
        then have "utf8_second a b \<and> in_range 0x80 0xBF c \<and> utf8_valid r2"
          using v2 by (cases r2) (auto simp: utf8_second_def in_range_def split: if_splits)
        then show ?thesis using True more m2 by (simp add: utf8_head_def)
      next
        case False
        then obtain d r3 where d: "r2 = d # r3"
          using v2 by (cases r2) (auto simp: in_range_def split: if_splits)
        have "in_range 0xF0 0xF4 a \<and> utf8_second a b \<and> in_range 0x80 0xBF c \<and> in_range 0x80 0xBF d \<and> utf8_valid r3"
          using v2 False unfolding d by (auto simp: utf8_second_def in_range_def split: if_splits)
        then show ?thesis using False more m2 d by (simp add: utf8_head_def)
      qed
    qed
  qed
qed

text \<open>Well-formed text is kept.\<close>

lemma from_utf8_lossy_valid: "utf8_valid s \<Longrightarrow> from_utf8_lossy s = s"
proof (induction s rule: from_utf8_lossy.induct)
  case (2 a r)
  obtain good n where h: "utf8_head a r = (good, n)" by fastforce
  then have "good" "utf8_valid (drop n (a # r))" using utf8_valid_head[OF 2(2)] by auto
  then show ?case using 2(1)[OF h[symmetric]] h by (simp add: from_utf8_lossy.simps(2)[of a r])
qed simp

end
