(* ===== verification/Redact.thy ===== *)
theory Redact
  imports Prelude
begin

text \<open>
  Secret redaction, \<^verbatim>\<open>src/redact.rs\<close>.  The byte loop of \<^verbatim>\<open>redact\<close> is
  \<open>redact_loop\<close>, a recursion on the bytes still to be read that carries the byte
  before them (\<open>None\<close> at offset 0).  The lemmas show that what is printed does not
  depend on the value of a secret query parameter or of a bearer token, and that
  redaction is idempotent on ASCII messages.
\<close>

section \<open>The code\<close>

definition SECRET_QUERY_KEYS :: "string list" where
  "SECRET_QUERY_KEYS =
    [''sig'', ''signature'', ''skoid'', ''sktid'', ''skt'', ''ske'', ''sks'', ''skv'', ''code'',
     ''access_token'', ''refresh_token'', ''id_token'', ''client_assertion'', ''assertion'']"

definition consume_prefix_ci :: "string \<Rightarrow> string \<Rightarrow> string option" where
  "consume_prefix_ci bytes pre =
    (if length bytes < length pre then None
     else if to_ascii_lowercase (take (length pre) bytes) = to_ascii_lowercase pre
       then Some (drop (length pre) bytes)
       else None)"

text \<open>\<^verbatim>\<open>u8 as char\<close> pushed on a \<^verbatim>\<open>String\<close>: a byte above 127 becomes the two-byte
  encoding of the code point with that number.\<close>

definition push_byte_as_char :: "char \<Rightarrow> string" where
  "push_byte_as_char b =
    (if byte_val b < 128 then [b]
     else [char_of (192 + byte_val b div 64), char_of (128 + byte_val b mod 64)])"

definition bearer_end :: "char \<Rightarrow> bool" where
  "bearer_end c \<longleftrightarrow> is_ascii_whitespace c \<or> c = CHR 0x22 \<or> c = CHR '','' \<or> c = CHR 0x27"

definition value_end :: "char \<Rightarrow> bool" where
  "value_end c \<longleftrightarrow>
    c \<in> {CHR ''&'', CHR '' '', CHR 0x09, CHR 0x0A, CHR '')'', CHR 0x27, CHR 0x22, CHR '',''}"

fun prev_ok :: "char option \<Rightarrow> bool" where
  "prev_ok None \<longleftrightarrow> True"
| "prev_ok (Some c) \<longleftrightarrow>
    c \<in> {CHR ''?'', CHR ''&'', CHR '' '', CHR 0x09, CHR 0x0A, CHR ''('', CHR 0x27, CHR 0x22, CHR '',''}"

text \<open>The bytes left after a bearer token at the head, if there is one.\<close>

definition match_bearer :: "string \<Rightarrow> string option" where
  "match_bearer bytes =
    (case consume_prefix_ci bytes ''bearer'' of
       None \<Rightarrow> None
     | Some rest \<Rightarrow>
         (let ws_len = length (takeWhile is_ascii_whitespace rest); tail = drop ws_len rest
          in if ws_len > 0 then Some (dropWhile (\<lambda>c. \<not> bearer_end c) tail) else None))"

text \<open>The first secret key that stands at the head as \<^verbatim>\<open>key=\<close> behind a separator,
  with the bytes left after its value.\<close>

fun match_key :: "char option \<Rightarrow> string \<Rightarrow> string list \<Rightarrow> (string \<times> string) option" where
  "match_key prev bytes [] = None"
| "match_key prev bytes (key # keys) =
    (case consume_prefix_ci bytes (key @ ''='') of
       Some rest \<Rightarrow>
         if \<not> prev_ok prev then match_key prev bytes keys
         else Some (key, dropWhile (\<lambda>c. \<not> value_end c) rest)
     | None \<Rightarrow> match_key prev bytes keys)"

lemma consume_prefix_ci_Some:
  "consume_prefix_ci s p = Some r \<longleftrightarrow>
    (\<exists>q. s = q @ r \<and> to_ascii_lowercase q = to_ascii_lowercase p)"
proof
  assume "consume_prefix_ci s p = Some r"
  then show "\<exists>q. s = q @ r \<and> to_ascii_lowercase q = to_ascii_lowercase p"
    by (auto simp: consume_prefix_ci_def split: if_splits intro!: exI[of _ "take (length p) s"])
next
  assume "\<exists>q. s = q @ r \<and> to_ascii_lowercase q = to_ascii_lowercase p"
  then obtain q where q: "s = q @ r" "to_ascii_lowercase q = to_ascii_lowercase p" by blast
  then have "length q = length p" by (metis length_to_ascii_lowercase)
  with q show "consume_prefix_ci s p = Some r" by (simp add: consume_prefix_ci_def)
qed

lemma match_bearer_length: "match_bearer s = Some r \<Longrightarrow> length r < length s"
proof -
  assume "match_bearer s = Some r"
  then obtain rest where rest: "consume_prefix_ci s ''bearer'' = Some rest"
    and r: "r = dropWhile (\<lambda>c. \<not> bearer_end c) (drop (length (takeWhile is_ascii_whitespace rest)) rest)"
    by (auto simp: match_bearer_def Let_def split: option.splits if_splits)
  have "length rest < length s"
    using rest by (auto simp: consume_prefix_ci_def split: if_splits)
  moreover have "length r \<le> length rest"
    unfolding r using length_dropWhile_le[of "\<lambda>c. \<not> bearer_end c"] by (rule le_trans) simp
  ultimately show ?thesis by simp
qed

lemma match_key_length: "match_key prev s ks = Some (k, r) \<Longrightarrow> length r < length s"
proof (induction prev s ks rule: match_key.induct)
  case (2 prev s key keys)
  show ?case
  proof (cases "consume_prefix_ci s (key @ ''='')")
    case None
    with 2 show ?thesis by simp
  next
    case (Some rest)
    have "length rest < length s"
      using Some by (auto simp: consume_prefix_ci_def split: if_splits)
    with 2 Some length_dropWhile_le[of "\<lambda>c. \<not> value_end c" rest] show ?thesis
      by (auto split: if_splits)
  qed
qed simp

text \<open>The byte just before the suffix \<open>r\<close> of \<open>s\<close>.\<close>

definition byte_before :: "string \<Rightarrow> string \<Rightarrow> char option" where
  "byte_before s r = Some (last (take (length s - length r) s))"

function redact_loop :: "char option \<Rightarrow> string \<Rightarrow> string" where
  "redact_loop prev [] = []"
| "redact_loop prev (b # bs) =
    (case match_bearer (b # bs) of
       Some r \<Rightarrow> ''Bearer REDACTED'' @ redact_loop (byte_before (b # bs) r) r
     | None \<Rightarrow>
         (case match_key prev (b # bs) SECRET_QUERY_KEYS of
            Some (key, r) \<Rightarrow> key @ ''=REDACTED'' @ redact_loop (byte_before (b # bs) r) r
          | None \<Rightarrow> push_byte_as_char b @ redact_loop (Some b) bs))"
  by pat_completeness auto
termination
  by (relation "measure (\<lambda>(prev, s). length s)")
    (auto dest: match_bearer_length match_key_length)

declare redact_loop.simps(2) [simp del]

definition redact :: "string \<Rightarrow> string" where
  "redact msg =
    (let lower = to_ascii_lowercase msg;
         has_secret_key = list_ex (\<lambda>k. contains_str lower (k @ ''='')) SECRET_QUERY_KEYS;
         has_bearer = contains_str lower ''bearer''
     in if \<not> has_secret_key \<and> \<not> has_bearer then msg else redact_loop None msg)"

section \<open>Bytes of the patterns and their neighbours\<close>

lemma secret_key_chars:
  "k \<in> set SECRET_QUERY_KEYS \<Longrightarrow> c \<in> set k \<Longrightarrow> is_ascii_lowercase c \<or> c = CHR ''_''"
  by (auto simp: SECRET_QUERY_KEYS_def is_ascii_lowercase_def byte_val_def)

lemma secret_key_hd:
  "k \<in> set SECRET_QUERY_KEYS \<Longrightarrow> k \<noteq> [] \<and> is_ascii_lowercase (hd k)"
  by (auto simp: SECRET_QUERY_KEYS_def is_ascii_lowercase_def byte_val_def)

lemma secret_key_no_b: "k \<in> set SECRET_QUERY_KEYS \<Longrightarrow> CHR ''b'' \<notin> set k"
  by (auto simp: SECRET_QUERY_KEYS_def)

lemma secret_key_lower: "k \<in> set SECRET_QUERY_KEYS \<Longrightarrow> to_ascii_lowercase k = k"
  by (auto simp: to_ascii_lowercase_def ascii_lower_def is_ascii_lowercase_def byte_val_def
      intro!: map_idI dest!: secret_key_chars)

lemma bearer_lower: "to_ascii_lowercase ''bearer'' = ''bearer''"
  by (simp add: to_ascii_lowercase_def ascii_lower_def byte_val_def)

text \<open>A byte that may stand before a key, or that ends a value, is no letter of a pattern.\<close>

definition plain :: "char \<Rightarrow> bool" where
  "plain c \<longleftrightarrow> \<not> is_ascii_lowercase (ascii_lower c) \<and> c \<noteq> CHR ''_'' \<and> c \<noteq> CHR ''=''"

lemma plain_value_end: "value_end c \<Longrightarrow> plain c"
  and plain_bearer_end: "bearer_end c \<Longrightarrow> plain c"
  and plain_prev_ok: "prev_ok (Some c) \<Longrightarrow> plain c"
  and plain_ws: "is_ascii_whitespace c \<Longrightarrow> plain c"
  by (auto simp: plain_def value_end_def bearer_end_def is_ascii_whitespace_def
      is_ascii_lowercase_def ascii_lower_def byte_val_def)


definition is_pattern :: "string \<Rightarrow> bool" where
  "is_pattern p \<longleftrightarrow> (\<forall>c \<in> set p. \<not> plain c \<and> ascii_lower c = c)"

lemma is_pattern_Cons [simp]:
  "is_pattern (c # p) \<longleftrightarrow> \<not> plain c \<and> ascii_lower c = c \<and> is_pattern p"
  by (auto simp: is_pattern_def)

lemma is_pattern_bearer: "is_pattern ''bearer''"
  by (simp add: is_pattern_def plain_def is_ascii_lowercase_def ascii_lower_def byte_val_def)

lemma is_pattern_key: "k \<in> set SECRET_QUERY_KEYS \<Longrightarrow> is_pattern (k @ ''='')"
  by (auto simp: is_pattern_def plain_def is_ascii_lowercase_def ascii_lower_def byte_val_def
      dest!: secret_key_chars)

lemma plain_lower: "plain (ascii_lower c) \<longleftrightarrow> plain c"
  by (auto simp: plain_def is_ascii_lowercase_def ascii_lower_def byte_val_def split: if_splits)

lemma consume_Nil [simp]: "consume_prefix_ci s [] = Some s"
  by (simp add: consume_prefix_ci_def)

lemma consume_empty [simp]: "consume_prefix_ci [] (p # ps) = None"
  by (simp add: consume_prefix_ci_def)

lemma consume_Cons [simp]:
  "consume_prefix_ci (c # s) (p # ps) =
    (if ascii_lower c = ascii_lower p then consume_prefix_ci s ps else None)"
  by (simp add: consume_prefix_ci_def to_ascii_lowercase_def)

lemma consume_prefix_split:
  assumes "consume_prefix_ci s p = Some r" "p \<noteq> []"
  obtains q where "s = q @ r" "q \<noteq> []"
proof -
  obtain q where "s = q @ r" "to_ascii_lowercase q = to_ascii_lowercase p"
    using assms(1) consume_prefix_ci_Some by blast
  moreover from this assms(2) have "q \<noteq> []" by (auto simp: to_ascii_lowercase_def)
  ultimately show thesis using that by blast
qed

text \<open>A pattern cannot run across a plain byte.\<close>

lemma consume_append_plain:
  assumes "plain x" "is_pattern p" "p \<noteq> []"
  shows "consume_prefix_ci (a @ x # z) p = map_option (\<lambda>r. r @ x # z) (consume_prefix_ci a p)"
  using assms(2,3)
proof (induction p arbitrary: a)
  case (Cons c p)
  show ?case
  proof (cases a)
    case Nil
    have "ascii_lower x \<noteq> ascii_lower c"
      using Cons.prems assms(1) plain_lower by (metis is_pattern_Cons)
    with Nil show ?thesis by simp
  next
    case (Cons d a')
    with Cons.IH Cons.prems show ?thesis by (cases "p = []") auto
  qed
qed simp

lemma match_key_plain_hd:
  assumes "s = [] \<or> plain (hd s)" "set keys \<subseteq> set SECRET_QUERY_KEYS"
  shows "match_key prev s keys = None"
  using assms(2)
proof (induction keys)
  case (Cons k keys)
  have k: "k \<in> set SECRET_QUERY_KEYS" using Cons.prems by simp
  have "consume_prefix_ci s (k @ ''='') = None"
  proof (cases s)
    case Nil
    then show ?thesis by (cases k) auto
  next
    case (Cons c s')
    then show ?thesis
      using consume_append_plain[of c "k @ ''=''" "[]" s'] assms(1) is_pattern_key[OF k]
      by (cases k) auto
  qed
  with Cons show ?case by simp
qed simp

lemma redact_loop_prev_irrelevant:
  assumes "s = [] \<or> plain (hd s)"
  shows "redact_loop p s = redact_loop q s"
  using assms match_key_plain_hd[OF assms order_refl] by (cases s) (auto simp: redact_loop.simps(2) split: option.splits)

text \<open>Skipping up to a terminator, over bytes that are none.\<close>

lemma skip_cases:
  assumes "\<forall>c \<in> set m. \<not> E c" "\<forall>c \<in> set v1 \<union> set v2. \<not> E c"
  shows "(\<exists>b a'. a = b @ a' \<and> dropWhile (\<lambda>c. \<not> E c) (a @ x # m @ v1 @ rest) = a' @ x # m @ v1 @ rest
              \<and> dropWhile (\<lambda>c. \<not> E c) (a @ x # m @ v2 @ rest) = a' @ x # m @ v2 @ rest)
    \<or> (\<forall>v \<in> {v1, v2}. dropWhile (\<lambda>c. \<not> E c) (a @ x # m @ v @ rest) = dropWhile (\<lambda>c. \<not> E c) rest)"
proof (cases "\<exists>c \<in> set a. E c")
  case True
  then have "dropWhile (\<lambda>c. \<not> E c) (a @ t) = dropWhile (\<lambda>c. \<not> E c) a @ t" for t
    by (auto simp: dropWhile_append)
  moreover have "a = takeWhile (\<lambda>c. \<not> E c) a @ dropWhile (\<lambda>c. \<not> E c) a" by simp
  ultimately show ?thesis by blast
next
  case False
  show ?thesis
  proof (cases "E x")
    case True
    with False have "dropWhile (\<lambda>c. \<not> E c) (a @ x # t) = x # t" for t
      by (simp add: dropWhile_append2)
    then show ?thesis by (intro disjI1 exI[of _ a] exI[of _ "[]"]) simp
  next
    case False2: False
    have "dropWhile (\<lambda>c. \<not> E c) (a @ x # m @ v @ rest) = dropWhile (\<lambda>c. \<not> E c) rest"
      if "v \<in> {v1, v2}" for v
      using False False2 assms that by (auto simp: dropWhile_append2)
    then show ?thesis by blast
  qed
qed


lemma dropWhile_hd:
  "dropWhile (\<lambda>c. \<not> E c) s = [] \<or> E (hd (dropWhile (\<lambda>c. \<not> E c) s))"
  using hd_dropWhile[of "\<lambda>c. \<not> E c" s] by auto

lemma byte_before_append [simp]: "byte_before (b @ r) r = Some (last b)"
  by (simp add: byte_before_def)

text \<open>The two runs on the messages that differ in the value only, started on a common
  text \<open>a\<close> before the key, either resume on a common shorter text or have passed the value.\<close>

definition resume :: "string \<Rightarrow> string \<Rightarrow> string \<Rightarrow> string \<Rightarrow> string \<Rightarrow> bool" where
  "resume a y1 y2 r1 r2 \<longleftrightarrow>
    (\<exists>b a'. a = b @ a' \<and> b \<noteq> [] \<and> r1 = a' @ y1 \<and> r2 = a' @ y2)
    \<or> (r1 = r2 \<and> (r1 = [] \<or> plain (hd r1)))"

lemma skip_resume:
  assumes "\<forall>c \<in> set m. \<not> E c" "\<forall>c \<in> set v1 \<union> set v2. \<not> E c"
    and a: "a = q @ r" "q \<noteq> []" and plain: "\<And>c. E c \<Longrightarrow> plain c"
  shows "resume a (x # m @ v1 @ rest) (x # m @ v2 @ rest)
    (dropWhile (\<lambda>c. \<not> E c) (r @ x # m @ v1 @ rest)) (dropWhile (\<lambda>c. \<not> E c) (r @ x # m @ v2 @ rest))"
  using skip_cases[OF assms(1,2), of r x rest]
proof
  let ?D = "dropWhile (\<lambda>c. \<not> E c)"
  assume "\<exists>b a'. r = b @ a' \<and> ?D (r @ x # m @ v1 @ rest) = a' @ x # m @ v1 @ rest
      \<and> ?D (r @ x # m @ v2 @ rest) = a' @ x # m @ v2 @ rest"
  then obtain b a' where "r = b @ a'" "?D (r @ x # m @ v1 @ rest) = a' @ x # m @ v1 @ rest"
    "?D (r @ x # m @ v2 @ rest) = a' @ x # m @ v2 @ rest" by blast
  with a show ?thesis
    unfolding resume_def by (intro disjI1 exI[of _ "q @ b"] exI[of _ a']) simp
next
  assume "\<forall>v \<in> {v1, v2}. dropWhile (\<lambda>c. \<not> E c) (r @ x # m @ v @ rest) = dropWhile (\<lambda>c. \<not> E c) rest"
  with dropWhile_hd[of E rest] plain show ?thesis
    by (auto simp: resume_def)
qed

lemma match_bearer_resume:
  assumes x: "plain x" and m: "m \<noteq> []" "\<not> is_ascii_whitespace (hd m)" "\<forall>c \<in> set m. \<not> bearer_end c"
    and v: "\<forall>c \<in> set v1 \<union> set v2. \<not> bearer_end c"
  shows "match_bearer (a @ x # m @ v1 @ rest) = None \<and> match_bearer (a @ x # m @ v2 @ rest) = None
    \<or> (\<exists>r1 r2. match_bearer (a @ x # m @ v1 @ rest) = Some r1
        \<and> match_bearer (a @ x # m @ v2 @ rest) = Some r2
        \<and> resume a (x # m @ v1 @ rest) (x # m @ v2 @ rest) r1 r2)"
proof (cases "consume_prefix_ci a ''bearer''")
  case None
  then show ?thesis using consume_append_plain[OF x is_pattern_bearer]
    by (simp add: match_bearer_def)
next
  case (Some r)
  then obtain q where q: "a = q @ r" "q \<noteq> []"
    by (rule consume_prefix_split) simp
  have c: "consume_prefix_ci (a @ x # t) ''bearer'' = Some (r @ x # t)" for t
    using Some consume_append_plain[OF x is_pattern_bearer] by simp
  let ?D = "dropWhile (\<lambda>c. \<not> bearer_end c)"
  show ?thesis
  proof (cases "\<exists>c \<in> set (r @ [x]). \<not> is_ascii_whitespace c")
    case True
    define n where "n = length (takeWhile is_ascii_whitespace r)"
    have n: "length (takeWhile is_ascii_whitespace (r @ x # t)) = n" for t
      using True by (cases "\<exists>c \<in> set r. \<not> is_ascii_whitespace c") (auto simp: n_def takeWhile_append takeWhile_eq_all_conv[THEN iffD2])
    have "n \<le> length r" by (simp add: n_def length_takeWhile_le)
    then have d: "drop n (r @ x # t) = drop n r @ x # t" for t by simp
    have r: "a = (q @ take n r) @ drop n r" "q @ take n r \<noteq> []" using q by auto
    have "match_bearer (a @ x # t) = (if n > 0 then Some (?D (drop n r @ x # t)) else None)" for t
      by (simp add: match_bearer_def c n d Let_def del: drop_append)
    then show ?thesis
      using skip_resume[OF m(3) v r plain_bearer_end] by auto
  next
    case False
    have n: "length (takeWhile is_ascii_whitespace (r @ x # m @ t)) = Suc (length r)" for t
      using False m by (cases m) (auto simp: takeWhile_append2)
    have "match_bearer (a @ x # m @ t) = Some (?D (m @ t))" for t
      by (simp add: match_bearer_def c n Let_def)
    moreover have "?D (m @ v @ rest) = ?D rest" if "v \<in> {v1, v2}" for v
      using m v that by (auto simp: dropWhile_append2)
    moreover have "?D rest = [] \<or> plain (hd (?D rest))"
      using dropWhile_hd[of bearer_end rest] plain_bearer_end by blast
    ultimately show ?thesis by (simp add: resume_def)
  qed
qed

lemma match_key_resume:
  assumes x: "plain x" and m: "\<forall>c \<in> set m. \<not> value_end c"
    and v: "\<forall>c \<in> set v1 \<union> set v2. \<not> value_end c"
    and ks: "set keys \<subseteq> set SECRET_QUERY_KEYS"
  shows "match_key prev (a @ x # m @ v1 @ rest) keys = None \<and> match_key prev (a @ x # m @ v2 @ rest) keys = None
    \<or> (\<exists>k r1 r2. match_key prev (a @ x # m @ v1 @ rest) keys = Some (k, r1)
        \<and> match_key prev (a @ x # m @ v2 @ rest) keys = Some (k, r2)
        \<and> resume a (x # m @ v1 @ rest) (x # m @ v2 @ rest) r1 r2)"
  using ks
proof (induction keys)
  case (Cons k keys)
  let ?D = "dropWhile (\<lambda>c. \<not> value_end c)"
  have k: "is_pattern (k @ ''='')" using Cons.prems is_pattern_key by simp
  show ?case
  proof (cases "prev_ok prev \<and> consume_prefix_ci a (k @ ''='') \<noteq> None")
    case False
    then have "match_key prev (a @ x # t) (k # keys) = match_key prev (a @ x # t) keys" for t
      using consume_append_plain[OF x k] by (auto split: option.splits)
    with Cons show ?thesis by simp
  next
    case True
    then obtain r where r: "consume_prefix_ci a (k @ ''='') = Some r" by auto
    then obtain q where q: "a = q @ r" "q \<noteq> []"
      by (rule consume_prefix_split) simp
    have c: "match_key prev (a @ x # t) (k # keys) = Some (k, ?D (r @ x # t))" for t
      using r True consume_append_plain[OF x k] by simp
    show ?thesis
      unfolding c using skip_resume[OF m v q plain_value_end] by blast
  qed
qed simp


lemma redact_loop_resume:
  assumes "resume a y1 y2 r1 r2"
    and "\<And>b a' p. a = b @ a' \<Longrightarrow> b \<noteq> [] \<Longrightarrow> redact_loop p (a' @ y1) = redact_loop p (a' @ y2)"
  shows "redact_loop (byte_before (a @ y1) r1) r1 = redact_loop (byte_before (a @ y2) r2) r2"
  using assms(1) unfolding resume_def
proof
  assume "\<exists>b a'. a = b @ a' \<and> b \<noteq> [] \<and> r1 = a' @ y1 \<and> r2 = a' @ y2"
  then obtain b a' where ba: "a = b @ a'" "b \<noteq> []" "r1 = a' @ y1" "r2 = a' @ y2" by blast
  have "byte_before (a @ y) (a' @ y) = Some (last b)" for y
    using ba byte_before_append[of b "a' @ y"] by simp
  with ba assms(2)[OF ba(1,2)] show ?thesis by simp
qed (metis redact_loop_prev_irrelevant)

lemma match_key_at:
  assumes "keys \<noteq> []" "set keys \<subseteq> set SECRET_QUERY_KEYS" "key \<in> set keys"
    and "to_ascii_lowercase k = key" and "prev_ok prev"
    and "\<forall>c \<in> set v. \<not> value_end c" and "rest = [] \<or> value_end (hd rest)"
  shows "match_key prev (k @ CHR ''='' # v @ rest) keys = Some (key, rest)"
  using assms(1-3)
proof (induction keys)
  case (Cons k2 keys)
  let ?s = "k @ CHR ''='' # v @ rest"
  have len: "length k = length key" using assms(4) length_to_ascii_lowercase by metis
  show ?case
  proof (cases "k2 = key")
    case True
    have c: "consume_prefix_ci ?s (key @ ''='') = Some (v @ rest)"
      using assms(4) unfolding consume_prefix_ci_Some
      by (intro exI[of _ "k @ ''=''"])
        (auto simp: to_ascii_lowercase_def)
    have d: "dropWhile (\<lambda>c. \<not> value_end c) (v @ rest) = rest"
      using assms(6,7) by (cases rest) (auto simp: dropWhile_append2)
    show ?thesis using True assms(5) c d by simp
  next
    case False
    have "consume_prefix_ci ?s (k2 @ ''='') = None"
    proof (rule ccontr)
      assume "consume_prefix_ci ?s (k2 @ ''='') \<noteq> None"
      then obtain r q where q: "?s = q @ r" "to_ascii_lowercase q = to_ascii_lowercase (k2 @ ''='')"
        using consume_prefix_ci_Some by blast
      have l: "to_ascii_lowercase ?s = key @ CHR ''='' # to_ascii_lowercase (v @ rest)"
        using assms(4) by (simp add: to_ascii_lowercase_def ascii_lower_def byte_val_def)
      have "to_ascii_lowercase ?s = k2 @ CHR ''='' # to_ascii_lowercase r"
        unfolding q(1) to_ascii_lowercase_append q(2)
        using Cons.prems secret_key_lower[of k2]
        by (simp add: to_ascii_lowercase_def ascii_lower_def byte_val_def)
      with l have e: "key @ CHR ''='' # to_ascii_lowercase (v @ rest) = k2 @ CHR ''='' # to_ascii_lowercase r"
        by simp
      have "CHR ''='' \<notin> set key" "CHR ''='' \<notin> set k2"
        using Cons.prems secret_key_chars[of key "CHR ''=''"] secret_key_chars[of k2 "CHR ''=''"]
        by (auto simp: is_ascii_lowercase_def byte_val_def)
      then have "key = k2"
        using e by (metis split_once_Some_iff option.inject prod.inject)
      with False show False by simp
    qed
    moreover have "keys \<noteq> []" using Cons.prems False by auto
    ultimately show ?thesis using Cons False by simp
  qed
qed simp

lemma match_bearer_not_b:
  "s = [] \<or> ascii_lower (hd s) \<noteq> CHR ''b'' \<Longrightarrow> match_bearer s = None"
  using ascii_lower_idem[of "CHR ''b''"]
  by (cases s) (auto simp: match_bearer_def ascii_lower_def byte_val_def)

lemma plain_not_b: "plain c \<Longrightarrow> ascii_lower c \<noteq> CHR ''b''"
  by (auto simp: plain_def is_ascii_lowercase_def byte_val_def)

lemma redact_loop_at_key:
  assumes sep: "prev_ok (Some sep)" and key: "to_ascii_lowercase k \<in> set SECRET_QUERY_KEYS"
    and v: "\<forall>c \<in> set v. \<not> value_end c" and rest: "rest = [] \<or> value_end (hd rest)"
  shows "redact_loop prev (sep # (k @ ''='') @ v @ rest)
    = push_byte_as_char sep @ to_ascii_lowercase k @ ''=REDACTED'' @ redact_loop None rest"
proof -
  let ?t = "k @ CHR ''='' # v @ rest"
  have sep': "plain sep" using sep by (rule plain_prev_ok)
  have 1: "redact_loop prev (sep # ?t) = push_byte_as_char sep @ redact_loop (Some sep) ?t"
    using match_bearer_not_b[of "sep # ?t"] plain_not_b[OF sep']
      match_key_plain_hd[of "sep # ?t" SECRET_QUERY_KEYS prev] sep'
    by (simp add: redact_loop.simps(2))
  obtain c k' where k: "k = c # k'" using secret_key_hd[OF key] by (cases k) (auto simp: to_ascii_lowercase_def)
  have "ascii_lower c \<noteq> CHR ''b''" using secret_key_no_b[OF key] k by (auto simp: to_ascii_lowercase_def)
  then have 2: "match_bearer ?t = None" using match_bearer_not_b k by simp
  have 3: "match_key (Some sep) ?t SECRET_QUERY_KEYS = Some (to_ascii_lowercase k, rest)"
    using sep key v rest by (intro match_key_at) (auto simp: SECRET_QUERY_KEYS_def)
  have "redact_loop p rest = redact_loop None rest" for p
    using rest plain_value_end by (intro redact_loop_prev_irrelevant) auto
  with 2 3 have "redact_loop (Some sep) ?t = to_ascii_lowercase k @ ''=REDACTED'' @ redact_loop None rest"
    unfolding k by (simp add: redact_loop.simps(2))
  with 1 show ?thesis by simp
qed

lemma redact_loop_value_independent:
  assumes sep: "prev_ok (Some sep)" and key: "to_ascii_lowercase k \<in> set SECRET_QUERY_KEYS"
    and v: "\<forall>c \<in> set v1 \<union> set v2. \<not> value_end c" "\<forall>c \<in> set v1 \<union> set v2. \<not> bearer_end c"
    and rest: "rest = [] \<or> value_end (hd rest)"
  shows "redact_loop prev (a @ sep # (k @ ''='') @ v1 @ rest)
       = redact_loop prev (a @ sep # (k @ ''='') @ v2 @ rest)"
proof -
  have kc: "\<not> plain c" if "c \<in> set (k @ ''='')" for c
  proof (cases "c \<in> set k")
    case True
    then have "ascii_lower c \<in> set (to_ascii_lowercase k)" by (simp add: to_ascii_lowercase_def)
    then show ?thesis using secret_key_chars[OF key] plain_lower by (fastforce simp: plain_def)
  next
    case False
    with that show ?thesis by (simp add: plain_def)
  qed
  then have ends: "\<forall>c \<in> set (k @ ''=''). \<not> bearer_end c" "\<forall>c \<in> set (k @ ''=''). \<not> value_end c"
    using plain_bearer_end plain_value_end by blast+
  have hd_ws: "\<not> is_ascii_whitespace (hd (k @ ''=''))" using kc plain_ws by (metis hd_in_set append_is_Nil_conv list.distinct(1))
  show ?thesis
  proof (induction "length a" arbitrary: a prev rule: less_induct)
    case less
    let ?y1 = "sep # (k @ ''='') @ v1 @ rest" and ?y2 = "sep # (k @ ''='') @ v2 @ rest"
    have shorter: "redact_loop p (a' @ ?y1) = redact_loop p (a' @ ?y2)"
      if "a = b @ a'" "b \<noteq> []" for b a' p
      using that by (intro less) simp
    show ?case
    proof (cases a)
      case Nil
      then show ?thesis using redact_loop_at_key[OF sep key _ rest] v(1) by simp
    next
      case (Cons c a')
      have mb: "match_bearer (a @ ?y1) = None \<and> match_bearer (a @ ?y2) = None
        \<or> (\<exists>r1 r2. match_bearer (a @ ?y1) = Some r1 \<and> match_bearer (a @ ?y2) = Some r2 \<and> resume a ?y1 ?y2 r1 r2)"
        by (rule match_bearer_resume[OF plain_prev_ok[OF sep] _ hd_ws ends(1) v(2)]) simp
      have mk: "match_key prev (a @ ?y1) SECRET_QUERY_KEYS = None \<and> match_key prev (a @ ?y2) SECRET_QUERY_KEYS = None
        \<or> (\<exists>k r1 r2. match_key prev (a @ ?y1) SECRET_QUERY_KEYS = Some (k, r1)
            \<and> match_key prev (a @ ?y2) SECRET_QUERY_KEYS = Some (k, r2) \<and> resume a ?y1 ?y2 r1 r2)"
        by (rule match_key_resume[OF plain_prev_ok[OF sep] ends(2) v(1) order_refl])
      have u: "redact_loop prev (a @ y) =
        (case match_bearer (a @ y) of
           Some r \<Rightarrow> ''Bearer REDACTED'' @ redact_loop (byte_before (a @ y) r) r
         | None \<Rightarrow>
             (case match_key prev (a @ y) SECRET_QUERY_KEYS of
                Some (key, r) \<Rightarrow> key @ ''=REDACTED'' @ redact_loop (byte_before (a @ y) r) r
              | None \<Rightarrow> push_byte_as_char c @ redact_loop (Some c) (a' @ y)))" for y
        using redact_loop.simps(2)[of prev c "a' @ y"] by (simp only: Cons append_Cons[of c a' y])
      have lit: "redact_loop (Some c) (a' @ ?y1) = redact_loop (Some c) (a' @ ?y2)"
        using shorter[of "[c]" a'] Cons by simp
      have rs: "redact_loop (byte_before (a @ ?y1) r1) r1 = redact_loop (byte_before (a @ ?y2) r2) r2"
        if "resume a ?y1 ?y2 r1 r2" for r1 r2
        using that shorter by (rule redact_loop_resume)
      show ?thesis
        unfolding u using mb mk lit rs by auto
    qed
  qed
qed


section \<open>Idempotence on ASCII\<close>

lemma match_key_None_iff:
  "match_key prev s keys = None \<longleftrightarrow>
    \<not> prev_ok prev \<or> (\<forall>k \<in> set keys. consume_prefix_ci s (k @ ''='') = None)"
  by (induction keys) (auto split: option.splits)

lemma push_ascii [simp]: "is_ascii b \<Longrightarrow> push_byte_as_char b = [b]"
  by (simp add: push_byte_as_char_def is_ascii_def)

lemma redact_loop_head:
  assumes "\<not> prev_ok prev" "is_ascii x"
  shows "redact_loop prev (x # xs) = x # redact_loop (Some x) xs
    \<or> ascii_lower x = CHR ''b'' \<and> (\<exists>t. redact_loop prev (x # xs) = CHR ''B'' # t)"
proof (cases "match_bearer (x # xs)")
  case None
  with assms match_key_None_iff[of prev "x # xs"] show ?thesis by (simp add: redact_loop.simps(2))
next
  case (Some r)
  then have "ascii_lower x = CHR ''b''" using match_bearer_not_b[of "x # xs"] by auto
  with Some show ?thesis by (simp add: redact_loop.simps(2))
qed

lemma ascii_lower_B: "ascii_lower (CHR ''B'') = CHR ''b''"
  by code_simp

text \<open>A pattern found in the printed text, away from separators, was already in the message.\<close>

lemma consume_redact_loop:
  assumes "is_pattern p" "CHR ''b'' \<notin> set p" "\<not> prev_ok (Some c)" "list_all is_ascii s"
    and "consume_prefix_ci (redact_loop (Some c) s) p = Some r"
  shows "\<exists>s' c'. consume_prefix_ci s p = Some s' \<and> r = redact_loop (Some c') s' \<and> \<not> prev_ok (Some c')
    \<and> list_all is_ascii s'"
  using assms
proof (induction p arbitrary: s c)
  case Nil
  then show ?case by auto
next
  case (Cons d p)
  from Cons.prems(5) obtain x xs where s: "s = x # xs" by (cases s) auto
  have lit: "redact_loop (Some c) s = x # redact_loop (Some x) xs"
    using redact_loop_head[of "Some c" x xs] Cons.prems s ascii_lower_B by auto
  then have x: "ascii_lower x = d" and r: "consume_prefix_ci (redact_loop (Some x) xs) p = Some r"
    using Cons.prems by (auto split: if_splits)
  have "\<not> plain x" using x Cons.prems(1) plain_lower by auto
  then have "\<not> prev_ok (Some x)" using plain_prev_ok by blast
  with Cons.IH[of x xs] Cons.prems r s x show ?case by simp
qed

lemma redact_loop_plain_hd:
  assumes "s = [] \<or> plain (hd s)" "list_all is_ascii s"
  shows "redact_loop p s = [] \<and> s = [] \<or> redact_loop p s \<noteq> [] \<and> s \<noteq> [] \<and> hd (redact_loop p s) = hd s"
  using assms match_key_plain_hd[OF assms(1) order_refl] match_bearer_not_b[of s] plain_not_b[of "hd s"]
  by (cases s) (auto simp: redact_loop.simps(2))

lemma match_bearer_suffix: "match_bearer s = Some r \<Longrightarrow> \<exists>q. s = q @ r"
  unfolding match_bearer_def consume_prefix_ci_def Let_def
  by (auto split: option.splits if_splits)
    (metis append_take_drop_id append.assoc takeWhile_dropWhile_id)

lemma match_bearer_stop: "match_bearer s = Some r \<Longrightarrow> r = [] \<or> bearer_end (hd r)"
  using dropWhile_hd[of bearer_end "drop n t" for n t]
  unfolding match_bearer_def Let_def by (force split: option.splits if_splits)

lemma match_key_Some:
  assumes "match_key prev s keys = Some (k, r)"
  shows "k \<in> set keys \<and> prev_ok prev \<and> (r = [] \<or> value_end (hd r))
    \<and> consume_prefix_ci s (k @ ''='') \<noteq> None \<and> (\<exists>q. s = q @ r)"
  using assms
proof (induction keys)
  case (Cons k2 keys)
  show ?case
  proof (cases "prev_ok prev \<and> consume_prefix_ci s (k2 @ ''='') \<noteq> None")
    case True
    then obtain t where t: "consume_prefix_ci s (k2 @ ''='') = Some t" by auto
    then obtain q where q: "s = q @ t" by (rule consume_prefix_split) simp
    have "s = (q @ takeWhile (\<lambda>c. \<not> value_end c) t) @ dropWhile (\<lambda>c. \<not> value_end c) t"
      using q by simp
    then have "\<exists>q. s = q @ dropWhile (\<lambda>c. \<not> value_end c) t" by blast
    moreover have "k = k2" "r = dropWhile (\<lambda>c. \<not> value_end c) t" using Cons.prems True t by auto
    ultimately show ?thesis using True dropWhile_hd[of value_end t] by simp
  next
    case False
    with Cons show ?thesis by (auto split: option.splits)
  qed
qed simp

lemma redact_loop_Bearer:
  assumes "t = [] \<or> bearer_end (hd t)"
  shows "redact_loop q (''Bearer REDACTED'' @ t) = ''Bearer REDACTED'' @ redact_loop None t"
proof -
  have "consume_prefix_ci (''Bearer'' @ u) ''bearer'' = Some u" for u
    unfolding consume_prefix_ci_Some by (intro exI[of _ "''Bearer''"]) code_simp
  from this[of "'' REDACTED'' @ t"]
  have c: "consume_prefix_ci (''Bearer REDACTED'' @ t) ''bearer'' = Some ('' REDACTED'' @ t)" by simp
  have "takeWhile is_ascii_whitespace ('' REDACTED'' @ t) = '' ''"
    by (simp add: is_ascii_whitespace_def byte_val_def)
  moreover have "dropWhile (\<lambda>c. \<not> bearer_end c) (''REDACTED'' @ t) = t"
    using assms by (cases t) (auto simp: bearer_end_def is_ascii_whitespace_def byte_val_def)
  ultimately have m: "match_bearer (''Bearer REDACTED'' @ t) = Some t"
    unfolding match_bearer_def c by simp
  have "redact_loop p t = redact_loop None t" for p
    using assms plain_bearer_end by (intro redact_loop_prev_irrelevant) auto
  then show ?thesis using m by (simp add: redact_loop.simps(2))
qed

lemma redact_loop_key:
  assumes "k \<in> set SECRET_QUERY_KEYS" "prev_ok q" "t = [] \<or> value_end (hd t)"
  shows "redact_loop q (k @ ''=REDACTED'' @ t) = k @ ''=REDACTED'' @ redact_loop None t"
proof -
  let ?s = "k @ CHR ''='' # ''REDACTED'' @ t"
  have "match_key q ?s SECRET_QUERY_KEYS = Some (k, t)"
    using assms secret_key_lower[OF assms(1)]
    by (intro match_key_at) (auto simp: SECRET_QUERY_KEYS_def value_end_def)
  moreover obtain c k' where k: "k = c # k'" using secret_key_hd[OF assms(1)] by (cases k) auto
  moreover have "ascii_lower c \<noteq> CHR ''b''"
    using secret_key_no_b[OF assms(1)] secret_key_lower[OF assms(1)] k
    by (auto simp: to_ascii_lowercase_def)
  then have "match_bearer ?s = None" using match_bearer_not_b k by simp
  moreover have "redact_loop p t = redact_loop None t" for p
    using assms(3) plain_value_end by (intro redact_loop_prev_irrelevant) auto
  ultimately show ?thesis by (simp add: redact_loop.simps(2))
qed

lemma no_new_match:
  assumes "match_bearer (b # bs) = None" "match_key p (b # bs) SECRET_QUERY_KEYS = None"
    and "prev_ok p \<longleftrightarrow> prev_ok q" "list_all is_ascii (b # bs)"
  shows "match_bearer (b # redact_loop (Some b) bs) = None
    \<and> match_key q (b # redact_loop (Some b) bs) SECRET_QUERY_KEYS = None"
proof -
  have walk: "\<exists>s' c'. consume_prefix_ci (b # bs) (d # p) = Some s' \<and> r = redact_loop (Some c') s'
      \<and> \<not> prev_ok (Some c') \<and> list_all is_ascii s'"
    if "consume_prefix_ci (b # redact_loop (Some b) bs) (d # p) = Some r" "is_pattern (d # p)"
      "CHR ''b'' \<notin> set p" for d p r
  proof -
    have b: "ascii_lower b = d" "consume_prefix_ci (redact_loop (Some b) bs) p = Some r"
      using that by (auto split: if_splits)
    then have "\<not> plain b" using that plain_lower by (metis is_pattern_Cons)
    then have "\<not> prev_ok (Some b)" using plain_prev_ok by blast
    with consume_redact_loop[of p b bs r] b that assms(4) show ?thesis by simp
  qed
  have "match_bearer (b # redact_loop (Some b) bs) = None"
  proof (rule ccontr)
    assume "match_bearer (b # redact_loop (Some b) bs) \<noteq> None"
    then obtain r where r: "consume_prefix_ci (b # redact_loop (Some b) bs) ''bearer'' = Some r"
      and ws: "takeWhile is_ascii_whitespace r \<noteq> []"
      unfolding match_bearer_def Let_def by (auto split: option.splits if_splits)
    obtain s' c' where s': "consume_prefix_ci (b # bs) ''bearer'' = Some s'" "r = redact_loop (Some c') s'"
      "\<not> prev_ok (Some c')" "list_all is_ascii s'"
      using walk[OF r is_pattern_bearer] by auto
    then obtain x xs where x: "s' = x # xs" using ws by (cases s') auto
    have "is_ascii_whitespace x"
      using redact_loop_head[of "Some c'" x xs] s' x ws
      by (auto simp: is_ascii_whitespace_def byte_val_def split: if_splits)
    then have "match_bearer (b # bs) \<noteq> None"
      using s' x by (simp add: match_bearer_def)
    with assms(1) show False by simp
  qed
  moreover have "match_key q (b # redact_loop (Some b) bs) SECRET_QUERY_KEYS = None"
  proof (rule ccontr)
    assume "match_key q (b # redact_loop (Some b) bs) SECRET_QUERY_KEYS \<noteq> None"
    then obtain k r where k: "prev_ok q" "k \<in> set SECRET_QUERY_KEYS"
      "consume_prefix_ci (b # redact_loop (Some b) bs) (k @ ''='') = Some r"
      unfolding match_key_None_iff by auto
    obtain d k' where d: "k @ ''='' = d # k'" by (cases k) auto
    have "CHR ''b'' \<notin> set k'" using secret_key_no_b[OF k(2)] d by (cases k) auto
    then have "consume_prefix_ci (b # bs) (k @ ''='') \<noteq> None"
      using walk[of d k' r] k(3) is_pattern_key[OF k(2)] unfolding d by blast
    moreover have "prev_ok p" using assms(3) k(1) by simp
    ultimately have "match_key p (b # bs) SECRET_QUERY_KEYS \<noteq> None"
      using k(2) match_key_None_iff[of p "b # bs" SECRET_QUERY_KEYS] by metis
    with assms(2) show False by simp
  qed
  ultimately show ?thesis ..
qed

lemma redact_loop_idem:
  assumes "list_all is_ascii s" "(prev_ok p \<longleftrightarrow> prev_ok q) \<or> s = [] \<or> plain (hd s)"
  shows "redact_loop q (redact_loop p s) = redact_loop p s"
  using assms
proof (induction p s arbitrary: q rule: redact_loop.induct)
  case (2 p b bs)
  let ?s = "b # bs"
  show ?case
  proof (cases "match_bearer ?s")
    case (Some r)
    let ?p = "byte_before ?s r"
    have "list_all is_ascii r"
      using match_bearer_suffix[OF Some] "2.prems"(1) by (metis list_all_append)
    then have r: "r = [] \<or> plain (hd r)" "list_all is_ascii r" "r = [] \<or> bearer_end (hd r)"
      using match_bearer_stop[OF Some] plain_bearer_end by auto
    have "redact_loop None (redact_loop ?p r) = redact_loop ?p r"
      using r by (intro "2.IH"(3)[OF Some]) auto
    moreover have "redact_loop ?p r = [] \<or> bearer_end (hd (redact_loop ?p r))"
      using redact_loop_plain_hd[OF r(1,2)] r(3) by metis
    ultimately show ?thesis
      using Some redact_loop_Bearer[of "redact_loop ?p r" q] by (simp add: redact_loop.simps(2)[of p])
  next
    case None
    note nb = None
    show ?thesis
    proof (cases "match_key p ?s SECRET_QUERY_KEYS")
      case (Some kr)
      then obtain k r where k: "match_key p ?s SECRET_QUERY_KEYS = Some (k, r)" by (cases kr) auto
      note mk = match_key_Some[OF k]
      let ?p = "byte_before ?s r"
      have "\<not> plain b" using k match_key_plain_hd[of ?s SECRET_QUERY_KEYS p] by auto
      then have q: "prev_ok q" using mk "2.prems" by auto
      have "list_all is_ascii r" using mk "2.prems"(1) by (metis list_all_append)
      then have r: "r = [] \<or> plain (hd r)" "list_all is_ascii r"
        using mk plain_value_end by auto
      have "redact_loop None (redact_loop ?p r) = redact_loop ?p r"
        using r k by (intro "2.IH"(2)[OF nb k refl]) auto
      moreover have "redact_loop ?p r = [] \<or> value_end (hd (redact_loop ?p r))"
        using redact_loop_plain_hd[OF r] mk by metis
      ultimately show ?thesis
        using redact_loop_key[of k q "redact_loop ?p r"] mk q k nb
        by (simp add: redact_loop.simps(2)[of p])
    next
      case None
      have a: "is_ascii b" "list_all is_ascii bs" using "2.prems" by auto
      have "match_bearer (b # redact_loop (Some b) bs) = None
          \<and> match_key q (b # redact_loop (Some b) bs) SECRET_QUERY_KEYS = None"
      proof (cases "plain b")
        case True
        then show ?thesis
          using match_key_plain_hd[of "b # redact_loop (Some b) bs" SECRET_QUERY_KEYS q]
            match_bearer_not_b[of "b # redact_loop (Some b) bs"] plain_not_b by simp
      next
        case False
        then show ?thesis using no_new_match[OF nb None _ "2.prems"(1)] "2.prems"(2) by simp
      qed
      moreover have "redact_loop (Some b) (redact_loop (Some b) bs) = redact_loop (Some b) bs"
        using a by (intro "2.IH"(1)[OF nb None]) auto
      ultimately show ?thesis using nb None a by (simp add: redact_loop.simps(2))
    qed
  qed
qed simp

section \<open>Properties\<close>

text \<open>C22: the redacted message does not depend on the value of a secret query
  parameter.  Wherever a key of \<^const>\<open>SECRET_QUERY_KEYS\<close>, in any case, follows a
  separator byte, two messages that differ in its value only (up to the byte that ends
  the value) are redacted to the same text, whatever precedes and follows.\<close>

theorem redact_hides_value:
  assumes "prev_ok (Some sep)" "to_ascii_lowercase k \<in> set SECRET_QUERY_KEYS"
    and "\<forall>c \<in> set v1 \<union> set v2. \<not> value_end c \<and> \<not> bearer_end c"
    and "rest = [] \<or> value_end (hd rest)"
  shows "redact (a @ [sep] @ k @ ''='' @ v1 @ rest) = redact (a @ [sep] @ k @ ''='' @ v2 @ rest)"
proof -
  have "contains_str (to_ascii_lowercase (a @ [sep] @ k @ ''='' @ v @ rest)) (to_ascii_lowercase k @ ''='')"
    for v
    unfolding contains_str_iff
    by (intro exI[of _ "to_ascii_lowercase (a @ [sep])"] exI[of _ "to_ascii_lowercase (v @ rest)"])
      (simp add: to_ascii_lowercase_def ascii_lower_def byte_val_def)
  then have "list_ex (\<lambda>q. contains_str (to_ascii_lowercase (a @ [sep] @ k @ ''='' @ v @ rest)) (q @ ''=''))
      SECRET_QUERY_KEYS" for v
    using assms(2) by (auto simp: list_ex_iff)
  then have "redact (a @ [sep] @ k @ ''='' @ v @ rest)
      = redact_loop None (a @ [sep] @ k @ ''='' @ v @ rest)" for v
    unfolding redact_def Let_def by simp
  then show ?thesis
    using redact_loop_value_independent[OF assms(1,2), of v1 v2 rest None a] assms(3,4) by simp
qed

theorem redact_hides_value_witness:
  "redact (''https://a/c'' @ [CHR ''?''] @ ''SIG'' @ ''='' @ ''abc'' @ ''&se=1'')
    = redact (''https://a/c'' @ [CHR ''?''] @ ''SIG'' @ ''='' @ ''zz9'' @ ''&se=1'')"
  by (rule redact_hides_value)
    (simp_all add: SECRET_QUERY_KEYS_def to_ascii_lowercase_def ascii_lower_def value_end_def
      bearer_end_def is_ascii_whitespace_def byte_val_def, code_simp)

text \<open>C40: redaction is idempotent on ASCII messages: redacting at the point where the
  error is built and again at the \<^verbatim>\<open>raise\<close> boundary prints the same text.\<close>

theorem redact_idempotent:
  assumes "list_all is_ascii msg"
  shows "redact (redact msg) = redact msg"
  using redact_loop_idem[of msg None None] assms by (simp add: redact_def Let_def)

theorem redact_idempotent_witness:
  "redact (redact ''Bearer  ey.x, sig=1'') = redact ''Bearer  ey.x, sig=1''"
  by (rule redact_idempotent) code_simp

text \<open>Outside ASCII the doc comment's claim of idempotence fails: once a secret
  puts the message on the slow path, every byte of a multi-byte character is pushed as a
  character of its own, so each pass re-encodes it (here the two bytes of e-acute).\<close>

theorem redact_not_idempotent_non_ascii:
  "redact (redact (''sig=x '' @ [CHR 0xC3, CHR 0xA9])) \<noteq> redact (''sig=x '' @ [CHR 0xC3, CHR 0xA9])"
  by code_simp

end
