(* ===== verification/Fdw_Error.thy ===== *)
theory Fdw_Error
  imports Redact
begin

text \<open>
  The error type of the extension, \<^verbatim>\<open>src/error.rs\<close>: the constructors, their
  \<^verbatim>\<open>Display\<close> text, the redacting constructors \<^verbatim>\<open>azure\<close> and \<^verbatim>\<open>azure_ctx\<close>, and the
  report that \<^verbatim>\<open>raise\<close> hands to PostgreSQL.  The errors of the parquet, arrow and
  I/O libraries are represented by the text their \<^verbatim>\<open>Display\<close> prints.
\<close>

datatype fdw_error =
    InvalidOption string
  | MissingOption string
  | Azure string
  | Parquet string
  | Arrow string
  | Io string
  | UnsupportedType string string
  | SchemaMismatch string
  | ConcurrentUpdate string string
  | Panic string

text \<open>\<open>Panic\<close> is no constructor of the source: it stands for a Rust panic (an index out of
  range, an \<^verbatim>\<open>unwrap\<close> of nothing), which pgrx's guard reports as an ERROR.\<close>

type_synonym 'a fdw_result = "fdw_error + 'a"

fun error_to_string :: "fdw_error \<Rightarrow> string" where
  "error_to_string (InvalidOption m) = ''invalid option: '' @ m"
| "error_to_string (MissingOption m) = ''missing required option: '' @ m"
| "error_to_string (Azure m) = ''azure storage error: '' @ m"
| "error_to_string (Parquet m) = ''parquet error: '' @ m"
| "error_to_string (Arrow m) = ''arrow error: '' @ m"
| "error_to_string (Io m) = ''io error: '' @ m"
| "error_to_string (UnsupportedType p a) =
    ''unsupported type mapping: pg '' @ p @ '' '' @ [CHR 0xE2, CHR 0x86, CHR 0x94] @ '' arrow '' @ a"
| "error_to_string (SchemaMismatch m) = ''schema mismatch: '' @ m"
| "error_to_string (ConcurrentUpdate b r) = ''concurrent update on blob '' @ b @ '': '' @ r"
| "error_to_string (Panic m) = m"

definition azure_error :: "string \<Rightarrow> fdw_error" where
  "azure_error e = Azure (redact e)"

definition azure_ctx :: "string \<Rightarrow> string \<Rightarrow> fdw_error" where
  "azure_ctx ctx e = Azure (redact (ctx @ '': '' @ e))"

datatype sql_state = ERRCODE_T_R_SERIALIZATION_FAILURE | ERRCODE_INTERNAL_ERROR

text \<open>\<^verbatim>\<open>raise\<close> diverges; its result here is the report: the SQLSTATE and the text.\<close>

definition raise_report :: "fdw_error \<Rightarrow> sql_state \<times> string" where
  "raise_report e =
    (let msg = redact (error_to_string e)
     in (case e of
           ConcurrentUpdate b r \<Rightarrow> (ERRCODE_T_R_SERIALIZATION_FAILURE, msg)
         | _ \<Rightarrow> (ERRCODE_INTERNAL_ERROR, msg)))"

section \<open>Properties\<close>

lemma raise_serialization_iff:
  "fst (raise_report e) = ERRCODE_T_R_SERIALIZATION_FAILURE \<longleftrightarrow> (\<exists>b r. e = ConcurrentUpdate b r)"
  by (cases e) (simp_all add: raise_report_def Let_def)

lemma raise_message: "snd (raise_report e) = redact (error_to_string e)"
  by (cases e) (simp_all add: raise_report_def Let_def)

end
