(* ===== verification/Net_Addr.thy ===== *)
theory Net_Addr
  imports Prelude
begin

text \<open>
  The part of the Rust standard library's \<^verbatim>\<open>std::net\<close> that \<^verbatim>\<open>is_private_or_link_local\<close>
  in \<^verbatim>\<open>src/fdw/options.rs\<close> uses: \<^verbatim>\<open>str::parse::<IpAddr>\<close>, a recursive-descent parser over
  the remaining text, and the address predicates.  The lemma of interest is that the
  dotted-quad text of four octets is read back as those octets.
\<close>

datatype ip_addr = V4 nat nat nat nat | V6 "nat list"

definition to_digit :: "nat \<Rightarrow> char \<Rightarrow> nat option" where
  "to_digit radix c =
    (let b = byte_val c;
         d = (if 48 \<le> b \<and> b \<le> 57 then b - 48
              else if 97 \<le> b \<and> b \<le> 122 then b - 87
              else if 65 \<le> b \<and> b \<le> 90 then b - 55 else 99)
     in if d < radix then Some d else None)"

text \<open>The digit loop: accumulated value, digits read, rest of the input; nothing when more
  than \<open>max_digits\<close> digits follow.\<close>

fun read_digits :: "nat \<Rightarrow> nat \<Rightarrow> nat \<Rightarrow> nat \<Rightarrow> string \<Rightarrow> (nat \<times> nat \<times> string) option" where
  "read_digits radix max_digits acc n [] = Some (acc, n, [])"
| "read_digits radix max_digits acc n (c # cs) =
    (case to_digit radix c of
       None \<Rightarrow> Some (acc, n, c # cs)
     | Some d \<Rightarrow> if n + 1 > max_digits then None
                 else read_digits radix max_digits (acc * radix + d) (n + 1) cs)"

definition read_number :: "nat \<Rightarrow> nat \<Rightarrow> bool \<Rightarrow> nat \<Rightarrow> string \<Rightarrow> (nat \<times> string) option" where
  "read_number radix max_digits allow_zero_prefix type_max s =
    (case read_digits radix max_digits 0 0 s of
       None \<Rightarrow> None
     | Some (v, n, rest) \<Rightarrow>
         if n = 0 then None
         else if \<not> allow_zero_prefix \<and> take 1 s = ''0'' \<and> n > 1 then None
         else if v > type_max then None
         else Some (v, rest))"

fun read_given_char :: "char \<Rightarrow> string \<Rightarrow> string option" where
  "read_given_char c [] = None"
| "read_given_char c (x # xs) = (if x = c then Some xs else None)"

definition read_separator :: "char \<Rightarrow> nat \<Rightarrow> (string \<Rightarrow> ('a \<times> string) option) \<Rightarrow> string \<Rightarrow> ('a \<times> string) option" where
  "read_separator sep index inner s =
    (if index > 0 then (case read_given_char sep s of None \<Rightarrow> None | Some rest \<Rightarrow> inner rest)
     else inner s)"

definition read_octet :: "nat \<Rightarrow> string \<Rightarrow> (nat \<times> string) option" where
  "read_octet i = read_separator CHR ''.'' i (read_number 10 3 False 255)"

definition read_ipv4_addr :: "string \<Rightarrow> ((nat \<times> nat \<times> nat \<times> nat) \<times> string) option" where
  "read_ipv4_addr s =
    (case read_octet 0 s of None \<Rightarrow> None | Some (a, s1) \<Rightarrow>
    (case read_octet 1 s1 of None \<Rightarrow> None | Some (b, s2) \<Rightarrow>
    (case read_octet 2 s2 of None \<Rightarrow> None | Some (c, s3) \<Rightarrow>
    (case read_octet 3 s3 of None \<Rightarrow> None | Some (d, s4) \<Rightarrow> Some ((a, b, c, d), s4)))))"

text \<open>\<open>read_groups limit i acc s\<close> reads the groups from index \<open>i\<close>; the result is the groups
  read, whether they end in an embedded IPv4 address, and the rest of the input.\<close>

function read_groups :: "nat \<Rightarrow> nat \<Rightarrow> nat list \<Rightarrow> string \<Rightarrow> nat list \<times> bool \<times> string" where
  "read_groups limit i acc s =
    (if i \<ge> limit then (acc, False, s)
     else
      (case (if i < limit - 1 then read_separator CHR '':'' i read_ipv4_addr s else None) of
         Some ((a, b, c, d), rest) \<Rightarrow> (acc @ [a * 256 + b, c * 256 + d], True, rest)
       | None \<Rightarrow>
          (case read_separator CHR '':'' i (read_number 16 4 True 65535) s of
             Some (g, rest) \<Rightarrow> read_groups limit (i + 1) (acc @ [g]) rest
           | None \<Rightarrow> (acc, False, s))))"
  by pat_completeness auto
termination by (relation "measure (\<lambda>(limit, i, acc, s). limit - i)") auto

declare read_groups.simps [simp del]

definition read_ipv6_addr :: "string \<Rightarrow> (nat list \<times> string) option" where
  "read_ipv6_addr s =
    (case read_groups 8 0 [] s of
       (head, head_ipv4, s1) \<Rightarrow>
         if length head = 8 then Some (head, s1)
         else if head_ipv4 then None
         else (case read_given_char CHR '':'' s1 of None \<Rightarrow> None | Some s2 \<Rightarrow>
              (case read_given_char CHR '':'' s2 of None \<Rightarrow> None | Some s3 \<Rightarrow>
              (case read_groups (8 - (length head + 1)) 0 [] s3 of
                 (tail, _, s4) \<Rightarrow>
                   Some (head @ replicate (8 - length head - length tail) 0 @ tail, s4)))))"

definition parse_ip_addr :: "string \<Rightarrow> ip_addr option" where
  "parse_ip_addr s =
    (case (case read_ipv4_addr s of
             Some ((a, b, c, d), rest) \<Rightarrow> Some (V4 a b c d, rest)
           | None \<Rightarrow> map_option (\<lambda>(gs, rest). (V6 gs, rest)) (read_ipv6_addr s)) of
       Some (ip, []) \<Rightarrow> Some ip
     | _ \<Rightarrow> None)"

section \<open>Dotted quads are read back\<close>

definition ipv4_text :: "nat \<Rightarrow> nat \<Rightarrow> nat \<Rightarrow> nat \<Rightarrow> string" where
  "ipv4_text a b c d = show_nat a @ ''.'' @ show_nat b @ ''.'' @ show_nat c @ ''.'' @ show_nat d"

definition stops :: "string \<Rightarrow> bool" where
  "stops s \<longleftrightarrow> (case s of [] \<Rightarrow> True | c # _ \<Rightarrow> to_digit 10 c = None)"

lemma to_digit_digit_char: "d < 10 \<Longrightarrow> to_digit 10 (digit_char d) = Some d"
  by (simp add: to_digit_def Let_def)

lemma read_digits_stops: "stops s \<Longrightarrow> read_digits 10 m acc n s = Some (acc, n, s)"
  by (cases s) (auto simp: stops_def)

lemma show_octet_cases:
  assumes "n < 256"
  obtains a where "n = a" "a < 10" "show_nat n = [digit_char a]"
  | a b where "n = a * 10 + b" "1 \<le> a" "a < 10" "b < 10" "show_nat n = [digit_char a, digit_char b]"
  | a b c where "n = a * 100 + b * 10 + c" "1 \<le> a" "a < 10" "b < 10" "c < 10"
      "show_nat n = [digit_char a, digit_char b, digit_char c]"
proof -
  consider "n < 10" | "10 \<le> n" "n < 100" | "100 \<le> n" by linarith
  then show thesis
  proof cases
    case 1
    then show ?thesis using that(1) by (simp add: show_nat.simps)
  next
    case 2
    have "show_nat n = [digit_char (n div 10), digit_char (n mod 10)]"
      using 2 by (subst show_nat.simps, subst show_nat.simps) auto
    then show ?thesis using that(2)[of "n div 10" "n mod 10"] 2 by auto
  next
    case 3
    have d: "n div 10 div 10 = n div 100" by (simp add: div_mult2_eq[symmetric])
    have s: "show_nat (n div 10) = [digit_char (n div 100), digit_char (n div 10 mod 10)]"
      using 3 assms d by (subst show_nat.simps, subst show_nat.simps) auto
    have "show_nat n = [digit_char (n div 100), digit_char (n div 10 mod 10), digit_char (n mod 10)]"
      using 3 s by (subst show_nat.simps) simp
    moreover have "n = (n div 100) * 100 + (n div 10 mod 10) * 10 + n mod 10"
      using d div_mult_mod_eq[of n 10] div_mult_mod_eq[of "n div 10" 10] by linarith
    ultimately show ?thesis using that(3)[of "n div 100" "n div 10 mod 10" "n mod 10"] 3 assms by auto
  qed
qed

lemma digit_char_zero: "digit_char a = CHR ''0'' \<longleftrightarrow> a = 0" if "a < 10" for a
proof
  assume "digit_char a = CHR ''0''"
  then have "byte_val (digit_char a) = byte_val (CHR ''0'')" by simp
  moreover have "byte_val (CHR ''0'') = 48" by (simp add: byte_val_def)
  ultimately show "a = 0" using that by simp
next
  assume "a = 0"
  then have "byte_val (digit_char a) = byte_val (CHR ''0'')" by (simp add: byte_val_def digit_char_def)
  then show "digit_char a = CHR ''0''" by simp
qed

lemma read_number_show:
  assumes "n < 256" "stops s"
  shows "read_number 10 3 False 255 (show_nat n @ s) = Some (n, s)"
  using assms(1)
proof (cases rule: show_octet_cases)
  case (1 a)
  then show ?thesis using assms by (simp add: read_number_def to_digit_digit_char read_digits_stops)
next
  case (2 a b)
  then show ?thesis using assms
    by (simp add: read_number_def to_digit_digit_char read_digits_stops digit_char_zero)
next
  case (3 a b c)
  then show ?thesis using assms
    by (simp add: read_number_def to_digit_digit_char read_digits_stops digit_char_zero algebra_simps)
qed

lemma parse_ipv4_text:
  assumes "a < 256" "b < 256" "c < 256" "d < 256"
  shows "parse_ip_addr (ipv4_text a b c d) = Some (V4 a b c d)"
proof -
  have st: "stops (CHR ''.'' # x)" "stops []" for x
    by (simp_all add: stops_def to_digit_def byte_val_def)
  have "read_ipv4_addr (ipv4_text a b c d) = Some ((a, b, c, d), [])"
    using assms read_number_show[OF _ st(1)] read_number_show[OF _ st(2), of d]
    by (simp add: read_ipv4_addr_def read_octet_def read_separator_def ipv4_text_def)
  then show ?thesis by (simp add: parse_ip_addr_def)
qed

section \<open>Address predicates\<close>

fun v4_is_loopback :: "ip_addr \<Rightarrow> bool" where
  "v4_is_loopback (V4 a b c d) \<longleftrightarrow> a = 127"
| "v4_is_loopback (V6 g) \<longleftrightarrow> False"

fun v4_is_link_local :: "ip_addr \<Rightarrow> bool" where
  "v4_is_link_local (V4 a b c d) \<longleftrightarrow> a = 169 \<and> b = 254"
| "v4_is_link_local (V6 g) \<longleftrightarrow> False"

fun v4_is_private :: "ip_addr \<Rightarrow> bool" where
  "v4_is_private (V4 a b c d) \<longleftrightarrow>
    a = 10 \<or> (a = 172 \<and> 16 \<le> b \<and> b \<le> 31) \<or> (a = 192 \<and> b = 168)"
| "v4_is_private (V6 g) \<longleftrightarrow> False"

fun v4_is_unspecified :: "ip_addr \<Rightarrow> bool" where
  "v4_is_unspecified ip \<longleftrightarrow> ip = V4 0 0 0 0"

fun v4_is_broadcast :: "ip_addr \<Rightarrow> bool" where
  "v4_is_broadcast ip \<longleftrightarrow> ip = V4 255 255 255 255"

fun v4_is_multicast :: "ip_addr \<Rightarrow> bool" where
  "v4_is_multicast (V4 a b c d) \<longleftrightarrow> 224 \<le> a \<and> a \<le> 239"
| "v4_is_multicast (V6 g) \<longleftrightarrow> False"

definition v6_is_loopback :: "nat list \<Rightarrow> bool" where
  "v6_is_loopback g \<longleftrightarrow> g = [0, 0, 0, 0, 0, 0, 0, 1]"

definition v6_is_unspecified :: "nat list \<Rightarrow> bool" where
  "v6_is_unspecified g \<longleftrightarrow> g = [0, 0, 0, 0, 0, 0, 0, 0]"

end
