(* ===== verification/Auth.thy ===== *)
theory Auth
  imports Fdw_Error
begin

text \<open>
  \<^verbatim>\<open>src/azure/auth.rs\<close>: the authentication methods and the choice of the credential, and
  the codec names of \<^verbatim>\<open>src/parquet_io/writer.rs\<close>, which the table options parse.  The SDK's
  credential constructors and the process environment are parameters of
  \<open>build_credential\<close>.
\<close>

datatype auth_method = ManagedIdentity | AadServicePrincipal | SasUrl

definition parse_auth_method :: "string \<Rightarrow> auth_method fdw_result" where
  "parse_auth_method s =
    (if s = ''managed_identity'' then Ok ManagedIdentity
     else if s = ''aad_sp'' then Ok AadServicePrincipal
     else if s = ''sas_url'' then Ok SasUrl
     else if s = ''account_key'' then Err (InvalidOption
       (''auth_method='' @ quoted ''account_key'' @ '' is not supported by azure_storage_blob 1.0; ''
        @ ''generate a container SAS client-side and use auth_method='' @ quoted ''sas_url''))
     else Err (InvalidOption (''auth_method='' @ quoted s)))"

datatype 'tok credential = Token 'tok | SasUrlCredential string

text \<open>\<open>managed_identity\<close> and \<open>client_secret\<close> are \<^verbatim>\<open>ManagedIdentityCredential::new\<close> and
  \<^verbatim>\<open>ClientSecretCredential::new\<close>, with their error text on the left; \<open>env\<close> is
  \<^verbatim>\<open>std::env::var\<close>.\<close>

definition build_credential ::
  "string + 'tok \<Rightarrow> (string \<Rightarrow> string \<Rightarrow> string \<Rightarrow> string + 'tok) \<Rightarrow> (string \<Rightarrow> string option)
    \<Rightarrow> auth_method \<Rightarrow> string option \<Rightarrow> 'tok credential fdw_result" where
  "build_credential managed_identity client_secret env method sas_url =
    (case method of
       ManagedIdentity \<Rightarrow>
         (case managed_identity of Inl e \<Rightarrow> Err (azure_error e) | Inr c \<Rightarrow> Ok (Token c))
     | AadServicePrincipal \<Rightarrow>
         and_then (ok_or (env ''AZURE_TENANT_ID'') (MissingOption ''AZURE_TENANT_ID'')) (\<lambda>tenant_id.
         and_then (ok_or (env ''AZURE_CLIENT_ID'') (MissingOption ''AZURE_CLIENT_ID'')) (\<lambda>client_id.
         and_then (ok_or (env ''AZURE_CLIENT_SECRET'') (MissingOption ''AZURE_CLIENT_SECRET'')) (\<lambda>secret.
         (case client_secret tenant_id client_id secret of
            Inl e \<Rightarrow> Err (azure_error e) | Inr c \<Rightarrow> Ok (Token c)))))
     | SasUrl \<Rightarrow> and_then (ok_or sas_url (MissingOption ''sas_url'')) (\<lambda>url. Ok (SasUrlCredential url)))"

section \<open>Codecs\<close>

datatype compression = NoCompression | Snappy | Zstd | Gzip

definition compression_parse :: "string \<Rightarrow> compression fdw_result" where
  "compression_parse s =
    (let l = to_ascii_lowercase s in
     if l = ''none'' \<or> l = '''' then Ok NoCompression
     else if l = ''snappy'' then Ok Snappy
     else if l = ''zstd'' then Ok Zstd
     else if l = ''gzip'' then Ok Gzip
     else Err (InvalidOption (''compression='' @ quoted l)))"

text \<open>The parquet crate's codecs; the level of a codec is a number.\<close>

datatype pq_compression = UNCOMPRESSED | SNAPPY | GZIP nat | LZO | BROTLI nat | LZ4 | ZSTD nat | LZ4_RAW

text \<open>\<open>gzip_default\<close> and \<open>zstd_default\<close> are the crate's default levels.\<close>

fun to_pq :: "nat \<Rightarrow> nat \<Rightarrow> compression \<Rightarrow> pq_compression" where
  "to_pq gzip_default zstd_default NoCompression = UNCOMPRESSED"
| "to_pq gzip_default zstd_default Snappy = SNAPPY"
| "to_pq gzip_default zstd_default Zstd = ZSTD zstd_default"
| "to_pq gzip_default zstd_default Gzip = GZIP gzip_default"

fun from_parquet :: "pq_compression \<Rightarrow> compression" where
  "from_parquet UNCOMPRESSED = NoCompression"
| "from_parquet SNAPPY = Snappy"
| "from_parquet (GZIP l) = Gzip"
| "from_parquet (ZSTD l) = Zstd"
| "from_parquet _ = NoCompression"

lemma from_parquet_to_pq [simp]: "from_parquet (to_pq g z c) = c"
  by (cases c) auto

text \<open>A rewrite keeps the codec of the source blob for every codec an INSERT can choose.\<close>

lemma to_pq_from_parquet: "(\<exists>c. p = to_pq g z c) \<Longrightarrow> to_pq g z (from_parquet p) = p"
  by auto

text \<open>A SAS credential is built exactly from the user mapping's URL.\<close>

lemma build_credential_sas:
  "build_credential mi cs env SasUrl url = Ok c \<longleftrightarrow> (\<exists>u. url = Some u \<and> c = SasUrlCredential u)"
  by (cases url) (auto simp: build_credential_def)

lemma build_credential_token:
  "build_credential mi cs env m url = Ok (SasUrlCredential u) \<Longrightarrow> m = SasUrl"
  by (cases m) (auto simp: build_credential_def result_simps split: sum.splits, metis sum.exhaust)

end
