(* ===== verification/Options.thy ===== *)
theory Options
  imports Net_Addr Auth
begin

text \<open>
  \<^verbatim>\<open>src/fdw/options.rs\<close>: the parsers and validators of the SERVER, USER MAPPING and
  FOREIGN TABLE options and the SQL validator that dispatches to them.  \<^verbatim>\<open>url::Url::parse\<close>
  is a parameter: it returns its error text or the scheme and the host.  The OIDs of the
  PostgreSQL catalogs are a parameter of \<open>validate\<close>.

  The properties say what an accepted option list guarantees to the rest of the extension:
  the well-formedness of the parsed records, and that credentials only go to Azure or to the
  loopback host.
\<close>

unbundle bit_operations_syntax

section \<open>Partition types and single-value validators\<close>

datatype pg_partition_type = Int2 | Int4 | Int8 | Text | Date

definition partition_type_parse :: "string \<Rightarrow> pg_partition_type fdw_result" where
  "partition_type_parse s =
    (let l = to_ascii_lowercase s in
     if l = ''int2'' \<or> l = ''smallint'' then Ok Int2
     else if l = ''int4'' \<or> l = ''integer'' \<or> l = ''int'' then Ok Int4
     else if l = ''int8'' \<or> l = ''bigint'' then Ok Int8
     else if l = ''text'' then Ok Text
     else if l = ''date'' then Ok Date
     else Err (InvalidOption (''partition_keys: type '' @ quoted l
       @ '' not supported in v1 (supported: int2, int4, int8, text, date)'')))"

definition DEFAULT_ENDPOINT :: string where
  "DEFAULT_ENDPOINT = ''blob.core.windows.net''"

definition ALLOWED_ENDPOINT_SUFFIXES :: "string list" where
  "ALLOWED_ENDPOINT_SUFFIXES =
    [''blob.core.windows.net'', ''dfs.core.windows.net'',
     ''blob.core.chinacloudapi.cn'', ''dfs.core.chinacloudapi.cn'',
     ''blob.core.usgovcloudapi.net'', ''dfs.core.usgovcloudapi.net'',
     ''blob.core.cloudapi.de'', ''dfs.core.cloudapi.de'',
     ''127.0.0.1:10000'', ''localhost:10000'']"

definition validate_account_name :: "string \<Rightarrow> unit fdw_result" where
  "validate_account_name name =
    (if \<not> (3 \<le> length name \<and> length name \<le> 24)
        \<or> \<not> list_all (\<lambda>c. is_ascii_lowercase c \<or> is_ascii_digit c) name
     then Err (InvalidOption
       (''account_name must be 3-24 lowercase alphanumeric characters (got '' @ quoted name @ '')''))
     else Ok ())"

definition validate_container_name :: "string \<Rightarrow> unit fdw_result" where
  "validate_container_name name =
    (if 3 \<le> length name \<and> length name \<le> 63
        \<and> list_all (\<lambda>c. is_ascii_lowercase c \<or> is_ascii_digit c \<or> c = CHR ''-'') name
        \<and> \<not> starts_with name ''-'' \<and> \<not> ends_with name ''-'' \<and> \<not> contains_str name ''--''
     then Ok ()
     else Err (InvalidOption
       (''container must be 3-63 chars of [a-z0-9-], no leading/trailing or doubled '' @ quoted ''-''
        @ '' (got '' @ quoted name @ '')'')))"

definition validate_blob_pattern :: "string \<Rightarrow> string \<Rightarrow> unit fdw_result" where
  "validate_blob_pattern pattern field_name =
    (if pattern = [] then Err (InvalidOption (field_name @ '' is empty''))
     else if starts_with pattern ''/'' then Err (InvalidOption
       (field_name @ '' must be a blob name within the container, not an absolute path''))
     else if list_ex (\<lambda>seg. seg = ''..'') (split_on CHR ''/'' pattern) then Err (InvalidOption
       (field_name @ '' must not contain '' @ quoted ''..'' @ '' path segments''))
     else Ok ())"

definition validate_endpoint :: "string \<Rightarrow> unit fdw_result" where
  "validate_endpoint endpoint =
    (if CHR ''/'' \<in> set endpoint \<or> CHR ''@'' \<in> set endpoint \<or> CHR ''?'' \<in> set endpoint
     then Err (InvalidOption
       (''endpoint must be a bare host(:port), not a URL (got '' @ quoted endpoint @ '')''))
     else if \<not> list_ex (\<lambda>allowed. eq_ignore_ascii_case endpoint allowed) ALLOWED_ENDPOINT_SUFFIXES
     then Err (InvalidOption (''endpoint '' @ quoted endpoint
       @ '' is not in the allowlist of known Azure cloud suffixes''))
     else Ok ())"

text \<open>\<^verbatim>\<open>Ipv6Addr::is_multicast\<close> is the first mask of the IPv6 arm.\<close>

definition is_private_or_link_local :: "string \<Rightarrow> bool" where
  "is_private_or_link_local host =
    (case parse_ip_addr host of
       None \<Rightarrow> False
     | Some (V4 a b c d) \<Rightarrow>
         (let v4 = V4 a b c d in
          v4_is_loopback v4 \<or> v4_is_link_local v4 \<or> v4_is_private v4 \<or> v4_is_unspecified v4
          \<or> v4_is_broadcast v4 \<or> v4_is_multicast v4
          \<or> (a = 100 \<and> 64 \<le> b \<and> b < 128))
     | Some (V6 g) \<Rightarrow>
         v6_is_loopback g \<or> v6_is_unspecified g
         \<or> (hd g AND 0xff00 = 0xff00)
         \<or> (hd g AND 0xffc0 = 0xfe80)
         \<or> (hd g AND 0xfe00 = 0xfc00))"

definition is_loopback_host :: "string \<Rightarrow> bool" where
  "is_loopback_host host \<longleftrightarrow> host = ''127.0.0.1'' \<or> host = ''::1'' \<or> host = ''localhost''"

text \<open>A suffix without its \<^verbatim>\<open>:port\<close>.\<close>

definition bare_suffix :: "string \<Rightarrow> string" where
  "bare_suffix sfx = hd (split_on CHR '':'' (to_ascii_lowercase sfx))"

definition em_dash :: string where
  "em_dash = [CHR 0xE2, CHR 0x80, CHR 0x94]"

definition validate_sas_url :: "(string \<Rightarrow> string + (string \<times> string option)) \<Rightarrow> string \<Rightarrow> unit fdw_result" where
  "validate_sas_url url_parse sas =
    (case url_parse sas of
       Inl e \<Rightarrow> Err (InvalidOption (''sas_url is not a valid URL: '' @ e))
     | Inr (scheme, host_str) \<Rightarrow>
       and_then (ok_or host_str (InvalidOption ''sas_url has no host'')) (\<lambda>h.
       let host = to_ascii_lowercase h; is_loopback = is_loopback_host host in
       if scheme \<noteq> ''https'' \<and> \<not> (scheme = ''http'' \<and> is_loopback)
       then Err (InvalidOption (''sas_url must use https (got scheme '' @ quoted scheme @ '')''))
       else if \<not> is_loopback \<and> is_private_or_link_local host
       then Err (InvalidOption (''sas_url host '' @ quoted host @ '' is private/link-local '' @ em_dash
         @ '' refusing to send credentials there''))
       else if \<not> (is_loopback \<or> list_ex (\<lambda>sfx. host = bare_suffix sfx
                    \<or> ends_with host (''.'' @ bare_suffix sfx)) ALLOWED_ENDPOINT_SUFFIXES)
       then Err (InvalidOption (''sas_url host '' @ quoted host @ '' is not an Azure storage host''))
       else Ok ()))"

section \<open>Server and user-mapping options\<close>

record server_options =
  account_name :: string
  endpoint :: string
  server_auth_method :: auth_method
  enable_pushdown :: bool

record user_mapping_options =
  sas_url :: "string option"

record server_acc =
  acc_account_name :: "string option"
  acc_endpoint :: string
  acc_auth_method :: "auth_method option"
  acc_enable_pushdown :: bool

definition parse_on_off :: "string \<Rightarrow> bool fdw_result" where
  "parse_on_off v =
    (let l = to_ascii_lowercase v in
     if l = ''true'' \<or> l = ''on'' \<or> l = ''1'' then Ok True
     else if l = ''false'' \<or> l = ''off'' \<or> l = ''0'' then Ok False
     else Err (InvalidOption ''enable_pushdown must be true|false''))"

definition server_step :: "string \<times> string \<Rightarrow> server_acc \<Rightarrow> server_acc fdw_result" where
  "server_step kv st = (case kv of (k, v) \<Rightarrow>
    if k = ''account_name'' then Ok (st \<lparr> acc_account_name := Some v \<rparr>)
    else if k = ''endpoint'' then Ok (st \<lparr> acc_endpoint := v \<rparr>)
    else if k = ''auth_method'' then
      and_then (parse_auth_method v) (\<lambda>m. Ok (st \<lparr> acc_auth_method := Some m \<rparr>))
    else if k = ''enable_pushdown'' then
      and_then (parse_on_off v) (\<lambda>b. Ok (st \<lparr> acc_enable_pushdown := b \<rparr>))
    else Err (InvalidOption (''unknown server option '' @ quoted k)))"

definition parse_server_options_from_slice :: "(string \<times> string) list \<Rightarrow> server_options fdw_result" where
  "parse_server_options_from_slice kv =
    and_then (try_fold server_step kv
      \<lparr> acc_account_name = None, acc_endpoint = DEFAULT_ENDPOINT, acc_auth_method = None,
        acc_enable_pushdown = True \<rparr>) (\<lambda>st.
    and_then (ok_or (acc_account_name st) (MissingOption ''account_name'')) (\<lambda>name.
    and_then (ok_or (acc_auth_method st) (MissingOption ''auth_method'')) (\<lambda>m.
    and_then (validate_account_name name) (\<lambda>_.
    and_then (validate_endpoint (acc_endpoint st)) (\<lambda>_.
    Ok \<lparr> account_name = name, endpoint = acc_endpoint st, server_auth_method = m,
         enable_pushdown = acc_enable_pushdown st \<rparr>)))))"

definition user_mapping_step ::
  "(string \<Rightarrow> string + (string \<times> string option)) \<Rightarrow> string \<times> string \<Rightarrow> user_mapping_options
    \<Rightarrow> user_mapping_options fdw_result" where
  "user_mapping_step url_parse kv um = (case kv of (k, v) \<Rightarrow>
    if k = ''sas_url'' then
      and_then (validate_sas_url url_parse v) (\<lambda>_. Ok (um \<lparr> sas_url := Some v \<rparr>))
    else if k = ''account_key'' then Err (InvalidOption
      (''user mapping option '' @ quoted ''account_key'' @ '' is not supported; ''
       @ ''generate a container SAS client-side and set '' @ quoted ''sas_url'' @ '' instead''))
    else Err (InvalidOption (''unknown user mapping option '' @ quoted k)))"

definition parse_user_mapping_options_from_slice ::
  "(string \<Rightarrow> string + (string \<times> string option)) \<Rightarrow> (string \<times> string) list \<Rightarrow> user_mapping_options fdw_result" where
  "parse_user_mapping_options_from_slice url_parse kv =
    try_fold (user_mapping_step url_parse) kv \<lparr> sas_url = None \<rparr>"

section \<open>Table options\<close>

record table_options =
  container :: string
  filename :: string
  compression :: compression
  parallel_workers :: "int option"
  partition_columns :: "string list"
  partition_keys :: "(string \<times> pg_partition_type) list"
  sorted_cols :: "string list"
  files_in_order :: bool

record table_acc =
  acc_container :: "string option"
  acc_filename :: "string option"
  acc_compression :: compression
  acc_parallel_workers :: "int option"
  acc_partition_columns :: "string list option"
  acc_partition_keys :: "(string \<times> pg_partition_type) list option"
  acc_sorted :: "string list"
  acc_files_in_order :: bool

text \<open>The comma-separated column lists: pieces trimmed, empty pieces dropped.\<close>

definition split_names :: "string \<Rightarrow> string list" where
  "split_names v = filter (\<lambda>s. s \<noteq> []) (map trim (split_on CHR '','' v))"

definition parse_partition_key :: "string \<Rightarrow> (string \<times> pg_partition_type) fdw_result" where
  "parse_partition_key entry =
    and_then (ok_or (split_once CHR '':'' entry) (InvalidOption
      (''partition_keys entry '' @ quoted entry @ '' must be '' @ quoted ''name:type''))) (\<lambda>(name, ty_str).
    and_then (partition_type_parse (trim ty_str)) (\<lambda>ty. Ok (trim name, ty)))"

definition parse_parallel_workers :: "string \<Rightarrow> int fdw_result" where
  "parse_parallel_workers v =
    and_then (ok_or (parse_i32 v) (InvalidOption
      (''parallel_workers must be a non-negative integer; got '' @ quoted v))) (\<lambda>n.
    if n < 0 then Err (InvalidOption (''parallel_workers must be non-negative; got '' @ show_int n))
    else Ok n)"

definition table_step :: "string \<times> string \<Rightarrow> table_acc \<Rightarrow> table_acc fdw_result" where
  "table_step kv st = (case kv of (k, v) \<Rightarrow>
    if k = ''container'' then Ok (st \<lparr> acc_container := Some v \<rparr>)
    else if k = ''filename'' then Ok (st \<lparr> acc_filename := Some v \<rparr>)
    else if k = ''compression'' then
      and_then (compression_parse v) (\<lambda>c. Ok (st \<lparr> acc_compression := c \<rparr>))
    else if k = ''parallel_workers'' then
      and_then (parse_parallel_workers v) (\<lambda>n. Ok (st \<lparr> acc_parallel_workers := Some n \<rparr>))
    else if k = ''partition_columns'' then Ok (st \<lparr> acc_partition_columns := Some (split_names v) \<rparr>)
    else if k = ''partition_keys'' then
      and_then (try_map parse_partition_key (split_names v))
        (\<lambda>ks. Ok (st \<lparr> acc_partition_keys := Some ks \<rparr>))
    else if k = ''sorted'' then Ok (st \<lparr> acc_sorted := split_names v \<rparr>)
    else if k = ''files_in_order'' then
      Ok (st \<lparr> acc_files_in_order :=
        to_ascii_lowercase v \<in> {''true'', ''yes'', ''1'', ''on''} \<rparr>)
    else Err (InvalidOption (''unknown table option '' @ quoted k)))"

text \<open>The pairwise name check, from index \<open>i\<close>.\<close>

fun check_partition_names :: "nat \<Rightarrow> string list \<Rightarrow> (string \<times> pg_partition_type) list \<Rightarrow> unit fdw_result" where
  "check_partition_names i (col # cols) ((kname, ty) # keys) =
    (if eq_ignore_ascii_case col kname then check_partition_names (i + 1) cols keys
     else Err (InvalidOption (''partition_columns/partition_keys disagree at index '' @ show_nat i
       @ '': '' @ quoted col @ '' vs '' @ quoted kname @ '' (must be same name in same order)'')))"
| "check_partition_names i _ _ = Ok ()"

fun combine_partition_options ::
  "string list option \<Rightarrow> (string \<times> pg_partition_type) list option
    \<Rightarrow> (string list \<times> (string \<times> pg_partition_type) list) fdw_result" where
  "combine_partition_options None None = Ok ([], [])"
| "combine_partition_options (Some _) None =
    Err (InvalidOption ''partition_columns set but partition_keys missing'')"
| "combine_partition_options None (Some _) =
    Err (InvalidOption ''partition_keys set but partition_columns missing'')"
| "combine_partition_options (Some cols) (Some keys) =
    (if length cols \<noteq> length keys then Err (InvalidOption
       (''partition_columns ('' @ show_nat (length cols) @ '' entries) and partition_keys (''
        @ show_nat (length keys) @ '' entries) must have the same length''))
     else and_then (check_partition_names 0 cols keys) (\<lambda>_. Ok (cols, keys)))"

definition check_sorted_combo :: "string list \<Rightarrow> bool \<Rightarrow> unit fdw_result" where
  "check_sorted_combo srt in_order =
    (if srt \<noteq> [] \<and> \<not> in_order then Err (InvalidOption
       (quoted ''sorted'' @ '' is set but '' @ quoted ''files_in_order''
        @ '' is missing or false; both must be set together''))
     else if srt = [] \<and> in_order then Err (InvalidOption
       (quoted ''files_in_order'' @ '' is true but '' @ quoted ''sorted''
        @ '' is empty; both must be set together''))
     else Ok ())"

definition parse_table_options_from_slice :: "(string \<times> string) list \<Rightarrow> table_options fdw_result" where
  "parse_table_options_from_slice kv =
    and_then (try_fold table_step kv
      \<lparr> acc_container = None, acc_filename = None, acc_compression = Snappy,
        acc_parallel_workers = None, acc_partition_columns = None, acc_partition_keys = None,
        acc_sorted = [], acc_files_in_order = False \<rparr>) (\<lambda>st.
    and_then (ok_or (acc_filename st) (MissingOption ''filename'')) (\<lambda>fname.
    and_then (validate_blob_pattern fname ''filename'') (\<lambda>_.
    and_then (ok_or (acc_container st) (MissingOption ''container'')) (\<lambda>cont.
    and_then (validate_container_name cont) (\<lambda>_.
    and_then (combine_partition_options (acc_partition_columns st) (acc_partition_keys st)) (\<lambda>(cols, keys).
    and_then (check_sorted_combo (acc_sorted st) (acc_files_in_order st)) (\<lambda>_.
    Ok \<lparr> container = cont, filename = fname, compression = acc_compression st,
         parallel_workers = acc_parallel_workers st, partition_columns = cols,
         partition_keys = keys, sorted_cols = acc_sorted st,
         files_in_order = acc_files_in_order st \<rparr>)))))))"

section \<open>Cross checks and the SQL validator\<close>

definition validate_combo :: "server_options \<Rightarrow> user_mapping_options \<Rightarrow> unit fdw_result" where
  "validate_combo server um =
    (case server_auth_method server of
       SasUrl \<Rightarrow> (if sas_url um = None then Err (MissingOption ''sas_url'') else Ok ())
     | AadServicePrincipal \<Rightarrow>
         (if sas_url um \<noteq> None then Err (InvalidOption (''auth_method='' @ quoted ''aad_sp''
            @ '' must not set user mapping option '' @ quoted ''sas_url''))
          else Ok ())
     | ManagedIdentity \<Rightarrow> Ok ())"

definition parse_kv :: "string \<Rightarrow> (string \<times> string) fdw_result" where
  "parse_kv entry = ok_or (split_once CHR ''='' entry) (InvalidOption
    (''malformed option '' @ quoted (redact entry) @ '' (expected key=value)''))"

definition parse_kv_list :: "string option list \<Rightarrow> (string \<times> string) list fdw_result" where
  "parse_kv_list options = try_map parse_kv (List.map_filter id options)"

record catalog_oids =
  ForeignDataWrapperRelationId :: nat
  ForeignServerRelationId :: nat
  UserMappingRelationId :: nat
  ForeignTableRelationId :: nat

definition validate ::
  "(string \<Rightarrow> string + (string \<times> string option)) \<Rightarrow> catalog_oids \<Rightarrow> string option list \<Rightarrow> nat
    \<Rightarrow> unit fdw_result" where
  "validate url_parse oids options catalog =
    and_then (parse_kv_list options) (\<lambda>kv.
    if catalog = ForeignDataWrapperRelationId oids then
      (case kv of [] \<Rightarrow> Ok ()
       | (k, _) # _ \<Rightarrow> Err (InvalidOption (''unknown foreign-data-wrapper option '' @ quoted k)))
    else if catalog = ForeignServerRelationId oids then
      and_then (parse_server_options_from_slice kv) (\<lambda>_. Ok ())
    else if catalog = UserMappingRelationId oids then
      and_then (parse_user_mapping_options_from_slice url_parse kv) (\<lambda>_. Ok ())
    else if catalog = ForeignTableRelationId oids then
      and_then (parse_table_options_from_slice kv) (\<lambda>_. Ok ())
    else Ok ())"

section \<open>What accepted options guarantee\<close>

definition container_name_ok :: "string \<Rightarrow> bool" where
  "container_name_ok name \<longleftrightarrow> 3 \<le> length name \<and> length name \<le> 63
    \<and> (\<forall>c \<in> set name. is_ascii_lowercase c \<or> is_ascii_digit c \<or> c = CHR ''-'')
    \<and> hd name \<noteq> CHR ''-'' \<and> last name \<noteq> CHR ''-''
    \<and> (\<nexists>a b. name = a @ ''--'' @ b)"

definition blob_path_ok :: "string \<Rightarrow> bool" where
  "blob_path_ok f \<longleftrightarrow> f \<noteq> [] \<and> hd f \<noteq> CHR ''/'' \<and> ''..'' \<notin> set (split_on CHR ''/'' f)"

definition table_options_ok :: "table_options \<Rightarrow> bool" where
  "table_options_ok t \<longleftrightarrow> container_name_ok (container t) \<and> blob_path_ok (filename t)
    \<and> list_all2 (\<lambda>col (kname, _). eq_ignore_ascii_case col kname) (partition_columns t) (partition_keys t)
    \<and> (\<forall>c \<in> set (partition_columns t) \<union> set (sorted_cols t). c \<noteq> [] \<and> CHR '','' \<notin> set c)
    \<and> (files_in_order t \<longleftrightarrow> sorted_cols t \<noteq> [])
    \<and> (\<forall>n. parallel_workers t = Some n \<longrightarrow> 0 \<le> n \<and> n < 2 ^ 31)"

definition server_options_ok :: "server_options \<Rightarrow> bool" where
  "server_options_ok s \<longleftrightarrow> 3 \<le> length (account_name s) \<and> length (account_name s) \<le> 24
    \<and> (\<forall>c \<in> set (account_name s). is_ascii_lowercase c \<or> is_ascii_digit c)
    \<and> to_ascii_lowercase (endpoint s) \<in> set ALLOWED_ENDPOINT_SUFFIXES"

lemma starts_with_one: "starts_with s [c] \<longleftrightarrow> s \<noteq> [] \<and> hd s = c"
  by (cases s) (auto simp: starts_with_def)

lemma ends_with_one: "ends_with s [c] \<longleftrightarrow> s \<noteq> [] \<and> last s = c"
  by (cases s rule: rev_cases) (auto simp: ends_with_def starts_with_def)

lemma validate_container_name_iff:
  "validate_container_name name = Ok () \<longleftrightarrow> container_name_ok name"
  by (auto simp: validate_container_name_def container_name_ok_def starts_with_one ends_with_one
      contains_str_iff list_all_iff)

lemma validate_blob_pattern_iff: "validate_blob_pattern f n = Ok () \<longleftrightarrow> blob_path_ok f"
  by (cases f) (auto simp: validate_blob_pattern_def blob_path_ok_def starts_with_def list_ex_iff)

lemma allowed_lower: "\<forall>x \<in> set ALLOWED_ENDPOINT_SUFFIXES. to_ascii_lowercase x = x"
  by (simp add: ALLOWED_ENDPOINT_SUFFIXES_def to_ascii_lowercase_def ascii_lower_def byte_val_def)

lemma validate_endpoint_allowed:
  "validate_endpoint e = Ok () \<Longrightarrow> to_ascii_lowercase e \<in> set ALLOWED_ENDPOINT_SUFFIXES"
  using allowed_lower
  by (auto simp: validate_endpoint_def eq_ignore_ascii_case_def list_ex_iff split: if_splits)

lemma split_names_ok: "\<forall>c \<in> set (split_names v). c \<noteq> [] \<and> CHR '','' \<notin> set c"
  using set_trim by (fastforce simp: split_names_def dest: split_on_pieces)

lemma check_partition_names_ok:
  "length cols = length keys \<Longrightarrow> check_partition_names i cols keys = Ok () \<Longrightarrow>
    list_all2 (\<lambda>col (kname, _). eq_ignore_ascii_case col kname) cols keys"
  by (induction i cols keys rule: check_partition_names.induct) (auto split: if_splits)

lemma combine_partition_options_ok:
  "combine_partition_options co ko = Ok (cols, keys) \<Longrightarrow>
    list_all2 (\<lambda>col (kname, _). eq_ignore_ascii_case col kname) cols keys
    \<and> (cols = [] \<or> co = Some cols)"
  by (cases "(co, ko)" rule: combine_partition_options.cases)
    (auto simp: result_simps check_partition_names_ok split: if_splits)

lemma combine_partition_options_given:
  "combine_partition_options co ko = Ok (cols, keys) \<Longrightarrow>
    (co = None \<and> ko = None \<and> cols = [] \<and> keys = []) \<or> (co = Some cols \<and> ko = Some keys)"
  by (cases "(co, ko)" rule: combine_partition_options.cases) (auto simp: result_simps split: if_splits)

lemma parse_parallel_workers_range: "parse_parallel_workers v = Ok n \<Longrightarrow> 0 \<le> n \<and> n < 2 ^ 31"
  using parse_int_range[of "- (2 ^ 31)" "2 ^ 31 - 1" v]
  by (auto simp: parse_parallel_workers_def parse_i32_def result_simps split: if_splits)

definition table_acc_ok :: "table_acc \<Rightarrow> bool" where
  "table_acc_ok st \<longleftrightarrow>
    (\<forall>cols. acc_partition_columns st = Some cols \<longrightarrow> (\<forall>c \<in> set cols. c \<noteq> [] \<and> CHR '','' \<notin> set c))
    \<and> (\<forall>c \<in> set (acc_sorted st). c \<noteq> [] \<and> CHR '','' \<notin> set c)
    \<and> (\<forall>n. acc_parallel_workers st = Some n \<longrightarrow> 0 \<le> n \<and> n < 2 ^ 31)"

lemma table_step_ok: "table_acc_ok u \<Longrightarrow> table_step kv u = Ok v \<Longrightarrow> table_acc_ok v"
  by (cases kv)
    (use split_names_ok[of "snd kv"] in \<open>auto simp: table_acc_ok_def table_step_def result_simps
      dest: parse_parallel_workers_range split: if_splits\<close>)

text \<open>The last value given for a key is the one that counts.\<close>

definition last_value :: "string \<Rightarrow> (string \<times> string) list \<Rightarrow> string option" where
  "last_value k kv = map_of (rev kv) k"

lemma last_value_Nil [simp]: "last_value k [] = None"
  by (simp add: last_value_def)

lemma last_value_snoc [simp]:
  "last_value k (kv @ [(k', v)]) = (if k = k' then Some v else last_value k kv)"
  by (simp add: last_value_def)

definition TABLE_KEYS :: "string set" where
  "TABLE_KEYS = {''container'', ''filename'', ''compression'', ''parallel_workers'',
    ''partition_columns'', ''partition_keys'', ''sorted'', ''files_in_order''}"

text \<open>A field holds the last value given, parsed by \<open>f\<close>, or the default \<open>d\<close>.\<close>

definition from_last :: "(string \<Rightarrow> 'a fdw_result) \<Rightarrow> 'a \<Rightarrow> string option \<Rightarrow> 'a \<Rightarrow> bool" where
  "from_last f d given x = (case given of None \<Rightarrow> x = d | Some v \<Rightarrow> f v = Ok x)"

lemma from_last_simps [simp]: "from_last f d None x = (x = d)" "from_last f d (Some v) x = (f v = Ok x)"
  by (simp_all add: from_last_def)

definition given_in_order :: "string \<Rightarrow> bool" where
  "given_in_order v \<longleftrightarrow> to_ascii_lowercase v \<in> {''true'', ''yes'', ''1'', ''on''}"

definition some_of :: "(string \<Rightarrow> 'a fdw_result) \<Rightarrow> string \<Rightarrow> 'a option fdw_result" where
  "some_of f v = and_then (f v) (\<lambda>x. Ok (Some x))"

definition parse_partition_keys :: "string \<Rightarrow> (string \<times> pg_partition_type) list fdw_result" where
  "parse_partition_keys v = try_map parse_partition_key (split_names v)"

definition last_values_used :: "(string \<times> string) list \<Rightarrow> table_acc \<Rightarrow> bool" where
  "last_values_used kv st \<longleftrightarrow>
    from_last (\<lambda>v. Ok (Some v)) None (last_value ''container'' kv) (acc_container st)
    \<and> from_last (\<lambda>v. Ok (Some v)) None (last_value ''filename'' kv) (acc_filename st)
    \<and> from_last compression_parse Snappy (last_value ''compression'' kv) (acc_compression st)
    \<and> from_last (some_of parse_parallel_workers) None (last_value ''parallel_workers'' kv) (acc_parallel_workers st)
    \<and> from_last (\<lambda>v. Ok (Some (split_names v))) None (last_value ''partition_columns'' kv) (acc_partition_columns st)
    \<and> from_last (some_of parse_partition_keys) None (last_value ''partition_keys'' kv) (acc_partition_keys st)
    \<and> from_last (\<lambda>v. Ok (split_names v)) [] (last_value ''sorted'' kv) (acc_sorted st)
    \<and> from_last (\<lambda>v. Ok (given_in_order v)) False (last_value ''files_in_order'' kv) (acc_files_in_order st)"

lemma table_step_last:
  assumes "table_step (k, v) st = Ok st'" "last_values_used kv st"
  shows "k \<in> TABLE_KEYS" "last_values_used (kv @ [(k, v)]) st'"
proof -
  show k: "k \<in> TABLE_KEYS" using assms(1) by (auto simp: table_step_def TABLE_KEYS_def split: if_splits)
  show "last_values_used (kv @ [(k, v)]) st'"
    using k assms unfolding TABLE_KEYS_def
    by (elim insertE) (auto simp: table_step_def last_values_used_def some_of_def parse_partition_keys_def given_in_order_def result_simps)
qed

lemma table_fold_last:
  "try_fold table_step kv st0 = Ok st \<Longrightarrow> last_values_used [] st0 \<Longrightarrow> fst ` set kv \<subseteq> TABLE_KEYS \<and> last_values_used kv st"
proof (induction kv arbitrary: st rule: rev_induct)
  case (snoc x kv)
  obtain k v where x: "x = (k, v)" by (cases x)
  from snoc.prems(1) obtain u where u: "try_fold table_step kv st0 = Ok u" "table_step (k, v) u = Ok st"
    by (auto simp: try_fold_append result_simps x)
  show ?case
    using snoc.IH[OF u(1) snoc.prems(2)] table_step_last[OF u(2), of kv] by (simp add: x)
qed simp

definition SERVER_KEYS :: "string set" where
  "SERVER_KEYS = {''account_name'', ''endpoint'', ''auth_method'', ''enable_pushdown''}"

lemma server_step_fields:
  assumes "server_step (k, v) st = Ok st'"
  shows "k \<in> SERVER_KEYS"
    and "acc_account_name st' = (if k = ''account_name'' then Some v else acc_account_name st)"
    and "acc_endpoint st' = (if k = ''endpoint'' then v else acc_endpoint st)"
    and "(if k = ''auth_method'' then \<exists>m. acc_auth_method st' = Some m \<and> parse_auth_method v = Ok m
          else acc_auth_method st' = acc_auth_method st)"
  using assms by (auto simp: server_step_def SERVER_KEYS_def result_simps split: if_splits)

lemma server_fold_fields:
  "try_fold server_step kv st0 = Ok st \<Longrightarrow> acc_account_name st0 = None \<Longrightarrow> acc_auth_method st0 = None \<Longrightarrow>
    fst ` set kv \<subseteq> SERVER_KEYS \<and> acc_account_name st = last_value ''account_name'' kv
    \<and> acc_endpoint st = (case last_value ''endpoint'' kv of None \<Rightarrow> acc_endpoint st0 | Some e \<Rightarrow> e)
    \<and> (\<forall>m. acc_auth_method st = Some m \<longrightarrow>
        (\<exists>v. last_value ''auth_method'' kv = Some v \<and> parse_auth_method v = Ok m))"
proof (induction kv arbitrary: st rule: rev_induct)
  case (snoc x kv)
  obtain k v where x: "x = (k, v)" by (cases x)
  from snoc.prems(1) obtain u where u: "try_fold server_step kv st0 = Ok u" "server_step (k, v) u = Ok st"
    by (auto simp: try_fold_append result_simps x)
  show ?case
    using snoc.IH[OF u(1) snoc.prems(2,3)] server_step_fields[OF u(2)] by (auto simp: x)
qed simp

section \<open>Hosts\<close>

lemma dots_show_nat: "count_list (show_nat n) CHR ''.'' = 0"
  using show_nat_digits[of "CHR ''.''" n]
  by (auto simp: count_list_0_iff is_ascii_digit_def byte_val_def)

lemma ipv4_text_chars: "x \<in> set (ipv4_text a b c d) \<Longrightarrow> is_ascii_digit x \<or> x = CHR ''.''"
  by (auto simp: ipv4_text_def dest: show_nat_digits)

lemma ipv4_text_dots: "count_list (ipv4_text a b c d) CHR ''.'' = 3"
  by (simp add: ipv4_text_def dots_show_nat)

lemma bare_suffixes:
  "map bare_suffix ALLOWED_ENDPOINT_SUFFIXES =
    [''blob.core.windows.net'', ''dfs.core.windows.net'',
     ''blob.core.chinacloudapi.cn'', ''dfs.core.chinacloudapi.cn'',
     ''blob.core.usgovcloudapi.net'', ''dfs.core.usgovcloudapi.net'',
     ''blob.core.cloudapi.de'', ''dfs.core.cloudapi.de'', ''127.0.0.1'', ''localhost'']"
  by (simp add: ALLOWED_ENDPOINT_SUFFIXES_def bare_suffix_def to_ascii_lowercase_def ascii_lower_def byte_val_def)

text \<open>The only literal IPv4 host that passes the suffix test is \<^verbatim>\<open>127.0.0.1\<close>.\<close>

lemma ipv4_suffix:
  assumes "sfx \<in> set ALLOWED_ENDPOINT_SUFFIXES"
    "ipv4_text a b c d = bare_suffix sfx \<or> ends_with (ipv4_text a b c d) (''.'' @ bare_suffix sfx)"
  shows "ipv4_text a b c d = ''127.0.0.1''"
proof -
  have dots: "\<not> ends_with (ipv4_text a b c d) ''.127.0.0.1''"
    using ipv4_text_dots[of a b c d] by (auto simp: ends_with_iff)
  have sub: "set (bare_suffix sfx) \<subseteq> set (ipv4_text a b c d)"
    using assms(2) by (auto simp: ends_with_iff)
  have "bare_suffix sfx \<in> set (map bare_suffix ALLOWED_ENDPOINT_SUFFIXES)" using assms(1) by simp
  then consider "bare_suffix sfx = ''127.0.0.1''"
    | "CHR ''o'' \<in> set (bare_suffix sfx)"
    unfolding bare_suffixes by auto
  then show ?thesis
  proof cases
    case 1
    then show ?thesis using assms(2) dots by auto
  next
    case 2
    then show ?thesis using sub ipv4_text_chars[of "CHR ''o''" a b c d]
      by (auto simp: is_ascii_digit_def byte_val_def)
  qed
qed

section \<open>Properties\<close>

text \<open>C27: an accepted FOREIGN TABLE option list gives a well-formed option record: a container
  name that obeys Azure's naming rules, a relative blob path with no parent segment, partition
  columns and keys that agree name by name, non-empty column names, \<^verbatim>\<open>files_in_order\<close> set exactly
  together with \<^verbatim>\<open>sorted\<close>, and a worker count in the range of a non-negative 32-bit integer.
  Only known keys are accepted, and each of the eight fields comes from the last value given for its
  key: container and filename as they are, the others parsed, with Snappy, no worker count, no
  partitioning and no sort order as the defaults.\<close>

theorem table_options_sound:
  assumes "parse_table_options_from_slice kv = Ok t"
  shows "table_options_ok t \<and> fst ` set kv \<subseteq> TABLE_KEYS
    \<and> last_value ''container'' kv = Some (container t) \<and> last_value ''filename'' kv = Some (filename t)
    \<and> from_last compression_parse Snappy (last_value ''compression'' kv) (compression t)
    \<and> from_last (some_of parse_parallel_workers) None (last_value ''parallel_workers'' kv) (parallel_workers t)
    \<and> from_last (\<lambda>v. Ok (split_names v)) [] (last_value ''partition_columns'' kv) (partition_columns t)
    \<and> from_last parse_partition_keys [] (last_value ''partition_keys'' kv) (partition_keys t)
    \<and> from_last (\<lambda>v. Ok (split_names v)) [] (last_value ''sorted'' kv) (sorted_cols t)
    \<and> from_last (\<lambda>v. Ok (given_in_order v)) False (last_value ''files_in_order'' kv) (files_in_order t)"
proof -
  let ?st0 = "\<lparr> acc_container = None, acc_filename = None, acc_compression = Snappy,
        acc_parallel_workers = None, acc_partition_columns = None, acc_partition_keys = None,
        acc_sorted = [], acc_files_in_order = False \<rparr>"
  obtain st f c cols keys where
    st: "try_fold table_step kv ?st0 = Ok st" and f: "acc_filename st = Some f" "validate_blob_pattern f ''filename'' = Ok ()"
    and c: "acc_container st = Some c" "validate_container_name c = Ok ()"
    and ks: "combine_partition_options (acc_partition_columns st) (acc_partition_keys st) = Ok (cols, keys)"
    and srt: "check_sorted_combo (acc_sorted st) (acc_files_in_order st) = Ok ()"
    and t: "t = \<lparr> container = c, filename = f, compression = acc_compression st,
         parallel_workers = acc_parallel_workers st, partition_columns = cols,
         partition_keys = keys, sorted_cols = acc_sorted st, files_in_order = acc_files_in_order st \<rparr>"
    using assms by (auto simp: parse_table_options_from_slice_def result_simps)
  have "table_acc_ok ?st0" by (simp add: table_acc_ok_def)
  with st have "table_acc_ok st" by (rule try_fold_invariant) (rule table_step_ok)
  then have acc: "\<forall>c \<in> set cols \<union> set (acc_sorted st). c \<noteq> [] \<and> CHR '','' \<notin> set c"
    "\<forall>n. acc_parallel_workers st = Some n \<longrightarrow> 0 \<le> n \<and> n < 2 ^ 31"
    using combine_partition_options_ok[OF ks] unfolding table_acc_ok_def by auto
  have io: "acc_files_in_order st \<longleftrightarrow> acc_sorted st \<noteq> []"
    using srt by (auto simp: check_sorted_combo_def split: if_splits)
  have "table_options_ok t"
    unfolding table_options_ok_def t
    using f(2) c(2) combine_partition_options_ok[OF ks] acc io
    by (simp only: validate_blob_pattern_iff validate_container_name_iff table_options.simps)
  moreover have "last_values_used [] ?st0" by (simp add: last_values_used_def)
  with table_fold_last[OF st] have l: "fst ` set kv \<subseteq> TABLE_KEYS" "last_values_used kv st" by blast+
  moreover have "from_last (\<lambda>v. Ok (split_names v)) [] (last_value ''partition_columns'' kv) cols"
    "from_last parse_partition_keys [] (last_value ''partition_keys'' kv) keys"
    using l(2)[unfolded last_values_used_def] combine_partition_options_given[OF ks]
    by (cases "last_value ''partition_columns'' kv"; cases "last_value ''partition_keys'' kv"; auto simp: some_of_def result_simps)+
  moreover have "last_value ''container'' kv = Some c" "last_value ''filename'' kv = Some f"
    using l(2)[unfolded last_values_used_def] f(1) c(1)
    by (cases "last_value ''container'' kv"; cases "last_value ''filename'' kv"; simp)+
  ultimately show ?thesis using l(2)[unfolded last_values_used_def] by (simp add: t)
qed

theorem table_options_sound_witness:
  "\<exists>t. parse_table_options_from_slice
      [(''container'', ''data''), (''compression'', ''gzip''), (''filename'', ''events/*.parquet''), (''sorted'', ''ts''),
       (''compression'', ''zstd''), (''sorted'', ''id''), (''files_in_order'', ''on'')] = Ok t
    \<and> table_options_ok t \<and> container t = ''data'' \<and> compression_parse ''zstd'' = Ok (compression t) \<and> sorted_cols t = split_names ''id''"
proof -
  let ?kv = "[(''container'', ''data''), (''compression'', ''gzip''), (''filename'', ''events/*.parquet''), (''sorted'', ''ts''),
       (''compression'', ''zstd''), (''sorted'', ''id''), (''files_in_order'', ''on'')]"
  have "is_ok (parse_table_options_from_slice ?kv)" by code_simp
  then obtain t where t: "parse_table_options_from_slice ?kv = Ok t" unfolding is_ok_iff by blast
  have "table_options_ok t \<and> container t = ''data'' \<and> compression_parse ''zstd'' = Ok (compression t) \<and> sorted_cols t = split_names ''id''"
    using table_options_sound[OF t] by (simp add: last_value_def)
  then show ?thesis using t by blast
qed

text \<open>C28: an accepted SERVER option list gives an account name of 3 to 24 lower-case letters and
  digits and an endpoint of the allow-list (in any case), never any other host; the values are
  the last ones given, with the public cloud as the default endpoint, and the method is the
  parsed \<^verbatim>\<open>auth_method\<close>.\<close>

theorem server_options_sound:
  assumes "parse_server_options_from_slice kv = Ok s"
  shows "server_options_ok s \<and> fst ` set kv \<subseteq> SERVER_KEYS
    \<and> last_value ''account_name'' kv = Some (account_name s)
    \<and> endpoint s = (case last_value ''endpoint'' kv of None \<Rightarrow> ''blob.core.windows.net'' | Some e \<Rightarrow> e)
    \<and> (\<exists>v. last_value ''auth_method'' kv = Some v \<and> parse_auth_method v = Ok (server_auth_method s))"
proof -
  let ?st0 = "\<lparr> acc_account_name = None, acc_endpoint = DEFAULT_ENDPOINT, acc_auth_method = None,
        acc_enable_pushdown = True \<rparr>"
  obtain st n m where st: "try_fold server_step kv ?st0 = Ok st" and n: "acc_account_name st = Some n"
    and m: "acc_auth_method st = Some m" and v: "validate_account_name n = Ok ()" "validate_endpoint (acc_endpoint st) = Ok ()"
    and s: "s = \<lparr> account_name = n, endpoint = acc_endpoint st, server_auth_method = m,
         enable_pushdown = acc_enable_pushdown st \<rparr>"
    using assms by (auto simp: parse_server_options_from_slice_def result_simps)
  have "server_options_ok s"
    using v(1) validate_endpoint_allowed[OF v(2)]
    by (auto simp: server_options_ok_def s validate_account_name_def list_all_iff split: if_splits)
  then show ?thesis using server_fold_fields[OF st] n m s
    by (cases "last_value ''endpoint'' kv") (simp_all add: DEFAULT_ENDPOINT_def)
qed

theorem server_options_sound_witness:
  "\<exists>s. parse_server_options_from_slice [(''account_name'', ''acct1''), (''auth_method'', ''sas_url'')] = Ok s
    \<and> server_options_ok s \<and> endpoint s = ''blob.core.windows.net''"
proof -
  let ?kv = "[(''account_name'', ''acct1''), (''auth_method'', ''sas_url'')]"
  let ?s = "projr (parse_server_options_from_slice ?kv)"
  have "is_ok (parse_server_options_from_slice ?kv)" by code_simp
  then have "parse_server_options_from_slice ?kv = Ok ?s" by (cases "parse_server_options_from_slice ?kv") auto
  then show ?thesis using server_options_sound[of ?kv ?s] by (auto simp: last_value_def)
qed

text \<open>C23: a SAS URL that is accepted sends the token to Azure or to the loopback host only.
  Either the host is one of the three loopback names, over http or https; or the scheme is https,
  the host is an allow-listed storage domain or a name under one, and it is no literal IPv4
  address at all, so neither the instance metadata service nor any private address.\<close>

theorem sas_url_safe:
  assumes "validate_sas_url url_parse sas = Ok ()"
  shows "\<exists>scheme h. url_parse sas = Inr (scheme, Some h) \<and>
    (let host = to_ascii_lowercase h in
      (host \<in> {''127.0.0.1'', ''::1'', ''localhost''} \<and> scheme \<in> {''http'', ''https''})
      \<or> (scheme = ''https''
         \<and> (\<exists>sfx \<in> set ALLOWED_ENDPOINT_SUFFIXES. host = bare_suffix sfx \<or> (\<exists>p. host = p @ ''.'' @ bare_suffix sfx))
         \<and> \<not> (\<exists>a b c d. host = ipv4_text a b c d)))"
proof -
  obtain scheme h where u: "url_parse sas = Inr (scheme, Some h)"
    using assms by (auto simp: validate_sas_url_def result_simps split: sum.splits prod.splits)
  let ?host = "to_ascii_lowercase h"
  show ?thesis
  proof (cases "is_loopback_host ?host")
    case True
    moreover have "scheme = ''https'' \<or> scheme = ''http''"
      using assms True u by (auto simp: validate_sas_url_def Let_def split: if_splits)
    ultimately show ?thesis using u by (auto simp: is_loopback_host_def)
  next
    case False
    then have s: "scheme = ''https''"
      and "list_ex (\<lambda>sfx. ?host = bare_suffix sfx \<or> ends_with ?host (''.'' @ bare_suffix sfx)) ALLOWED_ENDPOINT_SUFFIXES"
      using assms u by (auto simp: validate_sas_url_def Let_def split: if_splits)
    then obtain sfx where sfx: "sfx \<in> set ALLOWED_ENDPOINT_SUFFIXES"
      "?host = bare_suffix sfx \<or> ends_with ?host (''.'' @ bare_suffix sfx)"
      by (auto simp: list_ex_iff)
    have "?host \<noteq> ipv4_text a b c d" for a b c d
      using ipv4_suffix[OF sfx(1), of a b c d] sfx(2) False by (auto simp: is_loopback_host_def)
    then show ?thesis using u s sfx unfolding Let_def ends_with_iff by blast
  qed
qed

lemmas ip_eval = parse_ip_addr_def read_ipv4_addr_def read_ipv6_addr_def read_octet_def
  read_separator_def read_number_def to_digit_def byte_val_def read_groups.simps

theorem sas_url_safe_witness:
  "validate_sas_url (\<lambda>_. Inr (''https'', Some ''a.blob.core.windows.net'')) ''https://a.blob.core.windows.net/c'' = Ok ()
   \<and> \<not> (\<exists>a b c d. ''a.blob.core.windows.net'' = ipv4_text a b c d)"
proof -
  have low: "to_ascii_lowercase ''a.blob.core.windows.net'' = ''a.blob.core.windows.net''" by code_simp
  have "parse_ip_addr ''a.blob.core.windows.net'' = None"
    by (simp add: ip_eval)
  then have ok: "validate_sas_url (\<lambda>_. Inr (''https'', Some ''a.blob.core.windows.net'')) ''https://a.blob.core.windows.net/c'' = Ok ()"
    by (simp add: validate_sas_url_def low Let_def is_private_or_link_local_def is_loopback_host_def
        ALLOWED_ENDPOINT_SUFFIXES_def bare_suffix_def to_ascii_lowercase_def ascii_lower_def byte_val_def
        ends_with_def starts_with_def)
  moreover have "\<not> (\<exists>a b c d. ''a.blob.core.windows.net'' = ipv4_text a b c d)"
    using sas_url_safe[OF ok] low by (simp add: Let_def)
  ultimately show ?thesis by blast
qed

text \<open>A literal IPv4 host in a private, link-local, shared, multicast or loopback range
  is recognised: for the dotted-quad text of any four octets the predicate answers exactly by
  the ranges of RFC 1918, RFC 3927, RFC 6598 and the special addresses.\<close>

theorem private_ipv4_recognised:
  assumes "a < 256" "b < 256" "c < 256" "d < 256"
  shows "is_private_or_link_local (ipv4_text a b c d) \<longleftrightarrow>
    a = 127 \<or> a = 10 \<or> (a = 169 \<and> b = 254) \<or> (a = 172 \<and> 16 \<le> b \<and> b \<le> 31) \<or> (a = 192 \<and> b = 168)
    \<or> (a = 100 \<and> 64 \<le> b \<and> b < 128) \<or> (224 \<le> a \<and> a \<le> 239)
    \<or> (a, b, c, d) = (0, 0, 0, 0) \<or> (a, b, c, d) = (255, 255, 255, 255)"
  unfolding is_private_or_link_local_def parse_ipv4_text[OF assms] by (simp add: Let_def) blast

theorem private_ipv4_recognised_witness:
  "is_private_or_link_local (ipv4_text 169 254 169 254) \<and> \<not> is_private_or_link_local (ipv4_text 20 60 1 1)"
  using private_ipv4_recognised[of 169 254 169 254] private_ipv4_recognised[of 20 60 1 1] by simp

end
