(* ===== verification/Glob.thy ===== *)
theory Glob
  imports Fdw_Error
begin

text \<open>
  \<^verbatim>\<open>src/fdw/glob.rs\<close>: the translation of a filename pattern into a listing prefix and an
  anchored regular expression.  The \<^verbatim>\<open>regex\<close> crate is a parameter \<open>regex_new\<close>: it returns its
  error text or the \<^verbatim>\<open>is_match\<close> function of the compiled expression.  What the code relies on is
  the locale \<open>regex_crate\<close>: for sources in the documented fragment that \<open>parse_rx\<close> reads (anchors,
  escaped and plain literals, \<^verbatim>\<open>[^/]\<close> and \<^verbatim>\<open>[^/]*\<close>), a compiled expression matches what the
  fragment's items denote.  The locale is interpreted on an engine for that fragment.

  The property is that the generated expression matches exactly the blob names the pattern
  denotes, and that each of them is in the listing of the prefix.
\<close>

section \<open>The translation\<close>

type_synonym regex = "string \<Rightarrow> bool"

record glob_pattern =
  prefix :: string
  regex :: regex

definition is_regex_meta :: "string \<Rightarrow> bool" where
  "is_regex_meta c \<longleftrightarrow> c \<in> set [''.'', ''+'', ''^'', ''$'', ''('', '')'', ''['', '']'', ''{'', ''}'', ''|'', [CHR 0x5C]]"

definition translate_char :: "string \<Rightarrow> string" where
  "translate_char c =
    (if c = ''*'' then ''[^/]*''
     else if c = ''?'' then ''[^/]''
     else if is_regex_meta c then CHR 0x5C # c
     else c)"

definition re_src :: "string \<Rightarrow> string" where
  "re_src pattern = ''^'' @ concat (map translate_char (chars pattern)) @ ''$''"

definition is_wild :: "char \<Rightarrow> bool" where
  "is_wild c \<longleftrightarrow> c = CHR ''*'' \<or> c = CHR ''?''"

definition parse_glob :: "(string \<Rightarrow> string + regex) \<Rightarrow> string \<Rightarrow> glob_pattern fdw_result" where
  "parse_glob regex_new pattern =
    (if pattern = [] then Err (InvalidOption ''filename is empty'')
     else if starts_with pattern ''/'' then Err (InvalidOption
       ''filename must be a blob name within the container, not an absolute path'')
     else if contains_str pattern ''..'' then Err (InvalidOption
       (''filename must not contain '' @ quoted ''..'' @ '' path segments''))
     else if contains_str pattern ''**'' then Err (InvalidOption
       (''recursive glob '' @ quoted ''**'' @ '' is not supported in v1''))
     else
      (let prfx = takeWhile (\<lambda>c. \<not> is_wild c) pattern in
       (case regex_new (re_src pattern) of
          Inl e \<Rightarrow> Err (InvalidOption (''invalid glob '' @ quoted pattern @ '': '' @ e))
        | Inr re \<Rightarrow> Ok \<lparr> prefix = prfx, regex = re \<rparr>)))"

section \<open>The fragment of regular expressions\<close>

datatype rx = RLit string | RNotSlash | RNotSlashStar

text \<open>The characters with a meaning of their own outside a bracketed class in the crate's documented syntax:
  they are no literals by themselves, and a backslash before one of them makes it one.  The list is the
  documentation's, not the code's.\<close>

definition rx_special :: "string \<Rightarrow> bool" where
  "rx_special c \<longleftrightarrow> c \<in> set [[CHR 0x5C], ''.'', ''+'', ''*'', ''?'', ''('', '')'', ''|'', ''['', '']'', ''{'', ''}'', ''^'', ''$'']"

fun parse_items :: "string list \<Rightarrow> rx list option" where
  "parse_items [] = None"
| "parse_items (c # cs) =
    (if c = ''$'' then (if cs = [] then Some [] else None)
     else if c = [CHR 0x5C] then
       (case cs of [] \<Rightarrow> None
        | d # ds \<Rightarrow> if rx_special d then map_option ((#) (RLit d)) (parse_items ds) else None)
     else if c = ''['' then
       (case cs of
          x # y # z # ds \<Rightarrow>
            if x = ''^'' \<and> y = ''/'' \<and> z = '']'' then
              (case ds of
                 w # es \<Rightarrow> if w = ''*'' then map_option ((#) RNotSlashStar) (parse_items es)
                           else map_option ((#) RNotSlash) (parse_items ds)
               | [] \<Rightarrow> None)
            else None
        | _ \<Rightarrow> None)
     else if rx_special c then None
     else map_option ((#) (RLit c)) (parse_items cs))"

fun parse_rx :: "string list \<Rightarrow> rx list option" where
  "parse_rx [] = None"
| "parse_rx (c # cs) = (if c = ''^'' then parse_items cs else None)"

fun rx_match :: "rx list \<Rightarrow> string list \<Rightarrow> bool" where
  "rx_match [] s \<longleftrightarrow> s = []"
| "rx_match (RLit c # r) s \<longleftrightarrow> (case s of [] \<Rightarrow> False | x # xs \<Rightarrow> x = c \<and> rx_match r xs)"
| "rx_match (RNotSlash # r) s \<longleftrightarrow> (case s of [] \<Rightarrow> False | x # xs \<Rightarrow> x \<noteq> ''/'' \<and> rx_match r xs)"
| "rx_match (RNotSlashStar # r) s \<longleftrightarrow>
    rx_match r s \<or> (case s of [] \<Rightarrow> False | x # xs \<Rightarrow> x \<noteq> ''/'' \<and> rx_match (RNotSlashStar # r) xs)"

locale regex_crate =
  fixes regex_new :: "string \<Rightarrow> string + regex"
  assumes fragment: "parse_rx (chars src) = Some r \<Longrightarrow> regex_new src = Inr m \<Longrightarrow> m s \<longleftrightarrow> rx_match r (chars s)"

definition fragment_engine :: "string \<Rightarrow> string + regex" where
  "fragment_engine src =
    (case parse_rx (chars src) of
       None \<Rightarrow> Inl ''unsupported''
     | Some r \<Rightarrow> Inr (\<lambda>s. rx_match r (chars s)))"

interpretation fe: regex_crate fragment_engine
  by unfold_locales (auto simp: fragment_engine_def)

section \<open>What a pattern denotes\<close>

definition item_matches :: "string \<Rightarrow> string list \<Rightarrow> bool" where
  "item_matches c w \<longleftrightarrow>
    (if c = ''*'' then ''/'' \<notin> set w
     else if c = ''?'' then (\<exists>x. w = [x] \<and> x \<noteq> ''/'')
     else w = [c])"

text \<open>A name matches when it can be cut into one piece per pattern character.\<close>

definition glob_matches :: "string \<Rightarrow> string \<Rightarrow> bool" where
  "glob_matches pattern name \<longleftrightarrow>
    (\<exists>ws. list_all2 item_matches (chars pattern) ws \<and> chars name = concat ws)"

definition item :: "string \<Rightarrow> rx" where
  "item c = (if c = ''*'' then RNotSlashStar else if c = ''?'' then RNotSlash else RLit c)"

lemma ex_append_Cons:
  "(\<exists>w t. x # xs = w @ t \<and> P w t) \<longleftrightarrow> P [] (x # xs) \<or> (\<exists>w t. xs = w @ t \<and> P (x # w) t)"
  (is "?l \<longleftrightarrow> ?r")
proof
  assume ?l then show ?r by (auto simp: Cons_eq_append_conv)
next
  assume ?r
  then show ?l by (metis append_Cons append_Nil)
qed

lemma rx_match_star:
  "rx_match (RNotSlashStar # r) s \<longleftrightarrow> (\<exists>w t. s = w @ t \<and> ''/'' \<notin> set w \<and> rx_match r t)"
proof (induction s)
  case (Cons x xs)
  then show ?case unfolding ex_append_Cons by auto
qed auto

lemma rx_match_item:
  "rx_match (item c # r) s \<longleftrightarrow> (\<exists>w t. s = w @ t \<and> item_matches c w \<and> rx_match r t)"
proof (cases "c = ''*''")
  case True
  then show ?thesis by (simp add: item_def item_matches_def rx_match_star del: rx_match.simps)
next
  case False
  show ?thesis
  proof (cases s)
    case (Cons x xs)
    show ?thesis using False unfolding Cons ex_append_Cons by (auto simp: item_def item_matches_def)
  qed (use False in \<open>auto simp: item_def item_matches_def\<close>)
qed

lemma rx_match_items:
  "rx_match (map item cs) s \<longleftrightarrow> (\<exists>ws. list_all2 item_matches cs ws \<and> s = concat ws)"
proof (induction cs arbitrary: s)
  case (Cons c cs)
  have "(\<exists>ws. list_all2 item_matches (c # cs) ws \<and> s = concat ws) \<longleftrightarrow>
    (\<exists>w t. s = w @ t \<and> item_matches c w \<and> (\<exists>ws. list_all2 item_matches cs ws \<and> t = concat ws))"
    unfolding list_all2_Cons1 by (metis concat.simps(2))
  then show ?case using rx_match_item[of c "map item cs" s] Cons.IH by simp
qed simp

section \<open>Code points of the generated source\<close>

definition is_char :: "string \<Rightarrow> bool" where
  "is_char c \<longleftrightarrow> c \<noteq> [] \<and> \<not> is_continuation (hd c) \<and> (\<forall>b \<in> set (tl c). is_continuation b)"

text \<open>What UTF-8 guarantees of every string: its code points start with no continuation byte and
  are one ASCII byte or contain none.\<close>

definition utf8_ok :: "string \<Rightarrow> bool" where
  "utf8_ok s \<longleftrightarrow> (\<forall>c \<in> set (chars s). is_char c \<and> (length c = 1 \<or> (\<forall>b \<in> set c. \<not> is_ascii b)))"

lemma chars_hd: "s \<noteq> [] \<Longrightarrow> \<exists>d ds. chars s = d # ds \<and> d \<noteq> [] \<and> hd d = hd s"
  by (cases s) (auto split: list.splits)

lemma chars_Cons:
  "chars (x # s) = (if s \<noteq> [] \<and> is_continuation (hd s) then (x # hd (chars s)) # tl (chars s)
                    else [x] # chars s)"
proof (cases "s = []")
  case False
  then obtain d ds where "chars s = d # ds" "d \<noteq> []" "hd d = hd s" using chars_hd by blast
  then show ?thesis using False by (cases d) auto
qed simp

lemma chars_append_char:
  assumes "s = [] \<or> \<not> is_continuation (hd s)" "c \<noteq> []" "\<forall>b \<in> set (tl c). is_continuation b"
  shows "chars (c @ s) = c # chars s"
  using assms(2,3)
proof (induction c)
  case (Cons x c)
  show ?case
  proof (cases c)
    case Nil
    then show ?thesis using assms(1) by (auto simp: chars_Cons simp del: chars.simps)
  next
    case (Cons y ys)
    then show ?thesis using Cons.IH Cons.prems
      by (auto simp: chars_Cons[of x] simp del: chars.simps)
  qed
qed simp

lemma chars_concat: "\<forall>c \<in> set cs. is_char c \<Longrightarrow> chars (concat cs) = cs"
proof (induction cs)
  case (Cons c cs)
  have "concat cs = [] \<or> \<not> is_continuation (hd (concat cs))"
    using Cons.prems by (cases cs) (auto simp: is_char_def hd_append)
  then show ?case using chars_append_char[of "concat cs" c] Cons by (simp add: is_char_def)
qed simp

definition tr :: "string \<Rightarrow> string list" where
  "tr c = (if c = ''*'' then [''['', ''^'', ''/'', '']'', ''*'']
           else if c = ''?'' then [''['', ''^'', ''/'', '']'']
           else if is_regex_meta c then [[CHR 0x5C], c] else [c])"

lemma concat_tr: "concat (tr c) = translate_char c"
  by (simp add: tr_def translate_char_def)

lemma concat_map_tr: "concat (concat (map tr cs)) = concat (map translate_char cs)"
  by (induction cs) (auto simp: concat_tr)

lemma chars_re_src:
  assumes "utf8_ok pattern"
  shows "chars (re_src pattern) = ''^'' # concat (map tr (chars pattern)) @ [''$'']"
proof -
  have lit: "is_char ''^''" "is_char ''$''" "is_char ''[''" "is_char ''/''" "is_char '']''" "is_char ''*''" "is_char [CHR 0x5C]"
    by (simp_all add: is_char_def is_continuation_def byte_val_def)
  have "\<forall>c \<in> set (''^'' # concat (map tr (chars pattern)) @ [''$'']). is_char c"
    using assms lit by (auto simp: utf8_ok_def tr_def split: if_splits)
  moreover have "concat (''^'' # concat (map tr (chars pattern)) @ [''$'']) = re_src pattern"
    by (simp add: re_src_def concat_map_tr)
  ultimately show ?thesis using chars_concat by metis
qed

text \<open>The translation escapes every character the crate would not read as a literal, and no other.\<close>

lemma rx_special_meta: "rx_special c \<longleftrightarrow> is_regex_meta c \<or> c = ''*'' \<or> c = ''?''"
  by (auto simp: rx_special_def is_regex_meta_def)

lemma parse_items_tr: "parse_items (concat (map tr cs) @ [''$'']) = Some (map item cs)"
proof (induction cs)
  case (Cons c cs)
  have nostar: "\<exists>w es. concat (map tr cs) @ [''$''] = w # es \<and> w \<noteq> ''*''"
    by (cases cs) (auto simp: tr_def)
  consider "c = ''*''" | "c = ''?''" | "c \<noteq> ''*''" "c \<noteq> ''?''" "is_regex_meta c"
    | "c \<noteq> ''*''" "c \<noteq> ''?''" "\<not> is_regex_meta c" by blast
  then show ?case
  proof cases
    case 1
    then have "tr c = [''['', ''^'', ''/'', '']'', ''*'']" "item c = RNotSlashStar" by (simp_all add: tr_def item_def)
    then show ?thesis using Cons.IH by simp
  next
    case 2
    then have "tr c = [''['', ''^'', ''/'', '']'']" "item c = RNotSlash" by (simp_all add: tr_def item_def)
    then show ?thesis using Cons.IH nostar by auto
  next
    case 3
    then have "tr c = [[CHR 0x5C], c]" "item c = RLit c" by (simp_all add: tr_def item_def)
    then show ?thesis using Cons.IH 3(3) by (simp add: rx_special_meta)
  next
    case 4
    then have "tr c = [c]" "item c = RLit c" "c \<noteq> ''$''" "c \<noteq> [CHR 0x5C]" "c \<noteq> ''[''"
      by (auto simp: is_regex_meta_def tr_def item_def)
    then show ?thesis using Cons.IH 4 by (simp add: rx_special_meta)
  qed
qed simp

lemma parse_rx_re_src: "utf8_ok p \<Longrightarrow> parse_rx (chars (re_src p)) = Some (map item (chars p))"
  by (simp add: chars_re_src parse_items_tr)

text \<open>The part of the pattern before the first wildcard is a prefix of every matching name.\<close>

lemma glob_prefix:
  assumes "\<forall>c \<in> set cs. is_char c \<and> (length c = 1 \<or> (\<forall>b \<in> set c. \<not> is_ascii b))"
    "list_all2 item_matches cs ws"
  shows "starts_with (concat (concat ws)) (takeWhile (\<lambda>c. \<not> is_wild c) (concat cs))"
  using assms
proof (induction cs arbitrary: ws)
  case (Cons c cs)
  obtain w ws' where ws: "ws = w # ws'" "item_matches c w" "list_all2 item_matches cs ws'"
    using Cons.prems(2) by (auto simp: list_all2_Cons1)
  show ?case
  proof (cases "c = ''*'' \<or> c = ''?''")
    case True
    then show ?thesis by (auto simp: is_wild_def)
  next
    case False
    then have "w = [c]" using ws(2) by (simp add: item_matches_def)
    moreover have "\<forall>b \<in> set c. \<not> is_wild b"
    proof (cases "length c = 1")
      case True
      then show ?thesis using False by (cases c) (auto simp: is_wild_def)
    next
      case f: False
      then have "\<forall>b \<in> set c. \<not> is_ascii b" using Cons.prems(1) by auto
      then show ?thesis by (auto simp: is_wild_def is_ascii_def byte_val_def)
    qed
    then have "takeWhile (\<lambda>c. \<not> is_wild c) (concat (c # cs)) = c @ takeWhile (\<lambda>c. \<not> is_wild c) (concat cs)"
      by (simp add: takeWhile_append2)
    ultimately show ?thesis using Cons.IH[of ws'] Cons.prems(1) ws by (auto simp: starts_with_iff)
  qed
qed simp

lemma parse_glob_Ok:
  assumes "parse_glob regex_new p = Ok g"
  shows "p \<noteq> [] \<and> hd p \<noteq> CHR ''/'' \<and> \<not> contains_str p ''..'' \<and> \<not> contains_str p ''**''"
    and "regex_new (re_src p) = Inr (regex g)" "prefix g = takeWhile (\<lambda>c. \<not> is_wild c) p"
  using assms by (cases p; auto simp: parse_glob_def Let_def starts_with_def split: if_splits sum.splits)+

context regex_crate
begin

lemma compiled_glob:
  assumes "utf8_ok p" "parse_glob regex_new p = Ok g"
  shows "regex g name \<longleftrightarrow> glob_matches p name"
  using fragment[OF parse_rx_re_src[OF assms(1)] parse_glob_Ok(2)[OF assms(2)]]
  by (simp add: rx_match_items glob_matches_def)

end

section \<open>Properties\<close>

text \<open>C24: a pattern that \<^verbatim>\<open>parse_glob\<close> accepts compiles to an expression that matches exactly
  the names the pattern denotes: each \<^verbatim>\<open>*\<close> stands for characters other than a slash, each
  \<^verbatim>\<open>?\<close> for one such character, and every other character, metacharacters of regular expressions
  included, for itself; and every such name starts with the prefix under which the container is
  listed, so the listing loses no match.\<close>

theorem glob_correct:
  assumes "regex_crate regex_new" "utf8_ok p" "parse_glob regex_new p = Ok g"
  shows "(\<forall>name. regex g name \<longleftrightarrow> glob_matches p name)
    \<and> (\<forall>name. glob_matches p name \<longrightarrow> starts_with name (prefix g))"
proof -
  have "starts_with name (prefix g)" if m: "glob_matches p name" for name
  proof -
    obtain ws where ws: "list_all2 item_matches (chars p) ws" "chars name = concat ws"
      using m by (auto simp: glob_matches_def)
    have "name = concat (concat ws)" using ws(2) concat_chars by metis
    then show ?thesis
      using glob_prefix[OF _ ws(1)] assms(2) parse_glob_Ok(3)[OF assms(3)] by (simp add: utf8_ok_def)
  qed
  then show ?thesis using regex_crate.compiled_glob[OF assms] by blast
qed

theorem glob_correct_witness:
  "\<exists>g. parse_glob fragment_engine ''d/a.*'' = Ok g \<and> prefix g = ''d/a.''
    \<and> (\<forall>name. regex g name \<longleftrightarrow> glob_matches ''d/a.*'' name)
    \<and> regex g ''d/a.pq'' \<and> \<not> regex g ''d/a.x/pq'' \<and> \<not> regex g ''d/aXpq''"
proof -
  let ?p = "''d/a.*''"
  have u: "utf8_ok ?p" by code_simp
  obtain g where g: "parse_glob fragment_engine ?p = Ok g"
    using parse_rx_re_src[OF u] by (simp add: parse_glob_def fragment_engine_def starts_with_def)
  have "prefix g = ''d/a.''" using parse_glob_Ok(3)[OF g] by (simp add: is_wild_def)
  moreover have re: "regex g = (\<lambda>s. rx_match (map item (chars ?p)) (chars s))"
    using parse_glob_Ok(2)[OF g] parse_rx_re_src[OF u] by (simp add: fragment_engine_def)
  have "regex g ''d/a.pq''" unfolding re by code_simp
  moreover have "\<not> regex g ''d/a.x/pq''" unfolding re by code_simp
  moreover have "\<not> regex g ''d/aXpq''" unfolding re by code_simp
  ultimately show ?thesis using glob_correct[OF fe.regex_crate_axioms u g] g by blast
qed

end
