(* ===== verification/Arrow_Data.thy ===== *)
theory Arrow_Data
  imports Fdw_Error
begin

text \<open>
  The Arrow data the extension reads and writes.  An array is a
  list of nullable values (\<open>cells\<close>) under a data type; a record batch is its schema, its
  columns and its row count.  The compute kernels of the arrow crate that the sources
  call (\<^verbatim>\<open>slice\<close>, \<^verbatim>\<open>concat\<close>, \<^verbatim>\<open>RecordBatch::try_new\<close>, \<^verbatim>\<open>filter_record_batch\<close>) are
  the fields of the record \<open>arrow_ops\<close>, which the definitions take as an argument; the
  locale \<open>arrow_compute\<close> states what their documentation promises, and is interpreted
  on \<open>list_arrow\<close>, which computes on the lists.

  Integers are \<^typ>\<open>int\<close> with the range of their type as an invariant; floats are bit
  patterns.
\<close>

section \<open>Data types and arrays\<close>

datatype time_unit = Second | Millisecond | Microsecond | Nanosecond

datatype data_type =
    Boolean | Int16 | Int32 | Int64 | Float32 | Float64 | Utf8 | LargeUtf8 | Binary | LargeBinary
  | Date32 | Timestamp time_unit "string option" | Decimal128 nat int | OtherType string

text \<open>A value of an array, whatever its type: \<open>CInt\<close> for the integer, date, timestamp
  and decimal arrays, \<open>CStr\<close> for the text and binary ones.\<close>

datatype cell = CBool bool | CInt int | CF32 "32 word" | CF64 "64 word" | CStr string

record arrow_array =
  data_type_of :: data_type
  cells :: "cell option list"

text \<open>The values a typed array can hold.\<close>

fun cell_ok :: "data_type \<Rightarrow> cell \<Rightarrow> bool" where
  "cell_ok Boolean (CBool b) = True"
| "cell_ok Int16 (CInt i) = (- (2 ^ 15) \<le> i \<and> i < 2 ^ 15)"
| "cell_ok Int32 (CInt i) = (- (2 ^ 31) \<le> i \<and> i < 2 ^ 31)"
| "cell_ok Int64 (CInt i) = (- (2 ^ 63) \<le> i \<and> i < 2 ^ 63)"
| "cell_ok Float32 (CF32 w) = True"
| "cell_ok Float64 (CF64 w) = True"
| "cell_ok Utf8 (CStr s) = True"
| "cell_ok LargeUtf8 (CStr s) = True"
| "cell_ok Binary (CStr s) = True"
| "cell_ok LargeBinary (CStr s) = True"
| "cell_ok Date32 (CInt i) = (- (2 ^ 31) \<le> i \<and> i < 2 ^ 31)"
| "cell_ok (Timestamp u tz) (CInt i) = (- (2 ^ 63) \<le> i \<and> i < 2 ^ 63)"
| "cell_ok (Decimal128 p s) (CInt i) = (- (2 ^ 127) \<le> i \<and> i < 2 ^ 127)"
| "cell_ok (OtherType n) c = True"
| "cell_ok _ _ = False"

definition wf_array :: "arrow_array \<Rightarrow> bool" where
  "wf_array a \<longleftrightarrow> list_all (\<lambda>c. case c of None \<Rightarrow> True | Some v \<Rightarrow> cell_ok (data_type_of a) v) (cells a)"

definition array_len :: "arrow_array \<Rightarrow> nat" where
  "array_len a = length (cells a)"

record field =
  field_name :: string
  field_type :: data_type
  nullable :: bool

type_synonym schema = "field list"

record record_batch =
  batch_schema :: schema
  columns :: "arrow_array list"
  num_rows :: nat

text \<open>The rows of a batch, each the list of its column values.\<close>

definition batch_rows :: "record_batch \<Rightarrow> cell option list list" where
  "batch_rows b = map (\<lambda>i. map (\<lambda>c. cells c ! i) (columns b)) [0..<num_rows b]"

text \<open>What \<^verbatim>\<open>RecordBatch::try_new\<close> checks: as many columns as fields, of the fields'
  types, all of one length, and no null in a column that is not nullable.\<close>

definition fits_schema :: "schema \<Rightarrow> arrow_array list \<Rightarrow> nat \<Rightarrow> bool" where
  "fits_schema sch cols n \<longleftrightarrow>
    length cols = length sch \<and> cols \<noteq> []
    \<and> list_all (\<lambda>c. array_len c = n) cols
    \<and> list_all2 (\<lambda>f c. data_type_of c = field_type f \<and> (nullable f \<or> None \<notin> set (cells c))) sch cols"

definition wf_batch :: "record_batch \<Rightarrow> bool" where
  "wf_batch b \<longleftrightarrow> fits_schema (batch_schema b) (columns b) (num_rows b)"

section \<open>The compute kernels\<close>

record arrow_ops =
  slice_op :: "arrow_array \<Rightarrow> nat \<Rightarrow> nat \<Rightarrow> arrow_array"
  concat_op :: "arrow_array list \<Rightarrow> string + arrow_array"
  try_new_op :: "schema \<Rightarrow> arrow_array list \<Rightarrow> string + record_batch"
  filter_op :: "record_batch \<Rightarrow> bool list \<Rightarrow> string + record_batch"

text \<open>\<^verbatim>\<open>FdwError::from\<close> on an error of the arrow crate.\<close>

fun arrow_result :: "string + 'a \<Rightarrow> 'a fdw_result" where
  "arrow_result (Inl e) = Err (Arrow e)"
| "arrow_result (Inr a) = Ok a"

definition keep_masked :: "bool list \<Rightarrow> 'a list \<Rightarrow> 'a list" where
  "keep_masked msk xs = map snd (filter fst (zip msk xs))"

locale arrow_compute =
  fixes A :: arrow_ops
  assumes slice: "off + n \<le> array_len a \<Longrightarrow>
      data_type_of (slice_op A a off n) = data_type_of a
      \<and> cells (slice_op A a off n) = take n (drop off (cells a))"
    and concat_ok: "as \<noteq> [] \<Longrightarrow> \<forall>a \<in> set as. data_type_of a = t \<Longrightarrow>
      \<exists>r. concat_op A as = Inr r \<and> data_type_of r = t \<and> cells r = concat (map cells as)"
    and try_new: "fits_schema sch cols n \<Longrightarrow>
      try_new_op A sch cols = Inr \<lparr> batch_schema = sch, columns = cols, num_rows = n \<rparr>"
    and try_new_err: "\<not> (\<exists>n. fits_schema sch cols n) \<Longrightarrow> \<exists>e. try_new_op A sch cols = Inl e"
    and filter_ok: "wf_batch b \<Longrightarrow> length msk = num_rows b \<Longrightarrow>
      \<exists>r. filter_op A b msk = Inr r \<and> wf_batch r \<and> batch_schema r = batch_schema b
        \<and> num_rows r = length (filter id msk)
        \<and> map cells (columns r) = map (\<lambda>c. keep_masked msk (cells c)) (columns b)"

text \<open>The kernels computed on the value lists.\<close>

definition list_slice :: "arrow_array \<Rightarrow> nat \<Rightarrow> nat \<Rightarrow> arrow_array" where
  "list_slice a off n = a \<lparr> cells := take n (drop off (cells a)) \<rparr>"

definition list_concat :: "arrow_array list \<Rightarrow> string + arrow_array" where
  "list_concat as =
    (case as of
       [] \<Rightarrow> Inl ''concat requires input of at least one array''
     | a # _ \<Rightarrow>
         if list_all (\<lambda>b. data_type_of b = data_type_of a) as
         then Inr \<lparr> data_type_of = data_type_of a, cells = concat (map cells as) \<rparr>
         else Inl ''It is not possible to concatenate arrays of different data types.'')"

definition list_try_new :: "schema \<Rightarrow> arrow_array list \<Rightarrow> string + record_batch" where
  "list_try_new sch cols =
    (case cols of
       [] \<Rightarrow> Inl ''must either specify a row count or at least one column''
     | c # _ \<Rightarrow>
         if fits_schema sch cols (array_len c)
         then Inr \<lparr> batch_schema = sch, columns = cols, num_rows = array_len c \<rparr>
         else Inl ''column types must match schema types'')"

definition list_filter :: "record_batch \<Rightarrow> bool list \<Rightarrow> string + record_batch" where
  "list_filter b msk =
    Inr (b \<lparr> columns := map (\<lambda>c. c \<lparr> cells := keep_masked msk (cells c) \<rparr>) (columns b),
             num_rows := length (filter id msk) \<rparr>)"

definition list_arrow :: arrow_ops where
  "list_arrow = \<lparr> slice_op = list_slice, concat_op = list_concat, try_new_op = list_try_new,
                  filter_op = list_filter \<rparr>"

section \<open>Lemmas\<close>

lemma length_keep_masked: "length msk = length xs \<Longrightarrow> length (keep_masked msk xs) = length (filter id msk)"
  by (induction msk xs rule: list_induct2) (auto simp: keep_masked_def)

lemma set_keep_masked: "set (keep_masked msk xs) \<subseteq> set xs"
  by (auto simp: keep_masked_def dest: set_zip_rightD)

lemma fits_schema_unique: "fits_schema sch cols n \<Longrightarrow> fits_schema sch cols m \<Longrightarrow> n = m"
  by (cases cols) (auto simp: fits_schema_def)

lemma list_filter_wf:
  assumes "wf_batch b" "length msk = num_rows b"
  shows "wf_batch (b \<lparr> columns := map (\<lambda>c. c \<lparr> cells := keep_masked msk (cells c) \<rparr>) (columns b),
      num_rows := length (filter id msk) \<rparr>)"
proof -
  have len: "length (cells c) = length msk" if "c \<in> set (columns b)" for c
    using assms that by (auto simp: wf_batch_def fits_schema_def list_all_iff array_len_def)
  have null: "None \<notin> set (keep_masked msk (cells c))" if "None \<notin> set (cells c)" for c :: arrow_array
    using that set_keep_masked[of msk "cells c"] by blast
  have "list_all (\<lambda>c. array_len c = length (filter id msk))
      (map (\<lambda>c. c \<lparr> cells := keep_masked msk (cells c) \<rparr>) (columns b))"
    using len by (auto simp: list_all_iff array_len_def length_keep_masked)
  moreover have "list_all2 (\<lambda>f c. data_type_of c = field_type f \<and> (nullable f \<or> None \<notin> set (cells c)))
      (batch_schema b) (map (\<lambda>c. c \<lparr> cells := keep_masked msk (cells c) \<rparr>) (columns b))"
    using assms(1) unfolding wf_batch_def fits_schema_def list_all2_map2
    by (auto elim!: list_all2_mono dest: null)
  ultimately show ?thesis using assms(1) by (simp add: wf_batch_def fits_schema_def)
qed

interpretation la: arrow_compute list_arrow
proof (unfold_locales, goal_cases)
  case (1 off n a)
  then show ?case by (simp add: list_arrow_def list_slice_def)
next
  case (2 as t)
  then show ?case by (cases as) (auto simp: list_arrow_def list_concat_def list_all_iff)
next
  case (3 sch cols n)
  then have "fits_schema sch cols (array_len (hd cols)) \<and> array_len (hd cols) = n"
    by (cases cols) (auto simp: fits_schema_def)
  with 3 show ?case
    by (cases cols) (auto simp: list_arrow_def list_try_new_def fits_schema_def)
next
  case (4 sch cols)
  then show ?case by (auto simp: list_arrow_def list_try_new_def split: list.splits)
next
  case (5 b msk)
  then show ?case using list_filter_wf[of b msk] by (simp add: list_arrow_def list_filter_def)
qed

end
