(* ===== verification/Binary_Heap.thy ===== *)
theory Binary_Heap
  imports Prelude
begin

text \<open>
  \<^verbatim>\<open>std::collections::BinaryHeap<Reverse<T>>\<close>, the priority queue of the K-way merge.
  The locale \<open>min_queue\<close> is the contract the merge relies on: an abstraction to a multiset
  of entries, and a pop that removes an entry of least key.  It is interpreted on the array
  heap of the standard library (\<^verbatim>\<open>push\<close> sifts up from the end; \<^verbatim>\<open>pop\<close> moves the last entry
  to the root, sifts it to the bottom and up again), with entries ordered by a key.
\<close>

section \<open>The contract\<close>

locale min_queue =
  fixes key :: "'a \<Rightarrow> 'k::linorder"
    and empty_q :: 'q
    and push_q :: "'a \<Rightarrow> 'q \<Rightarrow> 'q"
    and pop_q :: "'q \<Rightarrow> ('a \<times> 'q) option"
    and invar :: "'q \<Rightarrow> bool"
    and entries :: "'q \<Rightarrow> 'a multiset"
  assumes invar_empty: "invar empty_q"
    and entries_empty: "entries empty_q = {#}"
    and invar_push: "invar q \<Longrightarrow> invar (push_q x q)"
    and entries_push: "invar q \<Longrightarrow> entries (push_q x q) = add_mset x (entries q)"
    and pop_None: "invar q \<Longrightarrow> pop_q q = None \<longleftrightarrow> entries q = {#}"
    and pop_Some: "invar q \<Longrightarrow> pop_q q = Some (x, q') \<Longrightarrow>
      invar q' \<and> entries q = add_mset x (entries q') \<and> (\<forall>y \<in># entries q. key x \<le> key y)"
begin

lemma pop_least:
  assumes "invar q" "y \<in># entries q"
  obtains x q' where "pop_q q = Some (x, q')" "key x \<le> key y"
  using assms pop_None pop_Some by (metis empty_not_add_mset multi_member_split not_None_eq surj_pair)

end

section \<open>The array heap\<close>

definition swap_list :: "'a list \<Rightarrow> nat \<Rightarrow> nat \<Rightarrow> 'a list" where
  "swap_list xs i j = xs[i := xs ! j, j := xs ! i]"

definition parent :: "nat \<Rightarrow> nat" where
  "parent i = (i - 1) div 2"

lemma parent_less [termination_simp]: "0 < i \<Longrightarrow> parent i < i"
  by (simp add: parent_def)

text \<open>\<^verbatim>\<open>sift_up(0, pos)\<close>: move the entry at \<open>pos\<close> towards the root while it is smaller than
  its parent.\<close>

fun sift_up :: "('a \<Rightarrow> 'k::linorder) \<Rightarrow> 'a list \<Rightarrow> nat \<Rightarrow> 'a list" where
  "sift_up key xs pos =
    (if pos = 0 then xs
     else if key (xs ! parent pos) \<le> key (xs ! pos) then xs
     else sift_up key (swap_list xs (parent pos) pos) (parent pos))"

declare sift_up.simps [simp del]

text \<open>\<^verbatim>\<open>sift_down_to_bottom(pos)\<close>: move the entry at \<open>pos\<close> down along the smaller children
  (the right one on a tie) to a leaf, then sift it up.\<close>

function sift_down_to_bottom :: "('a \<Rightarrow> 'k::linorder) \<Rightarrow> 'a list \<Rightarrow> nat \<Rightarrow> 'a list" where
  "sift_down_to_bottom key xs pos =
    (let child = 2 * pos + 1
     in if child + 1 < length xs then
          let c = (if key (xs ! (child + 1)) \<le> key (xs ! child) then child + 1 else child)
          in sift_down_to_bottom key (swap_list xs pos c) c
        else if child + 1 = length xs then sift_up key (swap_list xs pos child) child
        else sift_up key xs pos)"
  by pat_completeness auto
termination
  by (relation "measure (\<lambda>(key, xs, pos). length xs - pos)") (auto simp: swap_list_def)

declare sift_down_to_bottom.simps [simp del]

definition heap_push :: "('a \<Rightarrow> 'k::linorder) \<Rightarrow> 'a \<Rightarrow> 'a list \<Rightarrow> 'a list" where
  "heap_push key x xs = sift_up key (xs @ [x]) (length xs)"

definition heap_pop :: "('a \<Rightarrow> 'k::linorder) \<Rightarrow> 'a list \<Rightarrow> ('a \<times> 'a list) option" where
  "heap_pop key xs =
    (if xs = [] then None
     else let item = last xs; data = butlast xs
          in if data = [] then Some (item, data)
             else Some (data ! 0, sift_down_to_bottom key (data[0 := item]) 0))"

section \<open>The heap order\<close>

text \<open>Every entry but the root is at least its parent; \<open>heap_but\<close> allows violations on the
  edges at \<open>pos\<close>, while the entry above \<open>pos\<close> is at most those below it.\<close>

definition heap_order :: "('a \<Rightarrow> 'k::linorder) \<Rightarrow> 'a list \<Rightarrow> bool" where
  "heap_order key xs \<longleftrightarrow> (\<forall>i. 0 < i \<longrightarrow> i < length xs \<longrightarrow> key (xs ! parent i) \<le> key (xs ! i))"

definition heap_but :: "('a \<Rightarrow> 'k::linorder) \<Rightarrow> 'a list \<Rightarrow> nat \<Rightarrow> bool" where
  "heap_but key xs pos \<longleftrightarrow>
    (\<forall>i. 0 < i \<longrightarrow> i < length xs \<longrightarrow> i \<noteq> pos \<longrightarrow> parent i \<noteq> pos \<longrightarrow> key (xs ! parent i) \<le> key (xs ! i))
    \<and> (\<forall>i. 0 < i \<longrightarrow> i < length xs \<longrightarrow> parent i = pos \<longrightarrow> 0 < pos \<longrightarrow> key (xs ! parent pos) \<le> key (xs ! i))"

lemma length_swap_list [simp]: "length (swap_list xs i j) = length xs"
  by (simp add: swap_list_def)

lemma nth_swap_list:
  "i < length xs \<Longrightarrow> j < length xs \<Longrightarrow> k < length xs \<Longrightarrow>
    swap_list xs i j ! k = (if k = j then xs ! i else if k = i then xs ! j else xs ! k)"
  by (auto simp: swap_list_def nth_list_update)

lemma mset_swap_list [simp]: "i < length xs \<Longrightarrow> j < length xs \<Longrightarrow> mset (swap_list xs i j) = mset xs"
  unfolding swap_list_def by (rule mset_swap)

lemma mset_sift_up: "pos < length xs \<Longrightarrow> mset (sift_up key xs pos) = mset xs"
proof (induction key xs pos rule: sift_up.induct)
  case (1 key xs pos)
  have "parent pos < length xs" using 1(2) by (simp add: parent_def)
  then show ?case
    using 1 by (subst sift_up.simps) (simp add: parent_def)
qed

lemma heap_but_pos: "heap_order key xs \<longleftrightarrow> heap_but key xs pos
    \<and> (0 < pos \<longrightarrow> pos < length xs \<longrightarrow> key (xs ! parent pos) \<le> key (xs ! pos))
    \<and> (\<forall>i. 0 < i \<longrightarrow> i < length xs \<longrightarrow> parent i = pos \<longrightarrow> key (xs ! pos) \<le> key (xs ! i))"
  (is "?L \<longleftrightarrow> ?R")
proof
  assume L: ?L
  have p: "key (xs ! parent pos) \<le> key (xs ! i)" if "0 < i" "i < length xs" "parent i = pos" "0 < pos" for i
  proof -
    have "pos < length xs" using that parent_less[of i] by simp
    then have "key (xs ! parent pos) \<le> key (xs ! pos)" using L that by (simp add: heap_order_def)
    also have "\<dots> \<le> key (xs ! i)" using L that by (auto simp: heap_order_def)
    finally show ?thesis .
  qed
  show ?R using L p unfolding heap_order_def heap_but_def by blast
next
  assume ?R
  then show ?L unfolding heap_order_def heap_but_def by metis
qed

lemma heap_sift_up:
  assumes "heap_but key xs pos" "pos < length xs"
    and "\<forall>i. 0 < i \<longrightarrow> i < length xs \<longrightarrow> parent i = pos \<longrightarrow> key (xs ! pos) \<le> key (xs ! i)"
  shows "heap_order key (sift_up key xs pos)"
  using assms
proof (induction key xs pos rule: sift_up.induct)
  case (1 key xs pos)
  show ?case
  proof (cases "pos = 0 \<or> key (xs ! parent pos) \<le> key (xs ! pos)")
    case True
    then have "sift_up key xs pos = xs" by (subst sift_up.simps) auto
    moreover have "heap_order key xs" using 1(2-4) True heap_but_pos by blast
    ultimately show ?thesis by simp
  next
    case False
    let ?p = "parent pos" and ?ys = "swap_list xs (parent pos) pos"
    have pp: "?p < pos" "?p < length xs" "0 < pos" using False 1(3) parent_less[of pos] by auto
    have less: "key (xs ! pos) < key (xs ! ?p)" using False by (simp add: not_le)
    have ys: "?ys ! k = (if k = pos then xs ! ?p else if k = ?p then xs ! pos else xs ! k)"
      if "k < length xs" for k
      using that pp 1(3) by (simp add: nth_swap_list)
    have hb: "\<And>i. 0 < i \<Longrightarrow> i < length xs \<Longrightarrow> i \<noteq> pos \<Longrightarrow> parent i \<noteq> pos \<Longrightarrow> key (xs ! parent i) \<le> key (xs ! i)"
      "\<And>i. 0 < i \<Longrightarrow> i < length xs \<Longrightarrow> parent i = pos \<Longrightarrow> key (xs ! ?p) \<le> key (xs ! i)"
      using 1(2) pp by (auto simp: heap_but_def)
    have "heap_but key ?ys ?p"
      unfolding heap_but_def
    proof (intro conjI allI impI)
      fix i assume i: "0 < i" "i < length ?ys" "i \<noteq> ?p" "parent i \<noteq> ?p"
      then have "i \<noteq> pos" by auto
      with i show "key (?ys ! parent i) \<le> key (?ys ! i)"
        using ys[of i] ys[of "parent i"] hb parent_less[of i] by (cases "parent i = pos") auto
    next
      fix i assume i: "0 < i" "i < length ?ys" "parent i = ?p" "0 < ?p"
      have g: "key (xs ! parent ?p) \<le> key (xs ! ?p)"
        using hb(1)[of ?p] i pp parent_less[of ?p] by auto
      have "parent ?p < length xs" "parent ?p \<noteq> pos" "parent ?p \<noteq> ?p"
        using pp parent_less[of ?p] i(4) by auto
      then have "key (?ys ! parent ?p) = key (xs ! parent ?p)" using ys by simp
      moreover have "key (xs ! parent ?p) \<le> key (?ys ! i)"
      proof (cases "i = pos")
        case True
        then show ?thesis using ys[of pos] g 1(3) by simp
      next
        case False
        moreover have "i \<noteq> ?p" using i parent_less[of i] by auto
        moreover have "key (xs ! ?p) \<le> key (xs ! i)"
          using hb(1)[of i] i False pp by auto
        ultimately show ?thesis using ys[of i] i g by auto
      qed
      ultimately show "key (?ys ! parent ?p) \<le> key (?ys ! i)" by simp
    qed
    moreover have "\<forall>i. 0 < i \<longrightarrow> i < length ?ys \<longrightarrow> parent i = ?p \<longrightarrow> key (?ys ! ?p) \<le> key (?ys ! i)"
    proof (intro allI impI)
      fix i assume i: "0 < i" "i < length ?ys" "parent i = ?p"
      have "i \<noteq> ?p" using i parent_less[of i] by auto
      moreover have "key (xs ! pos) \<le> key (xs ! i)" if "i \<noteq> pos"
        using hb(1)[of i] i that pp less by auto
      ultimately show "key (?ys ! ?p) \<le> key (?ys ! i)"
        using ys[of i] ys[of ?p] i pp less by auto
    qed
    ultimately have "heap_order key (sift_up key ?ys ?p)"
      using 1(1) False pp by auto
    then show ?thesis using False by (subst sift_up.simps) auto
  qed
qed

lemma children: "0 < i \<and> parent i = pos \<longleftrightarrow> i = 2 * pos + 1 \<or> i = 2 * pos + 2"
  by (auto simp: parent_def)

lemma heap_but_swap_child:
  assumes hb: "heap_but key xs pos" and c: "0 < c" "parent c = pos" "c < length xs"
    and least: "\<And>i. 0 < i \<Longrightarrow> i < length xs \<Longrightarrow> parent i = pos \<Longrightarrow> key (xs ! c) \<le> key (xs ! i)"
  shows "heap_but key (swap_list xs pos c) c"
proof -
  let ?ys = "swap_list xs pos c"
  have pc: "pos < c" "pos < length xs" using c parent_less[of c] by auto
  have ys: "?ys ! k = (if k = c then xs ! pos else if k = pos then xs ! c else xs ! k)"
    if "k < length xs" for k
    using that pc c by (simp add: nth_swap_list)
  have hb1: "\<And>i. 0 < i \<Longrightarrow> i < length xs \<Longrightarrow> i \<noteq> pos \<Longrightarrow> parent i \<noteq> pos \<Longrightarrow> key (xs ! parent i) \<le> key (xs ! i)"
    and hb2: "\<And>i. 0 < i \<Longrightarrow> i < length xs \<Longrightarrow> parent i = pos \<Longrightarrow> 0 < pos \<Longrightarrow> key (xs ! parent pos) \<le> key (xs ! i)"
    using hb by (auto simp: heap_but_def)
  show ?thesis
    unfolding heap_but_def
  proof (intro conjI allI impI)
    fix i assume i: "0 < i" "i < length ?ys" "i \<noteq> c" "parent i \<noteq> c"
    have pi: "parent i < length xs" using i parent_less[of i] by simp
    consider "i = pos" | "i \<noteq> pos" "parent i = pos" | "i \<noteq> pos" "parent i \<noteq> pos" by blast
    then show "key (?ys ! parent i) \<le> key (?ys ! i)"
    proof cases
      case 1
      then have "parent i \<noteq> pos" using i parent_less[of i] by auto
      then show ?thesis using 1 ys[of i] ys[of "parent i"] i pi hb2[OF c(1,3,2)] by simp
    next
      case 2
      then show ?thesis using ys[of i] ys[of "parent i"] i pi least[of i] by simp
    next
      case 3
      then show ?thesis using ys[of i] ys[of "parent i"] i pi hb1[of i] by simp
    qed
  next
    fix i assume i: "0 < i" "i < length ?ys" "parent i = c" "0 < c"
    have "i \<noteq> c" "i \<noteq> pos" using i pc parent_less[of i] by auto
    then show "key (?ys ! parent c) \<le> key (?ys ! i)"
      using ys[of i] ys[of pos] i c pc hb1[of i] by simp
  qed
qed

lemma sift_down_step:
  assumes "2 * pos + 1 + 1 < length xs"
    and "c = (if key (xs ! (2 * pos + 1 + 1)) \<le> key (xs ! (2 * pos + 1)) then 2 * pos + 1 + 1 else 2 * pos + 1)"
  shows "sift_down_to_bottom key xs pos = sift_down_to_bottom key (swap_list xs pos c) c"
  by (subst sift_down_to_bottom.simps) (simp only: Let_def assms if_True)

lemma heap_sift_down:
  assumes "heap_but key xs pos" "pos < length xs"
  shows "heap_order key (sift_down_to_bottom key xs pos)"
  using assms
proof (induction key xs pos rule: sift_down_to_bottom.induct)
  case (1 key xs pos)
  let ?child = "2 * pos + 1"
  consider "?child + 1 < length xs" | "?child + 1 = length xs" | "length xs < ?child + 1" by linarith
  then show ?case
  proof cases
    case 1
    define c where "c = (if key (xs ! (?child + 1)) \<le> key (xs ! ?child) then ?child + 1 else ?child)"
    have c: "0 < c" "parent c = pos" "c < length xs" using 1 by (auto simp: c_def parent_def)
    have "heap_but key (swap_list xs pos c) c"
    proof (rule heap_but_swap_child[OF "1.prems"(1) c])
      fix i assume "0 < i" "i < length xs" "parent i = pos"
      then have "i = ?child \<or> i = ?child + 1" using children[of i pos] by auto
      then show "key (xs ! c) \<le> key (xs ! i)" by (auto simp: c_def)
    qed
    then have "heap_order key (sift_down_to_bottom key (swap_list xs pos c) c)"
      using "1.IH"[OF refl 1 c_def] c by simp
    then show ?thesis using sift_down_step[OF 1 c_def] by simp
  next
    case 2
    have c: "0 < ?child" "parent ?child = pos" "?child < length xs" using 2 by (auto simp: parent_def)
    have only: "i = ?child" if "0 < i" "i < length xs" "parent i = pos" for i
      using that children[of i pos] 2 by auto
    have "heap_but key (swap_list xs pos ?child) ?child"
      by (rule heap_but_swap_child[OF "1.prems"(1) c]) (use only in auto)
    moreover have "\<not> (0 < i \<and> i < length xs \<and> parent i = ?child)" for i
      using children[of i ?child] 2 by auto
    ultimately have "heap_order key (sift_up key (swap_list xs pos ?child) ?child)"
      using c by (intro heap_sift_up) auto
    then show ?thesis using 2 by (subst sift_down_to_bottom.simps) (simp add: Let_def)
  next
    case 3
    have "\<not> (0 < i \<and> i < length xs \<and> parent i = pos)" for i
      using children[of i pos] 3 by auto
    then have "heap_order key (sift_up key xs pos)"
      using "1.prems" by (intro heap_sift_up) auto
    then show ?thesis using 3 by (subst sift_down_to_bottom.simps) (simp add: Let_def)
  qed
qed

lemma mset_sift_down: "pos < length xs \<Longrightarrow> mset (sift_down_to_bottom key xs pos) = mset xs"
proof (induction key xs pos rule: sift_down_to_bottom.induct)
  case (1 key xs pos)
  let ?child = "2 * pos + 1"
  define c where "c = (if key (xs ! (?child + 1)) \<le> key (xs ! ?child) then ?child + 1 else ?child)"
  show ?case
  proof (cases "?child + 1 < length xs")
    case True
    then have c: "c < length xs" by (simp add: c_def)
    have "mset (sift_down_to_bottom key (swap_list xs pos c) c) = mset (swap_list xs pos c)"
      using "1.IH"[OF refl True c_def] c by simp
    then show ?thesis using sift_down_step[OF True c_def] "1.prems" c by simp
  next
    case False
    then show ?thesis
      using "1.prems" by (subst sift_down_to_bottom.simps) (simp add: Let_def mset_sift_up)
  qed
qed

lemma heap_root_least:
  assumes "heap_order key xs" "i < length xs"
  shows "key (xs ! 0) \<le> key (xs ! i)"
  using assms(2)
proof (induction i rule: less_induct)
  case (less i)
  show ?case
  proof (cases "i = 0")
    case False
    then have "key (xs ! 0) \<le> key (xs ! parent i)" using less parent_less[of i] by auto
    also have "\<dots> \<le> key (xs ! i)" using assms(1) less False by (auto simp: heap_order_def)
    finally show ?thesis .
  qed simp
qed

section \<open>The array heap meets the contract\<close>

lemma heap_push_order:
  assumes "heap_order key xs"
  shows "heap_order key (heap_push key x xs)"
proof -
  have "heap_but key (xs @ [x]) (length xs)"
    unfolding heap_but_def
  proof (intro conjI allI impI)
    fix i assume i: "0 < i" "i < length (xs @ [x])" "i \<noteq> length xs" "parent i \<noteq> length xs"
    then have "i < length xs" "parent i < length xs" using parent_less[of i] by auto
    with i assms show "key ((xs @ [x]) ! parent i) \<le> key ((xs @ [x]) ! i)"
      by (simp add: nth_append heap_order_def)
  next
    fix i assume "0 < i" "i < length (xs @ [x])" "parent i = length xs"
    then show "key ((xs @ [x]) ! parent (length xs)) \<le> key ((xs @ [x]) ! i)"
      using parent_less[of i] by simp
  qed
  moreover have "\<not> (0 < i \<and> i < length (xs @ [x]) \<and> parent i = length xs)" for i
    using parent_less[of i] by auto
  ultimately show ?thesis
    unfolding heap_push_def by (intro heap_sift_up) auto
qed

lemma mset_heap_push: "mset (heap_push key x xs) = add_mset x (mset xs)"
  by (simp add: heap_push_def mset_sift_up)

lemma heap_pop_root:
  assumes "heap_pop key xs = Some (x, ys)"
  shows "x = xs ! 0"
    and "xs = [x] \<and> ys = []
      \<or> butlast xs \<noteq> [] \<and> ys = sift_down_to_bottom key ((butlast xs)[0 := last xs]) 0"
proof -
  have ne: "xs \<noteq> []" using assms by (auto simp: heap_pop_def)
  have xs: "xs = butlast xs @ [last xs]" using ne by simp
  have "x = xs ! 0 \<and> (xs = [x] \<and> ys = []
      \<or> butlast xs \<noteq> [] \<and> ys = sift_down_to_bottom key ((butlast xs)[0 := last xs]) 0)"
  proof (cases "butlast xs = []")
    case True
    then have "xs = [last xs]" using xs by simp
    moreover have "x = last xs" "ys = []" using True assms ne by (simp_all add: heap_pop_def)
    ultimately show ?thesis by (metis nth_Cons_0)
  next
    case False
    then have "0 < length (butlast xs)" by blast
    then have "butlast xs ! 0 = xs ! 0" by (rule nth_butlast)
    with False show ?thesis using assms ne by (simp add: heap_pop_def Let_def)
  qed
  then show "x = xs ! 0" and "xs = [x] \<and> ys = []
      \<or> butlast xs \<noteq> [] \<and> ys = sift_down_to_bottom key ((butlast xs)[0 := last xs]) 0" by blast+
qed

lemma mset_heap_pop:
  assumes "heap_pop key xs = Some (x, ys)"
  shows "mset xs = add_mset x (mset ys)"
proof (cases "butlast xs = []")
  case True
  then show ?thesis using heap_pop_root(2)[OF assms] by auto
next
  case False
  then obtain d ds where d: "butlast xs = d # ds" by (cases "butlast xs") auto
  then have "xs \<noteq> []" by auto
  then have xs: "mset xs = mset (butlast xs @ [last xs])" by simp
  have "0 < length (butlast xs)" unfolding d by simp
  then have "butlast xs ! 0 = xs ! 0" by (rule nth_butlast)
  then have "x = d" using heap_pop_root(1)[OF assms] unfolding d by simp
  moreover have "ys = sift_down_to_bottom key (last xs # ds) 0"
    using heap_pop_root(2)[OF assms] d by auto
  ultimately show ?thesis using xs by (simp add: mset_sift_down d)
qed

lemma heap_pop_Some:
  assumes "heap_order key xs" "heap_pop key xs = Some (x, ys)"
  shows "heap_order key ys \<and> mset xs = add_mset x (mset ys) \<and> (\<forall>y \<in># mset xs. key x \<le> key y)"
proof -
  have least: "\<forall>y \<in># mset xs. key x \<le> key y"
    using heap_root_least[OF assms(1)] heap_pop_root(1)[OF assms(2)] by (auto simp: in_set_conv_nth)
  have "heap_order key ys"
  proof (cases "butlast xs = []")
    case True
    then show ?thesis using heap_pop_root(2)[OF assms(2)] by (simp add: heap_order_def)
  next
    case False
    define ds where "ds = (butlast xs)[0 := last xs]"
    have "0 < length (butlast xs)" using False by blast
    then have len: "0 < length ds" unfolding ds_def length_list_update .
    have "heap_but key ds 0"
      unfolding heap_but_def
    proof (intro conjI allI impI)
      fix i assume i: "0 < i" "i < length ds" "i \<noteq> 0" "parent i \<noteq> 0"
      then have "i < length (butlast xs)" "parent i < length (butlast xs)"
        using parent_less[of i] by (auto simp: ds_def)
      moreover have "key (xs ! parent i) \<le> key (xs ! i)"
        using assms(1) i by (auto simp: heap_order_def ds_def)
      ultimately show "key (ds ! parent i) \<le> key (ds ! i)"
        using i by (simp add: ds_def nth_butlast)
    qed simp
    then have "heap_order key (sift_down_to_bottom key ds 0)" using len by (rule heap_sift_down)
    then show ?thesis using heap_pop_root(2)[OF assms(2)] False by (auto simp: ds_def)
  qed
  with least mset_heap_pop[OF assms(2)] show ?thesis by blast
qed

interpretation heap: min_queue key "[]" "heap_push key" "heap_pop key" "heap_order key" mset
  for key :: "'a \<Rightarrow> 'k::linorder"
proof (unfold_locales, goal_cases)
  case 1
  show ?case by (simp add: heap_order_def)
next
  case 2
  show ?case by simp
next
  case 3
  then show ?case by (rule heap_push_order)
next
  case 4
  show ?case by (rule mset_heap_push)
next
  case 5
  show ?case by (simp add: heap_pop_def Let_def)
next
  case 6
  then show ?case by (rule heap_pop_Some)
qed

end
