(* ===== verification/Multifile.thy ===== *)
theory Multifile
  imports Arrow_Data Binary_Heap "HOL-Library.List_Lexorder" "HOL-Library.Char_ord"
    "HOL-Library.Product_Lexorder"
begin

text \<open>
  The K-way merge of sorted parquet streams, \<^verbatim>\<open>src/parquet_io/multifile.rs\<close>.  A stream is
  the list of the items it has still to yield, a batch or an error.  Keys are compared as
  \<^verbatim>\<open>Ord for SortKeyValue\<close> does (discriminant first, then value, \<^verbatim>\<open>f64::total_cmp\<close> on the bit
  pattern) and key tuples lexicographically; the heap is the array heap of \<open>Binary_Heap\<close>
  ordered by the key.  \<open>merge_all\<close> drains a merger; the lemmas show that what it emits is
  sorted and complete, and that it fails exactly when some file is out of order.
\<close>

section \<open>Float comparison\<close>

text \<open>\<^verbatim>\<open>f64::total_cmp\<close> compares the bits as signed integers after flipping the magnitude
  bits of negative numbers.\<close>

unbundle bit_operations_syntax

definition total_key :: "64 word \<Rightarrow> int" where
  "total_key w = (if sint w < 0 then sint (w XOR 0x7FFFFFFFFFFFFFFF) else sint w)"

text \<open>The widening \<^verbatim>\<open>f32 as f64\<close> on bit patterns: normal, subnormal, zero, infinite and NaN
  inputs (a NaN is made quiet).\<close>

definition f32_to_f64 :: "32 word \<Rightarrow> 64 word" where
  "f32_to_f64 w =
    (let n = unat w; sign = n div 2 ^ 31; e = (n div 2 ^ 23) mod 2 ^ 8; m = n mod 2 ^ 23;
         bits = (if e = 255 then
                   (if m = 0 then 2047 * 2 ^ 52
                    else 2047 * 2 ^ 52 + (if m < 2 ^ 22 then m + 2 ^ 22 else m) * 2 ^ 29)
                 else if e = 0 then
                   (if m = 0 then 0
                    else let k = length (takeWhile (\<lambda>j. 2 ^ Suc j \<le> m) [0..<23])
                         in (k + 874) * 2 ^ 52 + (m - 2 ^ k) * 2 ^ (52 - k))
                 else (e + 896) * 2 ^ 52 + m * 2 ^ 29)
     in of_nat (sign * 2 ^ 63 + bits))"

section \<open>Sort keys\<close>

datatype sort_key_value =
    KNull
  | KI64 int
  | KF64 "64 word"
  | KUtf8 string
  | KDate32 int
  | KTimestampMicros int

datatype ordering = Less | Equal | Greater

definition cmp :: "'a::linorder \<Rightarrow> 'a \<Rightarrow> ordering" where
  "cmp a b = (if a < b then Less else if a = b then Equal else Greater)"

fun discriminant :: "sort_key_value \<Rightarrow> nat" where
  "discriminant (KI64 _) = 0"
| "discriminant (KF64 _) = 1"
| "discriminant (KUtf8 _) = 2"
| "discriminant (KDate32 _) = 3"
| "discriminant (KTimestampMicros _) = 4"
| "discriminant KNull = 5"

definition sort_key_cmp :: "sort_key_value \<Rightarrow> sort_key_value \<Rightarrow> ordering" where
  "sort_key_cmp a b =
    (case cmp (discriminant a) (discriminant b) of
       Equal \<Rightarrow>
         (case (a, b) of
            (KI64 x, KI64 y) \<Rightarrow> cmp x y
          | (KF64 x, KF64 y) \<Rightarrow> cmp (total_key x) (total_key y)
          | (KUtf8 x, KUtf8 y) \<Rightarrow> cmp x y
          | (KDate32 x, KDate32 y) \<Rightarrow> cmp x y
          | (KTimestampMicros x, KTimestampMicros y) \<Rightarrow> cmp x y
          | _ \<Rightarrow> Equal)
     | ord \<Rightarrow> ord)"

text \<open>The same order read off a tuple, from which its laws follow.\<close>

fun sort_key_rank :: "sort_key_value \<Rightarrow> nat \<times> int \<times> string" where
  "sort_key_rank (KI64 i) = (0, i, [])"
| "sort_key_rank (KF64 w) = (1, total_key w, [])"
| "sort_key_rank (KUtf8 s) = (2, 0, s)"
| "sort_key_rank (KDate32 i) = (3, i, [])"
| "sort_key_rank (KTimestampMicros i) = (4, i, [])"
| "sort_key_rank KNull = (5, 0, [])"

lemma total_key_inject: "total_key v = total_key w \<longleftrightarrow> v = w"
proof
  have flip: "sint (u XOR 0x7FFFFFFFFFFFFFFF) < 0 \<longleftrightarrow> sint u < 0" for u :: "64 word"
  proof -
    have m: "(0x7FFFFFFFFFFFFFFF :: 64 word) = mask 63" by (simp add: mask_eq_exp_minus_1)
    have "sint (u XOR mask 63) < 0 \<longleftrightarrow> bit (u XOR mask 63) 63" by (simp add: bit_last_iff[symmetric])
    also have "\<dots> \<longleftrightarrow> bit u 63" by (simp add: bit_xor_iff bit_mask_iff)
    also have "\<dots> \<longleftrightarrow> sint u < 0" by (simp add: bit_last_iff[symmetric])
    finally show ?thesis unfolding m .
  qed
  assume "total_key v = total_key w"
  then have c: "v XOR 0x7FFFFFFFFFFFFFFF = w XOR 0x7FFFFFFFFFFFFFFF \<or> v = w"
    using flip[of v] flip[of w] by (auto simp: total_key_def split: if_splits dest: signed_word_eqI)
  have "u = (u XOR 0x7FFFFFFFFFFFFFFF) XOR 0x7FFFFFFFFFFFFFFF" for u :: "64 word"
    unfolding xor.assoc by simp
  with c show "v = w" by metis
qed simp

lemma sort_key_rank_inject: "sort_key_rank a = sort_key_rank b \<longleftrightarrow> a = b"
  by (cases a; cases b) (auto simp: total_key_inject)

lemma sort_key_cmp_rank: "sort_key_cmp a b = cmp (sort_key_rank a) (sort_key_rank b)"
  by (cases a; cases b) (auto simp: sort_key_cmp_def cmp_def)

instantiation sort_key_value :: linorder
begin

definition less_eq_sort_key_value :: "sort_key_value \<Rightarrow> sort_key_value \<Rightarrow> bool" where
  "a \<le> b \<longleftrightarrow> sort_key_cmp a b \<noteq> Greater"

definition less_sort_key_value :: "sort_key_value \<Rightarrow> sort_key_value \<Rightarrow> bool" where
  "a < b \<longleftrightarrow> sort_key_cmp a b = Less"

lemma sort_key_le_rank: "a \<le> b \<longleftrightarrow> sort_key_rank a \<le> sort_key_rank b"
  by (auto simp: less_eq_sort_key_value_def sort_key_cmp_rank cmp_def)

lemma sort_key_less_rank: "a < b \<longleftrightarrow> sort_key_rank a < sort_key_rank b"
  by (auto simp: less_sort_key_value_def sort_key_cmp_rank cmp_def)

instance
proof
  fix x y z :: sort_key_value
  show "x < y \<longleftrightarrow> x \<le> y \<and> \<not> y \<le> x" by (simp add: sort_key_le_rank sort_key_less_rank less_le_not_le)
  show "x \<le> y \<or> y \<le> x" by (simp add: sort_key_le_rank linear)
  show "x \<le> y \<Longrightarrow> y \<le> x \<Longrightarrow> x = y" by (metis antisym sort_key_le_rank sort_key_rank_inject)
qed (auto simp: sort_key_le_rank)

end

text \<open>Nulls sort last.\<close>

lemma KNull_greatest: "k \<le> KNull"
  by (cases k) (auto simp: sort_key_le_rank)


section \<open>Reading keys\<close>

text \<open>\<^verbatim>\<open>col.is_null(row)\<close> and \<^verbatim>\<open>value(row)\<close>: the cell, or the panic of an index out of range.\<close>

definition col_cell :: "arrow_array \<Rightarrow> nat \<Rightarrow> cell option fdw_result" where
  "col_cell col row =
    (if row < length (cells col) then Ok (cells col ! row) else Err (Panic ''index out of bounds''))"

text \<open>\<^verbatim>\<open>downcast_ref::<..>().unwrap().value(row)\<close> by the kind of value it yields.\<close>

definition downcast_failed :: fdw_error where
  "downcast_failed = Panic ''called Option::unwrap() on a None value''"

fun int_key :: "(int \<Rightarrow> sort_key_value) \<Rightarrow> cell \<Rightarrow> sort_key_value fdw_result" where
  "int_key k (CInt i) = Ok (k i)"
| "int_key k _ = Err downcast_failed"

fun f32_key :: "cell \<Rightarrow> sort_key_value fdw_result" where
  "f32_key (CF32 w) = Ok (KF64 (f32_to_f64 w))"
| "f32_key _ = Err downcast_failed"

fun f64_key :: "cell \<Rightarrow> sort_key_value fdw_result" where
  "f64_key (CF64 w) = Ok (KF64 w)"
| "f64_key _ = Err downcast_failed"

fun str_key :: "cell \<Rightarrow> sort_key_value fdw_result" where
  "str_key (CStr s) = Ok (KUtf8 s)"
| "str_key _ = Err downcast_failed"

record debug_fmt =
  type_dbg :: "data_type \<Rightarrow> string"
  key_dbg :: "sort_key_value list \<Rightarrow> string"

definition extract_sort_key :: "debug_fmt \<Rightarrow> arrow_array \<Rightarrow> nat \<Rightarrow> sort_key_value fdw_result" where
  "extract_sort_key D col row =
    and_then (col_cell col row)
      (\<lambda>c. case c of
             None \<Rightarrow> Ok KNull
           | Some v \<Rightarrow>
               (case data_type_of col of
                  Int16 \<Rightarrow> int_key KI64 v
                | Int32 \<Rightarrow> int_key KI64 v
                | Int64 \<Rightarrow> int_key KI64 v
                | Float32 \<Rightarrow> f32_key v
                | Float64 \<Rightarrow> f64_key v
                | Utf8 \<Rightarrow> str_key v
                | LargeUtf8 \<Rightarrow> str_key v
                | Date32 \<Rightarrow> int_key KDate32 v
                | Timestamp u tz \<Rightarrow>
                    if u = Microsecond \<and> tz = None then int_key KTimestampMicros v
                    else Err (SchemaMismatch
                      (''sort col type '' @ type_dbg D (data_type_of col) @ '' not supported in v1''))
                | other \<Rightarrow> Err (SchemaMismatch
                      (''sort col type '' @ type_dbg D (data_type_of col) @ '' not supported in v1''))))"

definition build_key :: "debug_fmt \<Rightarrow> record_batch \<Rightarrow> nat \<Rightarrow> nat list \<Rightarrow> sort_key_value list fdw_result" where
  "build_key D batch row sort_col_indices =
    try_map (\<lambda>col_idx.
        if col_idx < length (columns batch) then extract_sort_key D (columns batch ! col_idx) row
        else Err (Panic ''index out of bounds''))
      sort_col_indices"

section \<open>The merger\<close>

record heap_entry =
  entry_key :: "sort_key_value list"
  source_idx :: nat
  entry_batch :: record_batch
  row_in_batch :: nat

type_synonym parquet_stream = "(string + record_batch) list"

record merger =
  streams :: "parquet_stream option list"
  blob_names :: "string list"
  sort_col_indices :: "nat list"
  heap :: "heap_entry list"
  last_emitted :: "sort_key_value list option"

text \<open>The pull loop of \<^verbatim>\<open>new\<close> and of \<^verbatim>\<open>next_row\<close>: the next batch with a row, if any, and the
  stream after it.\<close>

fun next_non_empty :: "parquet_stream \<Rightarrow> (record_batch option \<times> parquet_stream) fdw_result" where
  "next_non_empty [] = Ok (None, [])"
| "next_non_empty (Inl e # rest) = Err (Parquet e)"
| "next_non_empty (Inr batch # rest) =
    (if num_rows batch > 0 then Ok (Some batch, rest) else next_non_empty rest)"

fun seed_heap ::
  "debug_fmt \<Rightarrow> nat list \<Rightarrow> nat \<Rightarrow> parquet_stream list \<Rightarrow> heap_entry list \<Rightarrow>
    (parquet_stream list \<times> heap_entry list) fdw_result"
where
  "seed_heap D idxs i [] h = Ok ([], h)"
| "seed_heap D idxs i (s # ss) h =
    and_then (next_non_empty s)
      (\<lambda>(b, s').
         and_then
           (case b of
              None \<Rightarrow> Ok h
            | Some batch \<Rightarrow>
                and_then (build_key D batch 0 idxs)
                  (\<lambda>key. Ok (heap_push entry_key
                     \<lparr> entry_key = key, source_idx = i, entry_batch = batch, row_in_batch = 0 \<rparr> h)))
           (\<lambda>h'. and_then (seed_heap D idxs (i + 1) ss h') (\<lambda>(ss', h''). Ok (s' # ss', h''))))"

definition merger_new ::
  "debug_fmt \<Rightarrow> parquet_stream list \<Rightarrow> string list \<Rightarrow> nat list \<Rightarrow> merger fdw_result"
where
  "merger_new D strs names idxs =
    (if length strs > 256 then
       Err (SchemaMismatch
         (''sorted-merge cannot open '' @ show_nat (length strs) @ '' blobs at once (cap 256) ''
          @ [CHR 0xE2, CHR 0x80, CHR 0x94] @ '' narrow the filename glob or partition filter''))
     else if length strs \<noteq> length names then
       Err (SchemaMismatch ''streams.len() != blob_names.len()'')
     else
       and_then (seed_heap D idxs 0 strs [])
         (\<lambda>(strs', h).
            Ok \<lparr> streams = map Some strs', blob_names = names, sort_col_indices = idxs, heap = h,
                 last_emitted = None \<rparr>))"

text \<open>The source of the entry just emitted is advanced: its next row, or the first row of its
  next batch, goes on the heap.\<close>

definition advance_source :: "debug_fmt \<Rightarrow> heap_entry \<Rightarrow> merger \<Rightarrow> merger fdw_result" where
  "advance_source D e st =
    (let src = source_idx e; next = row_in_batch e + 1
     in if next < num_rows (entry_batch e) then
          and_then (build_key D (entry_batch e) next (sort_col_indices st))
            (\<lambda>key. Ok (st \<lparr> heap := heap_push entry_key
                \<lparr> entry_key = key, source_idx = src, entry_batch = entry_batch e, row_in_batch = next \<rparr>
                (heap st) \<rparr>))
        else if \<not> src < length (streams st) then Err (Panic ''index out of bounds'')
        else
          (case streams st ! src of
             None \<Rightarrow> Err (SchemaMismatch (''stream '' @ show_nat src @ '' unexpectedly absent''))
           | Some s \<Rightarrow>
               and_then (next_non_empty s)
                 (\<lambda>(b, s').
                    (case b of
                       Some batch \<Rightarrow>
                         and_then (build_key D batch 0 (sort_col_indices st))
                           (\<lambda>key. Ok (st \<lparr> streams := (streams st)[src := Some s'],
                              heap := heap_push entry_key
                                \<lparr> entry_key = key, source_idx = src, entry_batch = batch, row_in_batch = 0 \<rparr>
                                (heap st) \<rparr>))
                     | None \<Rightarrow> Ok (st \<lparr> streams := (streams st)[src := None] \<rparr>)))))"

definition next_row :: "debug_fmt \<Rightarrow> merger \<Rightarrow> ((record_batch \<times> nat) option \<times> merger) fdw_result" where
  "next_row D st =
    (case heap_pop entry_key (heap st) of
       None \<Rightarrow> Ok (None, st)
     | Some (e, h) \<Rightarrow>
         (case last_emitted st of
            Some prev \<Rightarrow>
              if entry_key e < prev then
                if source_idx e < length (blob_names st) then
                  Err (SchemaMismatch
                    (''blob '' @ [CHR 0x27] @ blob_names st ! source_idx e @ [CHR 0x27]
                     @ '' violates sorted-merge precondition: row key '' @ key_dbg D (entry_key e)
                     @ '' < previous '' @ key_dbg D prev))
                else Err (Panic ''index out of bounds'')
              else
                and_then (advance_source D e (st \<lparr> heap := h, last_emitted := Some (entry_key e) \<rparr>))
                  (\<lambda>st'. Ok (Some (entry_batch e, row_in_batch e), st'))
          | None \<Rightarrow>
              and_then (advance_source D e (st \<lparr> heap := h, last_emitted := Some (entry_key e) \<rparr>))
                (\<lambda>st'. Ok (Some (entry_batch e, row_in_batch e), st'))))"

text \<open>The number of rows and stream items still to be read bounds the calls of \<open>next_row\<close>.\<close>

definition stream_weight :: "parquet_stream \<Rightarrow> nat" where
  "stream_weight s = sum_list (map (\<lambda>i. case i of Inl _ \<Rightarrow> 2 | Inr b \<Rightarrow> num_rows b + 2) s)"

definition merger_weight :: "merger \<Rightarrow> nat" where
  "merger_weight st =
    (\<Sum>e \<in># mset (heap st). Suc (num_rows (entry_batch e) - row_in_batch e))
    + sum_list (map (\<lambda>s. case s of None \<Rightarrow> 0 | Some s \<Rightarrow> stream_weight s) (streams st))"

lemma next_non_empty_weight:
  "next_non_empty s = Ok (Some b, s') \<Longrightarrow> stream_weight s' + num_rows b + 2 \<le> stream_weight s"
  by (induction s rule: next_non_empty.induct) (auto simp: stream_weight_def split: if_splits)

lemma sum_list_update_le:
  fixes f :: "'a \<Rightarrow> nat"
  assumes "i < length xs" "f y + k \<le> f (xs ! i)"
  shows "sum_list (map f (xs[i := y])) + k \<le> sum_list (map f xs)"
  using assms
proof (induction xs arbitrary: i)
  case (Cons x xs)
  show ?case
  proof (cases i)
    case 0
    with Cons.prems show ?thesis by simp
  next
    case (Suc j)
    with Cons.IH[of j] Cons.prems show ?thesis by simp
  qed
qed simp

lemma advance_source_weight:
  assumes "advance_source D e st = Ok st'"
  shows "merger_weight st' < merger_weight st + Suc (num_rows (entry_batch e) - row_in_batch e)"
proof (cases "row_in_batch e + 1 < num_rows (entry_batch e)")
  case True
  then show ?thesis
    using assms by (auto simp: advance_source_def Let_def result_simps merger_weight_def mset_heap_push)
next
  case False
  let ?src = "source_idx e"
  obtain s b s' where s: "?src < length (streams st)" "streams st ! ?src = Some s"
    and nb: "next_non_empty s = Ok (b, s')"
    using assms False by (auto simp: advance_source_def Let_def result_simps split: if_splits option.splits)
  let ?w = "\<lambda>s. case s of None \<Rightarrow> 0 | Some s \<Rightarrow> stream_weight s"
  show ?thesis
  proof (cases b)
    case None
    then have "st' = st \<lparr> streams := (streams st)[?src := None] \<rparr>"
      using assms False s nb by (simp add: advance_source_def Let_def)
    moreover have "sum_list (map ?w ((streams st)[?src := None])) + 0 \<le> sum_list (map ?w (streams st))"
      using s by (intro sum_list_update_le) auto
    ultimately show ?thesis by (simp add: merger_weight_def)
  next
    case (Some batch)
    then obtain key where "st' = st \<lparr> streams := (streams st)[?src := Some s'],
        heap := heap_push entry_key
          \<lparr> entry_key = key, source_idx = ?src, entry_batch = batch, row_in_batch = 0 \<rparr> (heap st) \<rparr>"
      using assms False s nb by (auto simp: advance_source_def Let_def result_simps)
    moreover have "sum_list (map ?w ((streams st)[?src := Some s'])) + (num_rows batch + 2) \<le> sum_list (map ?w (streams st))"
      using s next_non_empty_weight[of s batch s'] nb Some by (intro sum_list_update_le) auto
    ultimately show ?thesis by (simp add: merger_weight_def mset_heap_push)
  qed
qed

lemma next_row_weight:
  assumes "next_row D st = Ok (Some r, st')"
  shows "merger_weight st' < merger_weight st"
proof -
  obtain e h where e: "heap_pop entry_key (heap st) = Some (e, h)"
    and adv: "advance_source D e (st \<lparr> heap := h, last_emitted := Some (entry_key e) \<rparr>) = Ok st'"
    using assms by (auto simp: next_row_def result_simps split: option.splits if_splits prod.splits)
  have "mset (heap st) = add_mset e (mset h)" using e by (rule mset_heap_pop)
  with advance_source_weight[OF adv] show ?thesis by (simp add: merger_weight_def)
qed

text \<open>Draining the merger: the rows in the order they are returned, and the error that stopped
  it, if one did.\<close>

function merge_all :: "debug_fmt \<Rightarrow> merger \<Rightarrow> (record_batch \<times> nat) list \<times> fdw_error option" where
  "merge_all D st =
    (case next_row D st of
       Inl e \<Rightarrow> ([], Some e)
     | Inr (None, st') \<Rightarrow> ([], None)
     | Inr (Some r, st') \<Rightarrow> (case merge_all D st' of (rs, e) \<Rightarrow> (r # rs, e)))"
  by pat_completeness auto
termination
  by (relation "measure (\<lambda>(D, st). merger_weight st)") (auto dest: next_row_weight)

declare merge_all.simps [simp del]

section \<open>What is left of each source\<close>

definition stream_rows :: "parquet_stream \<Rightarrow> (record_batch \<times> nat) list" where
  "stream_rows s = concat (map (\<lambda>i. case i of Inl _ \<Rightarrow> [] | Inr b \<Rightarrow> map (Pair b) [0..<num_rows b]) s)"

definition entry_rows :: "heap_entry \<Rightarrow> (record_batch \<times> nat) list" where
  "entry_rows e = map (Pair (entry_batch e)) [row_in_batch e..<num_rows (entry_batch e)]"

definition stream_tail :: "merger \<Rightarrow> nat \<Rightarrow> (record_batch \<times> nat) list" where
  "stream_tail st i = (case streams st ! i of None \<Rightarrow> [] | Some s \<Rightarrow> stream_rows s)"

definition pending :: "merger \<Rightarrow> nat \<Rightarrow> (record_batch \<times> nat) list" where
  "pending st i = concat (map entry_rows (filter (\<lambda>e. source_idx e = i) (heap st))) @ stream_tail st i"

definition row_key :: "debug_fmt \<Rightarrow> nat list \<Rightarrow> record_batch \<times> nat \<Rightarrow> sort_key_value list" where
  "row_key D idxs r = (case build_key D (fst r) (snd r) idxs of Inr k \<Rightarrow> k | Inl _ \<Rightarrow> [])"

definition batch_keys_ok :: "debug_fmt \<Rightarrow> nat list \<Rightarrow> record_batch \<Rightarrow> bool" where
  "batch_keys_ok D idxs b \<longleftrightarrow> (\<forall>r < num_rows b. is_ok (build_key D b r idxs))"

definition stream_ok :: "debug_fmt \<Rightarrow> nat list \<Rightarrow> parquet_stream \<Rightarrow> bool" where
  "stream_ok D idxs s \<longleftrightarrow> list_all (\<lambda>i. case i of Inl _ \<Rightarrow> False | Inr b \<Rightarrow> batch_keys_ok D idxs b) s"

definition entry_ok :: "debug_fmt \<Rightarrow> merger \<Rightarrow> heap_entry \<Rightarrow> bool" where
  "entry_ok D st e \<longleftrightarrow> source_idx e < length (streams st) \<and> streams st ! source_idx e \<noteq> None
    \<and> row_in_batch e < num_rows (entry_batch e) \<and> batch_keys_ok D (sort_col_indices st) (entry_batch e)
    \<and> build_key D (entry_batch e) (row_in_batch e) (sort_col_indices st) = Ok (entry_key e)"

definition merger_inv :: "debug_fmt \<Rightarrow> merger \<Rightarrow> bool" where
  "merger_inv D st \<longleftrightarrow> heap_order entry_key (heap st) \<and> distinct (map source_idx (heap st))
    \<and> length (blob_names st) = length (streams st)
    \<and> (\<forall>e \<in> set (heap st). entry_ok D st e)
    \<and> (\<forall>i < length (streams st). \<forall>s. streams st ! i = Some s \<longrightarrow> stream_ok D (sort_col_indices st) s)
    \<and> (\<forall>i < length (streams st). i \<notin> source_idx ` set (heap st) \<longrightarrow> stream_tail st i = [])"

lemma filter_source:
  assumes "distinct (map source_idx h)" "e \<in> set h"
  shows "filter (\<lambda>x. source_idx x = source_idx e) h = [e]"
  using assms by (induction h) (auto simp: filter_empty_conv image_iff)

lemma pending_in:
  "distinct (map source_idx (heap st)) \<Longrightarrow> e \<in> set (heap st) \<Longrightarrow>
    pending st (source_idx e) = entry_rows e @ stream_tail st (source_idx e)"
  by (simp add: pending_def filter_source)

lemma pending_out:
  assumes "i \<notin> source_idx ` set (heap st)"
  shows "pending st i = stream_tail st i"
proof -
  have "filter (\<lambda>e. source_idx e = i) (heap st) = []" using assms by (auto simp: filter_empty_conv)
  then show ?thesis by (simp add: pending_def)
qed

lemma entry_rows_Cons:
  "row_in_batch e < num_rows (entry_batch e) \<Longrightarrow>
    entry_rows e = (entry_batch e, row_in_batch e) # map (Pair (entry_batch e)) [row_in_batch e + 1..<num_rows (entry_batch e)]"
  by (simp add: entry_rows_def upt_conv_Cons)

lemma next_non_empty_rows:
  assumes "stream_ok D idxs s"
  shows "next_non_empty s = Ok (None, []) \<and> stream_rows s = []
    \<or> (\<exists>b s'. next_non_empty s = Ok (Some b, s') \<and> num_rows b > 0 \<and> batch_keys_ok D idxs b
        \<and> stream_ok D idxs s' \<and> stream_rows s = map (Pair b) [0..<num_rows b] @ stream_rows s')"
  using assms
  by (induction s rule: next_non_empty.induct) (auto simp: stream_ok_def stream_rows_def)

text \<open>A heap whose entries have pairwise different sources may be replaced by one with the same
  entries in another order.\<close>

lemma distinct_sources_mset:
  "mset h = mset h' \<Longrightarrow> distinct (map source_idx h) \<longleftrightarrow> distinct (map source_idx h')"
  by (metis mset_map mset_eq_imp_distinct_iff)

lemma pending_other:
  assumes "distinct (map source_idx (heap st))" "distinct (map source_idx (heap st'))"
    and "\<And>e. source_idx e = i \<Longrightarrow> e \<in> set (heap st) \<longleftrightarrow> e \<in> set (heap st')"
    and "stream_tail st i = stream_tail st' i"
  shows "pending st i = pending st' i"
proof (cases "i \<in> source_idx ` set (heap st)")
  case True
  then obtain e where e: "e \<in> set (heap st)" "source_idx e = i" by auto
  then have "e \<in> set (heap st')" using assms(3) by simp
  with e assms show ?thesis using pending_in[of st e] pending_in[of st' e] by simp
next
  case False
  then have "i \<notin> source_idx ` set (heap st')" using assms(3) by auto
  with False assms(4) show ?thesis by (simp add: pending_out)
qed

section \<open>One step of the merge\<close>

text \<open>The invariant with source \<open>src\<close> left out: it has no entry on the heap and may still have
  rows to come.\<close>

definition inv_but :: "debug_fmt \<Rightarrow> nat \<Rightarrow> merger \<Rightarrow> bool" where
  "inv_but D src st \<longleftrightarrow> heap_order entry_key (heap st) \<and> distinct (map source_idx (heap st))
    \<and> length (blob_names st) = length (streams st)
    \<and> (\<forall>x \<in> set (heap st). entry_ok D st x) \<and> src \<notin> source_idx ` set (heap st)
    \<and> (\<forall>i < length (streams st). \<forall>s. streams st ! i = Some s \<longrightarrow> stream_ok D (sort_col_indices st) s)
    \<and> (\<forall>i < length (streams st). i \<noteq> src \<longrightarrow> i \<notin> source_idx ` set (heap st) \<longrightarrow> stream_tail st i = [])"

lemma set_heap_push: "set (heap_push k x xs) = insert x (set xs)"
  using mset_heap_push[of k x xs] by (metis set_mset_add_mset_insert set_mset_mset)

lemma push_entry:
  assumes inv: "inv_but D src st" and e: "entry_ok D st e" "source_idx e = src"
  defines "st' \<equiv> st \<lparr> heap := heap_push entry_key e (heap st) \<rparr>"
  shows "merger_inv D st'" and "pending st' src = entry_rows e @ stream_tail st src"
    and "i \<noteq> src \<Longrightarrow> pending st' i = pending st i"
proof -
  have d: "distinct (map source_idx (heap st'))"
  proof -
    have "mset (heap st') = mset (e # heap st)" by (simp add: st'_def mset_heap_push)
    then have "distinct (map source_idx (heap st')) \<longleftrightarrow> distinct (map source_idx (e # heap st))"
      by (rule distinct_sources_mset)
    then show ?thesis using inv e by (simp add: inv_but_def)
  qed
  have set: "set (heap st') = insert e (set (heap st))" by (simp add: st'_def set_heap_push)
  have same: "streams st' = streams st" "sort_col_indices st' = sort_col_indices st"
    "blob_names st' = blob_names st" "stream_tail st' = stream_tail st"
    by (auto simp: st'_def stream_tail_def)
  have eok: "entry_ok D st' x \<longleftrightarrow> entry_ok D st x" for x by (simp add: entry_ok_def same)
  have ord: "heap_order entry_key (heap st')"
    unfolding st'_def using inv by (simp add: inv_but_def heap_push_order)
  show "merger_inv D st'"
    using inv d ord e unfolding merger_inv_def inv_but_def same set eok by auto
  show "pending st' src = entry_rows e @ stream_tail st src"
    using pending_in[OF d, of e] e by (simp add: set same)
  show "pending st' i = pending st i" if "i \<noteq> src"
    using that d inv e set by (intro pending_other) (auto simp: inv_but_def same)
qed

lemma inv_but_stream:
  assumes inv: "inv_but D src st" and x: "\<And>s. x = Some s \<Longrightarrow> stream_ok D (sort_col_indices st) s"
  defines "st' \<equiv> st \<lparr> streams := (streams st)[src := x] \<rparr>"
  shows "inv_but D src st'" and "i \<noteq> src \<Longrightarrow> pending st' i = pending st i"
proof -
  have tail: "stream_tail st' i = stream_tail st i" if "i \<noteq> src" for i
    using that by (simp add: st'_def stream_tail_def)
  have eok: "entry_ok D st' y \<longleftrightarrow> entry_ok D st y" if "source_idx y \<noteq> src" for y
    using that by (simp add: entry_ok_def st'_def)
  have same: "heap st' = heap st" "sort_col_indices st' = sort_col_indices st"
    "blob_names st' = blob_names st" "length (streams st') = length (streams st)"
    by (auto simp: st'_def)
  have ok: "stream_ok D (sort_col_indices st) s" if "i < length (streams st)" "streams st' ! i = Some s" for i s
    using that x inv by (cases "i = src") (auto simp: st'_def inv_but_def)
  have "source_idx y \<noteq> src" if "y \<in> set (heap st)" for y
    using inv that by (auto simp: inv_but_def)
  then have "\<forall>y \<in> set (heap st). entry_ok D st' y" using inv eok by (simp add: inv_but_def)
  then show "inv_but D src st'"
    using inv ok tail unfolding inv_but_def same by auto
  show "pending st' i = pending st i" if "i \<noteq> src"
    using that inv by (intro pending_other) (auto simp: inv_but_def same tail)
qed

text \<open>Advancing the source of \<open>e\<close>, in the state with \<open>e\<close> taken off the heap, cannot fail and
  leaves the source with the rows after \<open>e\<close>'s.\<close>

lemma advance_source_ok:
  assumes inv: "inv_but D (source_idx e) st" and e: "entry_ok D st e"
  shows "\<exists>st'. advance_source D e st = Ok st' \<and> merger_inv D st' \<and> last_emitted st' = last_emitted st
    \<and> sort_col_indices st' = sort_col_indices st \<and> length (streams st') = length (streams st)
    \<and> entry_rows e @ stream_tail st (source_idx e) = (entry_batch e, row_in_batch e) # pending st' (source_idx e)
    \<and> (\<forall>i. i \<noteq> source_idx e \<longrightarrow> pending st' i = pending st i)"
proof (cases "row_in_batch e + 1 < num_rows (entry_batch e)")
  case True
  obtain key where key: "build_key D (entry_batch e) (row_in_batch e + 1) (sort_col_indices st) = Ok key"
    using e True by (auto simp: entry_ok_def batch_keys_ok_def is_ok_iff)
  define e' where "e' = \<lparr> entry_key = key, source_idx = source_idx e, entry_batch = entry_batch e,
      row_in_batch = row_in_batch e + 1 \<rparr>"
  define st' where "st' = st \<lparr> heap := heap_push entry_key e' (heap st) \<rparr>"
  have e': "entry_ok D st e'" "source_idx e' = source_idx e"
    using e True key by (auto simp: entry_ok_def e'_def)
  have rows: "entry_rows e = (entry_batch e, row_in_batch e) # entry_rows e'"
    using entry_rows_Cons[of e] True by (simp add: entry_rows_def e'_def)
  have "advance_source D e st = Ok st'"
    using True key by (simp add: advance_source_def Let_def st'_def e'_def)
  with push_entry[OF inv e'] rows show ?thesis by (auto simp: st'_def)
next
  case False
  let ?src = "source_idx e"
  have src: "?src < length (streams st)" using e by (simp add: entry_ok_def)
  obtain s where s: "streams st ! ?src = Some s" using e by (auto simp: entry_ok_def)
  have sok: "stream_ok D (sort_col_indices st) s" using inv src s by (auto simp: inv_but_def)
  have rows: "entry_rows e = [(entry_batch e, row_in_batch e)]"
    using entry_rows_Cons[of e] False e by (simp add: entry_ok_def)
  have tail: "stream_tail st ?src = stream_rows s" using s by (simp add: stream_tail_def)
  from next_non_empty_rows[OF sok] show ?thesis
  proof (elim disjE exE conjE)
    assume nb: "next_non_empty s = Ok (None, [])" "stream_rows s = []"
    define st' where "st' = st \<lparr> streams := (streams st)[?src := None] \<rparr>"
    have ib: "inv_but D ?src st'" and oth: "\<forall>i. i \<noteq> ?src \<longrightarrow> pending st' i = pending st i"
      using inv_but_stream[OF inv, of None] by (auto simp: st'_def)
    have "stream_tail st' ?src = []" using src by (simp add: st'_def stream_tail_def)
    moreover have "merger_inv D st'"
      using ib \<open>stream_tail st' ?src = []\<close> unfolding merger_inv_def inv_but_def by blast
    moreover have "pending st' ?src = []"
      using ib \<open>stream_tail st' ?src = []\<close> pending_out[of ?src st'] by (simp add: inv_but_def)
    moreover have "advance_source D e st = Ok st'"
      using False src s nb by (simp add: advance_source_def Let_def st'_def)
    ultimately show ?thesis using rows tail nb oth by (auto simp: st'_def)
  next
    fix b s' assume nb: "next_non_empty s = Ok (Some b, s')" "num_rows b > 0"
      "batch_keys_ok D (sort_col_indices st) b" "stream_ok D (sort_col_indices st) s'"
      "stream_rows s = map (Pair b) [0..<num_rows b] @ stream_rows s'"
    obtain key where key: "build_key D b 0 (sort_col_indices st) = Ok key"
      using nb by (auto simp: batch_keys_ok_def is_ok_iff)
    define e' where "e' = \<lparr> entry_key = key, source_idx = ?src, entry_batch = b, row_in_batch = 0 \<rparr>"
    define st1 where "st1 = st \<lparr> streams := (streams st)[?src := Some s'] \<rparr>"
    define st' where "st' = st1 \<lparr> heap := heap_push entry_key e' (heap st1) \<rparr>"
    have ib: "inv_but D ?src st1" and oth: "\<forall>i. i \<noteq> ?src \<longrightarrow> pending st1 i = pending st i"
      using inv_but_stream[OF inv, of "Some s'"] nb by (auto simp: st1_def)
    have e': "entry_ok D st1 e'" "source_idx e' = ?src"
      using src nb key by (auto simp: entry_ok_def e'_def st1_def)
    have "stream_tail st1 ?src = stream_rows s'" using src by (simp add: st1_def stream_tail_def)
    moreover have "entry_rows e' = map (Pair b) [0..<num_rows b]" by (simp add: e'_def entry_rows_def)
    moreover have "advance_source D e st = Ok st'"
      using False src s nb key by (simp add: advance_source_def Let_def st'_def st1_def e'_def)
    moreover have "last_emitted st' = last_emitted st" "sort_col_indices st' = sort_col_indices st"
      "length (streams st') = length (streams st)" by (simp_all add: st'_def st1_def)
    ultimately show ?thesis
      using push_entry[OF ib e', folded st'_def] oth rows tail nb(5) by auto
  qed
qed

definition out_of_order :: "debug_fmt \<Rightarrow> merger \<Rightarrow> bool" where
  "out_of_order D st \<longleftrightarrow> (\<exists>p i. last_emitted st = Some p \<and> pending st i \<noteq> []
    \<and> i < length (streams st) \<and> row_key D (sort_col_indices st) (hd (pending st i)) < p)"

lemma entry_row_key:
  "entry_ok D st e \<Longrightarrow> row_key D (sort_col_indices st) (entry_batch e, row_in_batch e) = entry_key e"
  by (simp add: entry_ok_def row_key_def)

lemma pending_hd:
  assumes "merger_inv D st" "i < length (streams st)" "pending st i \<noteq> []"
  shows "\<exists>e \<in> set (heap st). source_idx e = i \<and> hd (pending st i) = (entry_batch e, row_in_batch e)
    \<and> row_key D (sort_col_indices st) (hd (pending st i)) = entry_key e"
proof -
  have "i \<in> source_idx ` set (heap st)"
    using assms pending_out[of i st] by (auto simp: merger_inv_def)
  then obtain e where e: "e \<in> set (heap st)" "source_idx e = i" by auto
  have ok: "entry_ok D st e" using assms(1) e by (simp add: merger_inv_def)
  have "hd (pending st i) = (entry_batch e, row_in_batch e)"
    using pending_in[of st e] assms(1) e ok entry_rows_Cons[of e]
    by (simp add: merger_inv_def entry_ok_def)
  with e ok entry_row_key[OF ok] show ?thesis by auto
qed

lemma pending_of_entry:
  assumes "merger_inv D st" "e \<in> set (heap st)"
  shows "pending st (source_idx e) = entry_rows e @ stream_tail st (source_idx e)"
    and "source_idx e < length (streams st)" and "entry_ok D st e"
  using assms pending_in[of st e] by (auto simp: merger_inv_def entry_ok_def)

lemma next_row_cases:
  assumes inv: "merger_inv D st"
  shows "next_row D st = Ok (None, st) \<and> (\<forall>i < length (streams st). pending st i = [])
    \<or> (\<exists>e. next_row D st = Err e) \<and> out_of_order D st
    \<or> \<not> out_of_order D st \<and> (\<exists>r src st'. next_row D st = Ok (Some r, st') \<and> merger_inv D st'
        \<and> sort_col_indices st' = sort_col_indices st \<and> length (streams st') = length (streams st)
        \<and> last_emitted st' = Some (row_key D (sort_col_indices st) r)
        \<and> src < length (streams st) \<and> pending st src = r # pending st' src
        \<and> (\<forall>i. i \<noteq> src \<longrightarrow> pending st' i = pending st i)
        \<and> (\<forall>i < length (streams st). pending st i \<noteq> [] \<longrightarrow>
             row_key D (sort_col_indices st) r \<le> row_key D (sort_col_indices st) (hd (pending st i))))"
proof (cases "heap_pop entry_key (heap st)")
  case None
  then have "heap st = []" by (auto simp: heap_pop_def Let_def split: if_splits)
  then have "pending st i = []" if "i < length (streams st)" for i
    using inv that pending_out[of i st] by (auto simp: merger_inv_def)
  with None show ?thesis by (simp add: next_row_def)
next
  case (Some eh)
  then obtain e h where pop: "heap_pop entry_key (heap st) = Some (e, h)" by (cases eh) auto
  have ord: "heap_order entry_key (heap st)" using inv by (simp add: merger_inv_def)
  note hp = heap.pop_Some[OF ord pop]
  have set: "set (heap st) = insert e (set h)"
    using hp by (metis set_mset_add_mset_insert set_mset_mset)
  note pe = pending_of_entry[OF inv, of e]
  let ?idxs = "sort_col_indices st" and ?src = "source_idx e"
  have key: "row_key D ?idxs (entry_batch e, row_in_batch e) = entry_key e"
    using pe set entry_row_key by simp
  have least: "entry_key e \<le> row_key D ?idxs (hd (pending st i))"
    if "i < length (streams st)" "pending st i \<noteq> []" for i
    using pending_hd[OF inv that] hp by (metis set_mset_mset)
  have phd: "pending st ?src \<noteq> []" "hd (pending st ?src) = (entry_batch e, row_in_batch e)"
    using pe set entry_rows_Cons[of e] by (auto simp: entry_ok_def)
  have ooo: "out_of_order D st \<longleftrightarrow> (\<exists>p. last_emitted st = Some p \<and> entry_key e < p)"
  proof
    assume "out_of_order D st"
    then show "\<exists>p. last_emitted st = Some p \<and> entry_key e < p"
      using least unfolding out_of_order_def by (meson le_less_trans)
  next
    assume "\<exists>p. last_emitted st = Some p \<and> entry_key e < p"
    then show "out_of_order D st"
      unfolding out_of_order_def using phd key pe(2) set by (metis insertI1)
  qed
  show ?thesis
  proof (cases "out_of_order D st")
    case True
    then obtain p where "last_emitted st = Some p" "entry_key e < p" using ooo by blast
    moreover have "?src < length (blob_names st)" using inv pe(2) set by (simp add: merger_inv_def)
    ultimately have "\<exists>err. next_row D st = Err err" using pop by (simp add: next_row_def)
    with True show ?thesis by blast
  next
    case False
    define st0 where "st0 = st \<lparr> heap := h, last_emitted := Some (entry_key e) \<rparr>"
    have d: "distinct (map source_idx (e # h))"
      using inv hp distinct_sources_mset[of "heap st" "e # h"] by (simp add: merger_inv_def)
    have tl: "stream_tail st0 = stream_tail st" by (simp add: st0_def stream_tail_def fun_eq_iff)
    have eok: "entry_ok D st0 x \<longleftrightarrow> entry_ok D st x" for x by (simp add: entry_ok_def st0_def)
    have ib: "inv_but D ?src st0"
      using inv hp d set unfolding inv_but_def merger_inv_def tl eok by (auto simp: st0_def)
    have e0: "entry_ok D st0 e" using pe set eok by simp
    obtain st' where st': "advance_source D e st0 = Ok st'" "merger_inv D st'"
      "last_emitted st' = Some (entry_key e)" "sort_col_indices st' = ?idxs"
      "length (streams st') = length (streams st)"
      "entry_rows e @ stream_tail st0 ?src = (entry_batch e, row_in_batch e) # pending st' ?src"
      "\<forall>i. i \<noteq> ?src \<longrightarrow> pending st' i = pending st0 i"
      using advance_source_ok[OF ib e0] by (auto simp: st0_def)
    have "pending st0 i = pending st i" if "i \<noteq> ?src" for i
      using that d inv set by (intro pending_other) (auto simp: st0_def merger_inv_def tl[unfolded st0_def])
    then have oth: "\<forall>i. i \<noteq> ?src \<longrightarrow> pending st' i = pending st i" using st'(7) by simp
    have nr: "next_row D st = Ok (Some (entry_batch e, row_in_batch e), st')"
      using pop st'(1) False ooo by (auto simp: next_row_def st0_def split: option.splits)
    have "pending st ?src = (entry_batch e, row_in_batch e) # pending st' ?src"
      using pe(1) set st'(6) tl by simp
    then show ?thesis
      using False nr st' oth key least pe(2) set
      by (intro disjI2 conjI exI[of _ "(entry_batch e, row_in_batch e)"] exI[of _ ?src] exI[of _ st']) simp_all
  qed
qed

section \<open>Draining\<close>

lemma sum_pending_step:
  fixes p :: "nat \<Rightarrow> 'r list"
  assumes "src < n" "p src = r # p' src" "\<forall>i. i \<noteq> src \<longrightarrow> p' i = p i"
  shows "(\<Sum>i<n. mset (p i)) = add_mset r (\<Sum>i<n. mset (p' i))"
proof -
  have "(\<Sum>i<n. mset (q i)) = mset (q src) + (\<Sum>i \<in> {..<n} - {src}. mset (q i))" for q :: "nat \<Rightarrow> 'r list"
    using assms(1) by (simp add: sum.remove)
  moreover have "(\<Sum>i \<in> {..<n} - {src}. mset (p i)) = (\<Sum>i \<in> {..<n} - {src}. mset (p' i))"
    using assms(3) by (intro sum.cong) auto
  ultimately show ?thesis using assms(2) by simp
qed

lemma merge_all_spec:
  assumes "merger_inv D st" "merge_all D st = (rows, err)"
  shows "sorted (map (row_key D (sort_col_indices st)) rows)
    \<and> (\<forall>p. last_emitted st = Some p \<longrightarrow> rows \<noteq> [] \<longrightarrow> p \<le> row_key D (sort_col_indices st) (hd rows))
    \<and> (err = None \<longrightarrow> mset rows = (\<Sum>i < length (streams st). mset (pending st i)))
    \<and> (err = None \<longleftrightarrow> \<not> out_of_order D st
        \<and> (\<forall>i < length (streams st). sorted (map (row_key D (sort_col_indices st)) (pending st i))))"
  using assms
proof (induction D st arbitrary: rows err rule: merge_all.induct)
  case (1 D st)
  let ?K = "row_key D (sort_col_indices st)" and ?n = "length (streams st)"
  from next_row_cases[OF "1.prems"(1)] show ?case
  proof (elim disjE conjE exE)
    assume a: "next_row D st = Ok (None, st)" "\<forall>i < ?n. pending st i = []"
    then have "rows = []" "err = None" using "1.prems"(2) by (auto simp: merge_all.simps)
    moreover have "\<not> out_of_order D st" using a(2) by (auto simp: out_of_order_def)
    ultimately show ?thesis using a(2) by simp
  next
    fix e assume a: "next_row D st = Err e" "out_of_order D st"
    then have "rows = []" "err = Some e" using "1.prems"(2) by (auto simp: merge_all.simps)
    with a show ?thesis by simp
  next
    fix r src st'
    assume a: "\<not> out_of_order D st" "next_row D st = Ok (Some r, st')" "merger_inv D st'"
      "sort_col_indices st' = sort_col_indices st" "length (streams st') = ?n"
      "last_emitted st' = Some (?K r)" "src < ?n" "pending st src = r # pending st' src"
      "\<forall>i. i \<noteq> src \<longrightarrow> pending st' i = pending st i"
      "\<forall>i < ?n. pending st i \<noteq> [] \<longrightarrow> ?K r \<le> ?K (hd (pending st i))"
    obtain rs where rs: "merge_all D st' = (rs, err)" "rows = r # rs"
      using "1.prems"(2) a(2) by (auto simp: merge_all.simps[of D st] split: prod.splits)
    have IH: "sorted (map ?K rs)" "rs \<noteq> [] \<longrightarrow> ?K r \<le> ?K (hd rs)"
      "err = None \<longrightarrow> mset rs = (\<Sum>i < ?n. mset (pending st' i))"
      "err = None \<longleftrightarrow> \<not> out_of_order D st' \<and> (\<forall>i < ?n. sorted (map ?K (pending st' i)))"
      using "1.IH"[OF a(2) refl refl a(3) rs(1)] a(4-6) by auto
    have last: "p \<le> ?K r" if "last_emitted st = Some p" for p
      using a(1,7,8) that unfolding out_of_order_def by (metis list.distinct(1) list.sel(1) not_less)
    have oo: "out_of_order D st' \<longleftrightarrow> pending st' src \<noteq> [] \<and> ?K (hd (pending st' src)) < ?K r"
    proof
      assume "out_of_order D st'"
      then obtain i where i: "i < ?n" "pending st' i \<noteq> []" "?K (hd (pending st' i)) < ?K r"
        unfolding out_of_order_def a(4-6) by auto
      then have "i = src" using a(9,10) by (metis not_less)
      with i show "pending st' src \<noteq> [] \<and> ?K (hd (pending st' src)) < ?K r" by simp
    qed (use a(4-7) in \<open>auto simp: out_of_order_def\<close>)
    have "sorted (map ?K (pending st src)) \<longleftrightarrow> sorted (map ?K (pending st' src)) \<and> \<not> out_of_order D st'"
      unfolding a(8) oo by (cases "pending st' src") (auto simp: not_less)
    moreover have "\<forall>i < ?n. i \<noteq> src \<longrightarrow> sorted (map ?K (pending st i)) \<longleftrightarrow> sorted (map ?K (pending st' i))"
      using a(9) by simp
    ultimately have 4: "err = None \<longleftrightarrow> \<not> out_of_order D st \<and> (\<forall>i < ?n. sorted (map ?K (pending st i)))"
      using IH(4) a(1,7) by metis
    have 1: "sorted (map ?K rows)" using IH(1,2) rs(2) by (cases rs) auto
    have 3: "err = None \<longrightarrow> mset rows = (\<Sum>i < ?n. mset (pending st i))"
      using IH(3) rs(2) sum_pending_step[OF a(7,8,9)] by simp
    show ?thesis using 1 3 4 last rs(2) by simp
  qed
qed

section \<open>The initial state\<close>

text \<open>What \<open>seed_heap\<close> leaves for the streams \<open>ss\<close>, numbered from \<open>i\<close>.\<close>

definition seeded_entry ::
  "debug_fmt \<Rightarrow> nat list \<Rightarrow> nat \<Rightarrow> parquet_stream list \<Rightarrow> parquet_stream list \<Rightarrow> heap_entry \<Rightarrow> bool"
where
  "seeded_entry D idxs i ss ss' e \<longleftrightarrow> i \<le> source_idx e \<and> source_idx e < i + length ss
    \<and> row_in_batch e = 0 \<and> num_rows (entry_batch e) > 0 \<and> batch_keys_ok D idxs (entry_batch e)
    \<and> build_key D (entry_batch e) 0 idxs = Ok (entry_key e)
    \<and> stream_rows (ss ! (source_idx e - i)) = entry_rows e @ stream_rows (ss' ! (source_idx e - i))"

lemma seeded_entry_shift:
  "seeded_entry D idxs (Suc i) ss ss' e \<Longrightarrow> seeded_entry D idxs i (s # ss) (s' # ss') e"
  by (auto simp: seeded_entry_def nth_Cons' Suc_diff_le less_Suc_eq_le)

lemma seed_heap_ok:
  assumes "\<forall>s \<in> set ss. stream_ok D idxs s" "heap_order entry_key h" "distinct (map source_idx h)"
    and "\<forall>e \<in> set h. source_idx e < i"
  shows "\<exists>ss' h'. seed_heap D idxs i ss h = Ok (ss', h') \<and> length ss' = length ss
    \<and> heap_order entry_key h' \<and> distinct (map source_idx h') \<and> set h \<subseteq> set h'
    \<and> (\<forall>s \<in> set ss'. stream_ok D idxs s)
    \<and> (\<forall>e \<in> set h' - set h. seeded_entry D idxs i ss ss' e)
    \<and> (\<forall>j < length ss. i + j \<notin> source_idx ` set h' \<longrightarrow> stream_rows (ss ! j) = [] \<and> stream_rows (ss' ! j) = [])"
  using assms
proof (induction ss arbitrary: i h)
  case Nil
  then show ?case by simp
next
  case (Cons s ss)
  have "stream_ok D idxs s" using Cons.prems(1) by simp
  from next_non_empty_rows[OF this] show ?case
  proof (elim disjE exE conjE)
    assume nb: "next_non_empty s = Ok (None, [])" "stream_rows s = []"
    obtain ss' h' where IH: "seed_heap D idxs (Suc i) ss h = Ok (ss', h')" "length ss' = length ss"
      "heap_order entry_key h'" "distinct (map source_idx h')" "set h \<subseteq> set h'"
      "\<forall>s \<in> set ss'. stream_ok D idxs s" "\<forall>e \<in> set h' - set h. seeded_entry D idxs (Suc i) ss ss' e"
      "\<forall>j < length ss. Suc i + j \<notin> source_idx ` set h' \<longrightarrow> stream_rows (ss ! j) = [] \<and> stream_rows (ss' ! j) = []"
      using Cons.IH[of h "Suc i"] Cons.prems by (auto simp: less_Suc_eq)
    have "seed_heap D idxs i (s # ss) h = Ok ([] # ss', h')" using nb IH(1) by simp
    moreover have "stream_ok D idxs []" "stream_rows [] = []" by (simp_all add: stream_ok_def stream_rows_def)
    moreover have "\<forall>j < length (s # ss). i + j \<notin> source_idx ` set h' \<longrightarrow>
        stream_rows ((s # ss) ! j) = [] \<and> stream_rows (([] # ss') ! j) = []"
      using IH(8) nb(2) \<open>stream_rows [] = []\<close> by (auto simp: less_Suc_eq_0_disj)
    ultimately show ?thesis using IH(2-7) seeded_entry_shift by (intro exI conjI) auto
  next
    fix b s' assume nb: "next_non_empty s = Ok (Some b, s')" "num_rows b > 0" "batch_keys_ok D idxs b"
      "stream_ok D idxs s'" "stream_rows s = map (Pair b) [0..<num_rows b] @ stream_rows s'"
    obtain key where key: "build_key D b 0 idxs = Ok key"
      using nb by (auto simp: batch_keys_ok_def is_ok_iff)
    define e where "e = \<lparr> entry_key = key, source_idx = i, entry_batch = b, row_in_batch = 0 \<rparr>"
    define h1 where "h1 = heap_push entry_key e h"
    have set1: "set h1 = insert e (set h)" by (simp add: h1_def set_heap_push)
    have d1: "distinct (map source_idx h1)"
      using distinct_sources_mset[of h1 "e # h"] Cons.prems
      by (auto simp: h1_def mset_heap_push e_def)
    have o1: "heap_order entry_key h1" using Cons.prems by (simp add: h1_def heap_push_order)
    have lt: "\<forall>x \<in> set h1. source_idx x < Suc i" using Cons.prems(4) set1 by (auto simp: e_def less_Suc_eq)
    obtain ss' h' where IH: "seed_heap D idxs (Suc i) ss h1 = Ok (ss', h')" "length ss' = length ss"
      "heap_order entry_key h'" "distinct (map source_idx h')" "set h1 \<subseteq> set h'"
      "\<forall>s \<in> set ss'. stream_ok D idxs s" "\<forall>e \<in> set h' - set h1. seeded_entry D idxs (Suc i) ss ss' e"
      "\<forall>j < length ss. Suc i + j \<notin> source_idx ` set h' \<longrightarrow> stream_rows (ss ! j) = [] \<and> stream_rows (ss' ! j) = []"
      using Cons.IH[OF _ o1 d1 lt] Cons.prems(1) by auto
    have "seed_heap D idxs i (s # ss) h = Ok (s' # ss', h')"
      using nb IH(1) key by (simp add: h1_def e_def)
    moreover have "seeded_entry D idxs i (s # ss) (s' # ss') e"
      using nb key by (simp add: seeded_entry_def e_def entry_rows_def)
    then have "\<forall>x \<in> set h' - set h. seeded_entry D idxs i (s # ss) (s' # ss') x"
      using IH(7) set1 seeded_entry_shift by (metis Diff_iff insert_iff)
    moreover have "e \<in> set h'" "source_idx e = i" using IH(5) set1 by (auto simp: e_def)
    then have "i \<in> source_idx ` set h'" by blast
    then have "\<forall>j < length (s # ss). i + j \<notin> source_idx ` set h' \<longrightarrow>
        stream_rows ((s # ss) ! j) = [] \<and> stream_rows ((s' # ss') ! j) = []"
      using IH(8) by (auto simp: less_Suc_eq_0_disj)
    ultimately show ?thesis using IH(2-6) set1 nb(4) by (intro exI conjI) auto
  qed
qed

lemma merger_new_ok:
  assumes "length strs \<le> 256" "length strs = length names" "\<forall>s \<in> set strs. stream_ok D idxs s"
  shows "\<exists>st. merger_new D strs names idxs = Ok st \<and> merger_inv D st \<and> last_emitted st = None
    \<and> sort_col_indices st = idxs \<and> length (streams st) = length strs
    \<and> (\<forall>i < length strs. pending st i = stream_rows (strs ! i))"
proof -
  obtain ss' h' where s: "seed_heap D idxs 0 strs [] = Ok (ss', h')" "length ss' = length strs"
    "heap_order entry_key h'" "distinct (map source_idx h')"
    "\<forall>s \<in> set ss'. stream_ok D idxs s" "\<forall>e \<in> set h'. seeded_entry D idxs 0 strs ss' e"
    "\<forall>j < length strs. j \<notin> source_idx ` set h' \<longrightarrow> stream_rows (strs ! j) = [] \<and> stream_rows (ss' ! j) = []"
    using seed_heap_ok[OF assms(3), of "[]" 0] by (auto simp: heap_order_def)
  define st where "st = \<lparr> streams = map Some ss', blob_names = names, sort_col_indices = idxs, heap = h',
      last_emitted = None \<rparr>"
  have new: "merger_new D strs names idxs = Ok st"
    using assms s(1) by (simp add: merger_new_def st_def)
  have tail: "stream_tail st i = stream_rows (ss' ! i)" if "i < length strs" for i
    using that s(2) by (simp add: stream_tail_def st_def)
  have eok: "entry_ok D st e" if "e \<in> set h'" for e
    using that s(2,6) by (auto simp: entry_ok_def st_def seeded_entry_def)
  have inv: "merger_inv D st"
    using s eok tail assms(2) unfolding merger_inv_def by (auto simp: st_def)
  have "pending st i = stream_rows (strs ! i)" if i: "i < length strs" for i
  proof (cases "i \<in> source_idx ` set h'")
    case True
    then obtain e where e: "e \<in> set h'" "source_idx e = i" by auto
    then have "pending st i = entry_rows e @ stream_rows (ss' ! i)"
      using pending_in[of st e] s(4) tail[OF i] by (simp add: st_def)
    also have "\<dots> = stream_rows (strs ! i)" using s(6) e by (auto simp: seeded_entry_def)
    finally show ?thesis .
  next
    case False
    then show ?thesis using pending_out[of i st] tail[OF i] s(7) i by (simp add: st_def)
  qed
  with new inv s(2) show ?thesis by (auto simp: st_def)
qed

section \<open>Properties\<close>

text \<open>C12: the K-way merge is correct and detects unsorted input.  For at most 256 readable
  streams whose sort keys can be extracted, the merger is built and drained; the rows it
  returns are in ascending key order; it ends without an error exactly when every file is
  itself in key order; and then it has returned every row of every file exactly as often as
  the files contain it.\<close>

theorem sorted_merge_correct:
  assumes "length strs \<le> 256" "length strs = length names" "\<forall>s \<in> set strs. stream_ok D idxs s"
  shows "\<exists>st rows err. merger_new D strs names idxs = Ok st \<and> merge_all D st = (rows, err)
    \<and> sorted (map (row_key D idxs) rows)
    \<and> (err = None \<longleftrightarrow> (\<forall>s \<in> set strs. sorted (map (row_key D idxs) (stream_rows s))))
    \<and> (err = None \<longrightarrow> mset rows = (\<Sum>i < length strs. mset (stream_rows (strs ! i))))"
proof -
  obtain st where st: "merger_new D strs names idxs = Ok st" "merger_inv D st" "last_emitted st = None"
    "sort_col_indices st = idxs" "length (streams st) = length strs"
    "\<forall>i < length strs. pending st i = stream_rows (strs ! i)"
    using merger_new_ok[OF assms] by blast
  obtain rows err where m: "merge_all D st = (rows, err)" by fastforce
  have "\<not> out_of_order D st" using st(3) by (simp add: out_of_order_def)
  moreover have "(\<forall>i < length strs. sorted (map (row_key D idxs) (pending st i)))
      \<longleftrightarrow> (\<forall>s \<in> set strs. sorted (map (row_key D idxs) (stream_rows s)))"
    using st(6) by (metis in_set_conv_nth)
  moreover have "(\<Sum>i < length strs. mset (pending st i)) = (\<Sum>i < length strs. mset (stream_rows (strs ! i)))"
    using st(6) by (intro sum.cong) auto
  ultimately show ?thesis
    using merge_all_spec[OF st(2) m] st(1,4,5) m by auto
qed

definition int_batch :: "int list \<Rightarrow> record_batch" where
  "int_batch xs = \<lparr> batch_schema = [\<lparr> field_name = ''id'', field_type = Int64, nullable = True \<rparr>],
     columns = [\<lparr> data_type_of = Int64, cells = map (\<lambda>x. Some (CInt x)) xs \<rparr>], num_rows = length xs \<rparr>"

definition plain_dbg :: debug_fmt where
  "plain_dbg = \<lparr> type_dbg = (\<lambda>_. []), key_dbg = (\<lambda>_. []) \<rparr>"

lemma num_rows_int_batch: "num_rows (int_batch xs) = length xs"
  by (simp add: int_batch_def)

lemma int_batch_key:
  "r < length xs \<Longrightarrow> build_key D (int_batch xs) r [0] = Ok [KI64 (xs ! r)]"
  by (simp add: build_key_def extract_sort_key_def col_cell_def int_batch_def)

theorem sorted_merge_correct_witness:
  "\<exists>st rows err. merger_new plain_dbg [[Inr (int_batch [1, 3])], [Inr (int_batch []), Inr (int_batch [2])]]
      [''a'', ''b''] [0] = Ok st \<and> merge_all plain_dbg st = (rows, err)
    \<and> sorted (map (row_key plain_dbg [0]) rows) \<and> err = None
    \<and> mset rows = {# (int_batch [1, 3], 0), (int_batch [1, 3], 1), (int_batch [2], 0) #}"
proof -
  let ?strs = "[[Inr (int_batch [1, 3])], [Inr (int_batch []), Inr (int_batch [2])]] :: parquet_stream list"
  have rows: "stream_rows (?strs ! 0) = [(int_batch [1, 3], 0), (int_batch [1, 3], 1)]"
    "stream_rows (?strs ! 1) = [(int_batch [2], 0)]"
    by (simp_all add: stream_rows_def int_batch_def upt_rec)
  have "\<forall>s \<in> set ?strs. stream_ok plain_dbg [0] s"
    by (auto simp: stream_ok_def batch_keys_ok_def is_ok_iff num_rows_int_batch int_batch_key)
  moreover have "\<forall>s \<in> set ?strs. sorted (map (row_key plain_dbg [0]) (stream_rows s))"
    using rows by (simp add: row_key_def int_batch_key less_sort_key_value_def sort_key_cmp_def cmp_def)
  moreover have "(\<Sum>i < length ?strs. mset (stream_rows (?strs ! i)))
      = {# (int_batch [1, 3], 0), (int_batch [1, 3], 1), (int_batch [2], 0) #}"
    using rows by (simp add: lessThan_Suc numeral_2_eq_2)
  ultimately show ?thesis
    using sorted_merge_correct[of ?strs "[''a'', ''b'']" plain_dbg "[0]"] by auto
qed

end
