(* ===== verification/Kernel.thy ===== *)
theory Kernel
  imports Arrow_Data
begin

text \<open>
  The rewrite kernel of UPDATE and DELETE, \<^verbatim>\<open>src/fdw/modify/kernel.rs\<close>.  A
  \<^verbatim>\<open>RoaringBitmap\<close> of deleted rows is a set of row numbers; the \<^verbatim>\<open>HashMap\<close> of
  overrides is an association list with distinct keys.  \<open>apply_edits_batch\<close> follows the
  code: splice the overrides column by column, rebuild the batch, mask the deletes.  The
  reference is \<open>edit_rows\<close>, which edits row by row; the lemmas show that the kernel
  computes it, for one batch and for a blob split into batches at any points.
\<close>

section \<open>The code\<close>

type_synonym row_override = "arrow_array option list"

record blob_edits =
  deletes :: "nat set"
  updates :: "(nat \<times> row_override) list"

definition empty_edits :: blob_edits where
  "empty_edits = \<lparr> deletes = {}, updates = [] \<rparr>"

text \<open>\<^verbatim>\<open>ovr.values.get(col_idx).and_then(|v| v.as_ref())\<close> for the override of row \<open>r\<close>.\<close>

definition override_at :: "blob_edits \<Rightarrow> nat \<Rightarrow> nat \<Rightarrow> arrow_array option" where
  "override_at edits col_idx r =
    (case map_of (updates edits) r of
       None \<Rightarrow> None
     | Some vs \<Rightarrow> if col_idx < length vs then vs ! col_idx else None)"

text \<open>The piece of a column for the overridden row \<open>absr\<close>.\<close>

definition splice_piece ::
  "arrow_ops \<Rightarrow> blob_edits \<Rightarrow> nat \<Rightarrow> arrow_array \<Rightarrow> nat \<Rightarrow> nat \<Rightarrow> arrow_array fdw_result"
where
  "splice_piece A edits col_idx col absr local =
    (case override_at edits col_idx absr of
       Some replacement \<Rightarrow>
         if array_len replacement \<noteq> 1 then
           Err (SchemaMismatch
             (''override array for col '' @ show_nat col_idx @ '' abs row '' @ show_nat absr
              @ '' has len='' @ show_nat (array_len replacement) @ '', expected 1''))
         else Ok replacement
     | None \<Rightarrow> Ok (slice_op A col local 1))"

text \<open>The loop over the sorted hits, with its cursor: the pieces of one column.\<close>

fun splice_pieces ::
  "arrow_ops \<Rightarrow> blob_edits \<Rightarrow> nat \<Rightarrow> nat \<Rightarrow> arrow_array \<Rightarrow> nat \<Rightarrow> nat \<Rightarrow> nat list \<Rightarrow> arrow_array list fdw_result"
where
  "splice_pieces A edits base_offset col_idx col n cursor [] =
    Ok (if cursor < n then [slice_op A col cursor (n - cursor)] else [])"
| "splice_pieces A edits base_offset col_idx col n cursor (absr # hits) =
    (let local = absr - base_offset;
         before = (if local > cursor then [slice_op A col cursor (local - cursor)] else [])
     in and_then (splice_piece A edits col_idx col absr local)
          (\<lambda>piece.
             and_then (splice_pieces A edits base_offset col_idx col n (local + 1) hits)
               (\<lambda>rest. Ok (before @ [piece] @ rest))))"

definition splice_column ::
  "arrow_ops \<Rightarrow> blob_edits \<Rightarrow> nat \<Rightarrow> nat \<Rightarrow> nat list \<Rightarrow> nat \<Rightarrow> arrow_array \<Rightarrow> arrow_array fdw_result"
where
  "splice_column A edits base_offset n hits col_idx col =
    (if \<not> list_ex (\<lambda>absr. override_at edits col_idx absr \<noteq> None) hits then Ok col
     else and_then (splice_pieces A edits base_offset col_idx col n 0 hits)
            (\<lambda>pieces. case concat_op A pieces of Inl e \<Rightarrow> Err (Arrow e) | Inr c \<Rightarrow> Ok c))"

definition u32_MAX :: nat where
  "u32_MAX = 2 ^ 32 - 1"

text \<open>\<^verbatim>\<open>RoaringBitmap::range(lo..hi)\<close>: the members in ascending order.\<close>

definition bitmap_range :: "nat set \<Rightarrow> nat \<Rightarrow> nat \<Rightarrow> nat list" where
  "bitmap_range S lo hi = sorted_list_of_set (Set.filter (\<lambda>x. lo \<le> x \<and> x < hi) S)"

definition apply_edits_batch ::
  "arrow_ops \<Rightarrow> record_batch \<Rightarrow> nat \<Rightarrow> schema \<Rightarrow> blob_edits \<Rightarrow> record_batch fdw_result"
where
  "apply_edits_batch A batch base_offset sch edits =
    (let n = num_rows batch;
         end_row = base_offset + n;
         hits = sort (filter (\<lambda>k. k \<ge> base_offset \<and> k < end_row) (map fst (updates edits)))
     in and_then
          (if updates edits = [] \<or> hits = [] then Ok (columns batch)
           else try_map (\<lambda>(col_idx, col). splice_column A edits base_offset n hits col_idx col)
                  (enumerate 0 (columns batch)))
          (\<lambda>cols.
             and_then (case try_new_op A sch cols of Inl e \<Rightarrow> Err (Arrow e) | Inr b \<Rightarrow> Ok b)
               (\<lambda>updated.
                  let lo = base_offset mod 2 ^ 32;
                      hi = min end_row u32_MAX;
                      dels = bitmap_range (deletes edits) lo hi
                  in if dels = [] then Ok updated
                     else
                       let msk = fold (\<lambda>absr m. m[absr - base_offset := False]) dels (replicate n True)
                       in (case filter_op A updated msk of Inl e \<Rightarrow> Err (Arrow e) | Inr b \<Rightarrow> Ok b))))"

fun apply_edits_from ::
  "arrow_ops \<Rightarrow> schema \<Rightarrow> blob_edits \<Rightarrow> nat \<Rightarrow> record_batch list \<Rightarrow> record_batch list fdw_result"
where
  "apply_edits_from A sch edits off [] = Ok []"
| "apply_edits_from A sch edits off (b # bs) =
    and_then (apply_edits_batch A b off sch edits)
      (\<lambda>r. and_then (apply_edits_from A sch edits (off + num_rows b) bs) (\<lambda>rs. Ok (r # rs)))"

definition apply_edits :: "arrow_ops \<Rightarrow> record_batch list \<Rightarrow> schema \<Rightarrow> blob_edits \<Rightarrow> record_batch list fdw_result" where
  "apply_edits A input sch edits = apply_edits_from A sch edits 0 input"

section \<open>The reference: editing row by row\<close>

text \<open>The value of one cell after the edits.\<close>

definition edited_cell :: "blob_edits \<Rightarrow> nat \<Rightarrow> nat \<Rightarrow> cell option \<Rightarrow> cell option" where
  "edited_cell edits r col_idx old =
    (case override_at edits col_idx r of None \<Rightarrow> old | Some a \<Rightarrow> hd (cells a))"

definition edited_row :: "blob_edits \<Rightarrow> nat \<Rightarrow> cell option list \<Rightarrow> cell option list" where
  "edited_row edits r row = map (\<lambda>(i, v). edited_cell edits r i v) (enumerate 0 row)"

fun edit_rows :: "blob_edits \<Rightarrow> nat \<Rightarrow> cell option list list \<Rightarrow> cell option list list" where
  "edit_rows edits r [] = []"
| "edit_rows edits r (row # rows) =
    (if r \<in> deletes edits then edit_rows edits (Suc r) rows
     else edited_row edits r row # edit_rows edits (Suc r) rows)"

text \<open>Edits that fit a schema: every override has one value, of the column's type, and a
  null only where the column allows it; keys are distinct, as in a \<^verbatim>\<open>HashMap\<close>.\<close>

definition edits_fit :: "schema \<Rightarrow> blob_edits \<Rightarrow> bool" where
  "edits_fit sch edits \<longleftrightarrow>
    distinct (map fst (updates edits))
    \<and> (\<forall>r i a. i < length sch \<longrightarrow> override_at edits i r = Some a \<longrightarrow>
         array_len a = 1 \<and> data_type_of a = field_type (sch ! i)
         \<and> (nullable (sch ! i) \<or> None \<notin> set (cells a)))"

lemma edit_rows_append:
  "edit_rows edits r (xs @ ys) = edit_rows edits r xs @ edit_rows edits (r + length xs) ys"
  by (induction xs arbitrary: r) auto

section \<open>The kernel computes the reference\<close>

definition edited_cells :: "blob_edits \<Rightarrow> nat \<Rightarrow> nat \<Rightarrow> cell option list \<Rightarrow> cell option list" where
  "edited_cells edits base i cs = map (\<lambda>(l, v). edited_cell edits (base + l) i v) (enumerate 0 cs)"

lemma length_edited_cells [simp]: "length (edited_cells edits base i cs) = length cs"
  by (simp add: edited_cells_def)

lemma nth_edited_cells [simp]:
  "l < length cs \<Longrightarrow> edited_cells edits base i cs ! l = edited_cell edits (base + l) i (cs ! l)"
  by (simp add: edited_cells_def nth_enumerate_eq)

definition override_ok :: "blob_edits \<Rightarrow> nat \<Rightarrow> data_type \<Rightarrow> nat \<Rightarrow> bool" where
  "override_ok edits i t r \<longleftrightarrow>
    (\<forall>a. override_at edits i r = Some a \<longrightarrow> array_len a = 1 \<and> data_type_of a = t)"

context arrow_compute
begin

lemma splice_piece_ok:
  assumes l: "base + l = h" "l < array_len col"
    and fit: "override_ok edits i (data_type_of col) h"
  shows "\<exists>piece. splice_piece A edits i col h l = Ok piece \<and> data_type_of piece = data_type_of col
    \<and> cells piece = [edited_cells edits base i (cells col) ! l]"
proof (cases "override_at edits i h")
  case None
  have "take 1 (drop l (cells col)) = [cells col ! l]"
    using l(2) by (metis One_nat_def array_len_def Cons_nth_drop_Suc take_Suc_Cons take_0)
  then show ?thesis using slice[of l 1 col] None l
    by (simp add: splice_piece_def array_len_def edited_cell_def)
next
  case (Some a)
  then have "array_len a = 1" "data_type_of a = data_type_of col" using fit by (auto simp: override_ok_def)
  then show ?thesis using Some l
    by (cases "cells a") (auto simp: splice_piece_def array_len_def edited_cell_def)
qed

lemma splice_pieces_ok:
  assumes hits: "sorted hits" "distinct hits" "\<forall>h \<in> set hits. base + cursor \<le> h \<and> h < base + n"
    and other: "\<forall>r. base + cursor \<le> r \<longrightarrow> r < base + n \<longrightarrow> r \<notin> set hits \<longrightarrow> override_at edits i r = None"
    and n: "array_len col = n" and cursor: "cursor \<le> n"
    and fit: "\<forall>h \<in> set hits. override_ok edits i (data_type_of col) h"
  shows "\<exists>ps. splice_pieces A edits base i col n cursor hits = Ok ps
    \<and> (\<forall>p \<in> set ps. data_type_of p = data_type_of col)
    \<and> concat (map cells ps) = drop cursor (edited_cells edits base i (cells col))"
  using assms
proof (induction hits arbitrary: cursor)
  case Nil
  have "drop cursor (edited_cells edits base i (cells col)) = drop cursor (cells col)"
    using Nil by (intro nth_equalityI) (auto simp: array_len_def edited_cell_def)
  then show ?case using Nil slice[of cursor "n - cursor" col] by (auto simp: array_len_def)
next
  case (Cons h hits)
  define l where "l = h - base"
  have l: "base + l = h" "cursor \<le> l" "l < n"
    using Cons.prems(3) by (auto simp: l_def)
  let ?E = "edited_cells edits base i (cells col)"
  have len: "length (cells col) = n" using Cons.prems(5) by (simp add: array_len_def)
  have "\<exists>ps. splice_pieces A edits base i col n (l + 1) hits = Ok ps
    \<and> (\<forall>p \<in> set ps. data_type_of p = data_type_of col)
    \<and> concat (map cells ps) = drop (l + 1) ?E"
  proof (rule Cons.IH)
    show "\<forall>k \<in> set hits. base + (l + 1) \<le> k \<and> k < base + n"
    proof
      fix k assume k: "k \<in> set hits"
      then have "h \<le> k" "h \<noteq> k" using Cons.prems(1,2) by auto
      with k l(1) Cons.prems(3) show "base + (l + 1) \<le> k \<and> k < base + n" by auto
    qed
    show "\<forall>r. base + (l + 1) \<le> r \<longrightarrow> r < base + n \<longrightarrow> r \<notin> set hits \<longrightarrow> override_at edits i r = None"
    proof (intro allI impI)
      fix r assume "base + (l + 1) \<le> r" "r < base + n" "r \<notin> set hits"
      then show "override_at edits i r = None" using Cons.prems(4)[rule_format, of r] l by simp
    qed
    show "sorted hits" "distinct hits" using Cons.prems(1,2) by simp_all
    show "array_len col = n" "l + 1 \<le> n" using Cons.prems(5) l by simp_all
    show "\<forall>h \<in> set hits. override_ok edits i (data_type_of col) h" using Cons.prems(7) by simp
  qed
  then obtain ps where ps: "splice_pieces A edits base i col n (l + 1) hits = Ok ps"
    "\<forall>p \<in> set ps. data_type_of p = data_type_of col" "concat (map cells ps) = drop (l + 1) ?E" by blast
  define before where "before = (if l > cursor then [slice_op A col cursor (l - cursor)] else [])"
  have b: "\<forall>p \<in> set before. data_type_of p = data_type_of col"
    "concat (map cells before) = take (l - cursor) (drop cursor (cells col))"
    using slice[of cursor "l - cursor" col] l len by (auto simp: before_def array_len_def)
  have "take (l - cursor) (drop cursor (cells col)) = take (l - cursor) (drop cursor ?E)"
  proof (rule nth_equalityI)
    fix k assume k: "k < length (take (l - cursor) (drop cursor (cells col)))"
    then have "base + (cursor + k) < h" using l by auto
    then have "base + (cursor + k) \<notin> set (h # hits)"
      using Cons.prems(1) by (auto simp: not_le)
    then have "override_at edits i (base + (cursor + k)) = None"
      using Cons.prems(4)[rule_format, of "base + (cursor + k)"] k l len by simp
    with k len l show "take (l - cursor) (drop cursor (cells col)) ! k = take (l - cursor) (drop cursor ?E) ! k"
      by (simp add: edited_cell_def)
  qed (simp add: len)
  with b have b': "concat (map cells before) = take (l - cursor) (drop cursor ?E)" by simp
  have rest: "drop cursor ?E = take (l - cursor) (drop cursor ?E) @ [?E ! l] @ drop (l + 1) ?E"
  proof -
    have "drop cursor ?E = take (l - cursor) (drop cursor ?E) @ drop (l - cursor) (drop cursor ?E)"
      by (rule append_take_drop_id[symmetric])
    also have "drop (l - cursor) (drop cursor ?E) = drop l ?E" using l by simp
    also have "drop l ?E = ?E ! l # drop (Suc l) ?E"
      using l len by (intro Cons_nth_drop_Suc[symmetric]) simp
    finally show ?thesis by simp
  qed
  obtain piece where piece: "splice_piece A edits i col h l = Ok piece"
      "data_type_of piece = data_type_of col" "cells piece = [?E ! l]"
    using splice_piece_ok[OF l(1), of col edits i] Cons.prems(5,7) l(3) by auto
  have "splice_pieces A edits base i col n cursor (h # hits) = Ok (before @ [piece] @ ps)"
    using piece(1) ps(1) by (simp add: Let_def before_def flip: l_def)
  moreover have "concat (map cells (before @ [piece] @ ps)) = drop cursor ?E"
    using b' piece ps rest by simp
  ultimately show ?case using b piece ps by auto
qed

lemma splice_column_ok:
  assumes hits: "hits = sort (filter (\<lambda>k. k \<ge> base \<and> k < base + n) (map fst (updates edits)))"
    and dist: "distinct (map fst (updates edits))" and n: "array_len col = n"
    and fit: "\<forall>h. override_ok edits i (data_type_of col) h" and ne: "hits \<noteq> []"
  shows "\<exists>c. splice_column A edits base n hits i col = Ok c \<and> data_type_of c = data_type_of col
    \<and> cells c = edited_cells edits base i (cells col)"
proof -
  have none: "override_at edits i r = None" if "base \<le> r" "r < base + n" "r \<notin> set hits" for r
  proof -
    have "r \<notin> fst ` set (updates edits)" using that hits by auto
    then have "map_of (updates edits) r = None" by (simp add: map_of_eq_None_iff)
    then show ?thesis by (simp add: override_at_def)
  qed
  show ?thesis
  proof (cases "list_ex (\<lambda>absr. override_at edits i absr \<noteq> None) hits")
    case False
    then have "override_at edits i r = None" if "base \<le> r" "r < base + n" for r
      using none that by (auto simp: list_ex_iff)
    then have "edited_cells edits base i (cells col) = cells col"
      using n by (intro nth_equalityI) (auto simp: edited_cell_def array_len_def)
    with False show ?thesis by (simp add: splice_column_def)
  next
    case True
    obtain ps where ps: "splice_pieces A edits base i col n 0 hits = Ok ps"
      "\<forall>p \<in> set ps. data_type_of p = data_type_of col"
      "concat (map cells ps) = edited_cells edits base i (cells col)"
    proof -
      have "sorted hits" "distinct hits" "\<forall>h \<in> set hits. base + 0 \<le> h \<and> h < base + n"
        unfolding hits using dist by (simp_all add: distinct_filter)
      moreover have "\<forall>r. base + 0 \<le> r \<longrightarrow> r < base + n \<longrightarrow> r \<notin> set hits \<longrightarrow> override_at edits i r = None"
        using none by simp
      moreover have "\<forall>h \<in> set hits. override_ok edits i (data_type_of col) h" using fit by blast
      ultimately show thesis
        using splice_pieces_ok[of hits base 0 n edits i col] n that by (metis drop_0 zero_le)
    qed
    have "0 < n" using ne hits by (cases n) auto
    then have "length (concat (map cells ps)) > 0" using ps(3) n by (simp add: array_len_def)
    then have "ps \<noteq> []" by auto
    then obtain c where "concat_op A ps = Inr c" "data_type_of c = data_type_of col"
      "cells c = edited_cells edits base i (cells col)"
      using concat_ok[OF _ ps(2)] ps(3) by auto
    with True ps show ?thesis by (simp add: splice_column_def)
  qed
qed

end

lemma keep_masked_via_index:
  assumes "length msk = length xs"
  shows "keep_masked msk xs = map (nth xs) (keep_masked msk [0..<length xs])"
proof -
  have "zip msk xs = map (\<lambda>(m, i). (m, xs ! i)) (zip msk [0..<length xs])"
    using assms by (intro nth_equalityI) auto
  then show ?thesis
    by (simp add: keep_masked_def filter_map comp_def case_prod_beta)
qed

lemma batch_rows_filter:
  assumes "wf_batch b" "length msk = num_rows b"
    and "map cells (columns r) = map (\<lambda>c. keep_masked msk (cells c)) (columns b)"
    and "num_rows r = length (filter id msk)"
  shows "batch_rows r = keep_masked msk (batch_rows b)"
proof -
  let ?is = "keep_masked msk [0..<num_rows b]"
  have n: "length ?is = num_rows r" using assms by (simp add: length_keep_masked)
  have col: "map (\<lambda>c. cells c ! k) (columns r) = map (\<lambda>c. cells c ! (?is ! k)) (columns b)"
    if k: "k < num_rows r" for k
  proof -
    have "map (\<lambda>c. cells c ! k) (columns r) = map (\<lambda>xs. xs ! k) (map cells (columns r))" by simp
    also have "\<dots> = map (\<lambda>c. keep_masked msk (cells c) ! k) (columns b)" unfolding assms(3) by simp
    also have "\<dots> = map (\<lambda>c. cells c ! (?is ! k)) (columns b)"
    proof (rule map_cong[OF refl])
      fix c assume "c \<in> set (columns b)"
      then have "length (cells c) = num_rows b"
        using assms(1) by (auto simp: wf_batch_def fits_schema_def list_all_iff array_len_def)
      then have "keep_masked msk (cells c) = map (nth (cells c)) ?is"
        using keep_masked_via_index[of msk "cells c"] assms(2) by simp
      with k n show "keep_masked msk (cells c) ! k = cells c ! (?is ! k)" by simp
    qed
    finally show ?thesis .
  qed
  have "?is ! k < num_rows b" if "k < num_rows r" for k
    using nth_mem[of k ?is] that n set_keep_masked[of msk "[0..<num_rows b]"] by (metis atLeastLessThan_iff set_upt subsetD)
  then have "batch_rows r = map (nth (batch_rows b)) ?is"
    using n col by (intro nth_equalityI) (auto simp: batch_rows_def)
  also have "\<dots> = keep_masked msk (batch_rows b)"
    using keep_masked_via_index[of msk "batch_rows b"] assms(2) by (simp add: batch_rows_def)
  finally show ?thesis .
qed

lemma edit_rows_masked:
  "edit_rows edits base rows =
    keep_masked (map (\<lambda>l. base + l \<notin> deletes edits) [0..<length rows])
      (map (\<lambda>l. edited_row edits (base + l) (rows ! l)) [0..<length rows])"
proof (induction rows arbitrary: base)
  case (Cons row rows)
  have "[0..<length (row # rows)] = 0 # map Suc [0..<length rows]"
    by (simp add: upt_conv_Cons map_Suc_upt del: upt_Suc)
  with Cons[of "Suc base"] show ?case
    by (simp add: keep_masked_def comp_def del: upt_Suc)
qed (simp add: keep_masked_def)

lemma fold_clear_mask:
  assumes "\<forall>d \<in> set ds. base \<le> d \<and> d < base + length m"
  shows "fold (\<lambda>absr m. m[absr - base := False]) ds m
    = map (\<lambda>l. m ! l \<and> base + l \<notin> set ds) [0..<length m]"
  using assms
proof (induction ds arbitrary: m)
  case Nil
  then show ?case by (simp add: map_nth)
next
  case (Cons d ds)
  then have "fold (\<lambda>absr m. m[absr - base := False]) (d # ds) m
    = map (\<lambda>l. m[d - base := False] ! l \<and> base + l \<notin> set ds) [0..<length m]" by simp
  also have "\<dots> = map (\<lambda>l. m ! l \<and> base + l \<notin> set (d # ds)) [0..<length m]"
    using Cons.prems by (intro map_cong refl) (auto simp: nth_list_update split: if_splits)
  finally show ?case .
qed

lemma set_bitmap_range: "set (bitmap_range S lo hi) = {x \<in> S. lo \<le> x \<and> x < hi}"
proof -
  have "finite (Set.filter (\<lambda>x. lo \<le> x \<and> x < hi) S)"
    by (rule finite_subset[of _ "{..<hi}"]) auto
  then show ?thesis by (auto simp: bitmap_range_def)
qed


section \<open>Whole batches and blobs\<close>

lemma wf_batch_column:
  assumes "wf_batch b" "i < length (columns b)"
  shows "length (cells (columns b ! i)) = num_rows b" "i < length (batch_schema b)"
    "data_type_of (columns b ! i) = field_type (batch_schema b ! i)"
proof -
  have a: "length (columns b) = length (batch_schema b)"
    "list_all (\<lambda>c. array_len c = num_rows b) (columns b)"
    "list_all2 (\<lambda>f c. data_type_of c = field_type f \<and> (nullable f \<or> None \<notin> set (cells c)))
      (batch_schema b) (columns b)"
    using assms(1) unfolding wf_batch_def fits_schema_def by blast+
  show "length (cells (columns b ! i)) = num_rows b"
    using a(2) assms(2) by (simp only: list_all_length array_len_def)
  show i: "i < length (batch_schema b)" using a(1) assms(2) by simp
  show "data_type_of (columns b ! i) = field_type (batch_schema b ! i)"
    using list_all2_nthD[OF a(3) i] by (rule conjunct1)
qed

lemma override_at_fits:
  "edits_fit sch edits \<Longrightarrow> i < length sch \<Longrightarrow> override_ok edits i (field_type (sch ! i)) r"
  by (simp add: edits_fit_def override_ok_def)

lemma edited_row_nth [simp]: "length (edited_row edits r row) = length row"
  "i < length row \<Longrightarrow> edited_row edits r row ! i = edited_cell edits r i (row ! i)"
  by (simp_all add: edited_row_def nth_enumerate_eq)

text \<open>What the kernel must make of the columns of a batch.\<close>

definition columns_edited :: "blob_edits \<Rightarrow> nat \<Rightarrow> arrow_array list \<Rightarrow> arrow_array list \<Rightarrow> bool" where
  "columns_edited edits base cols cols' \<longleftrightarrow> length cols' = length cols
    \<and> (\<forall>i < length cols. data_type_of (cols' ! i) = data_type_of (cols ! i)
        \<and> cells (cols' ! i) = edited_cells edits base i (cells (cols ! i)))"

lemma columns_edited_fits:
  assumes "fits_schema sch cols n" "edits_fit sch edits" "columns_edited edits base cols cols'"
  shows "fits_schema sch cols' n"
proof -
  have len: "length cols = length sch" "length cols' = length sch" "\<forall>i < length sch. array_len (cols ! i) = n"
    using assms by (auto simp: fits_schema_def columns_edited_def list_all_length)
  have "nullable (sch ! i) \<or> None \<notin> set (cells (cols' ! i))" if i: "i < length sch" for i
  proof (cases "nullable (sch ! i)")
    case False
    then have old: "None \<notin> set (cells (cols ! i))"
      using assms(1) i len by (auto simp: fits_schema_def list_all2_conv_all_nth)
    have "edited_cell edits (base + l) i (cells (cols ! i) ! l) \<noteq> None" if "l < n" for l
    proof (cases "override_at edits i (base + l)")
      case None
      have "cells (cols ! i) ! l \<in> set (cells (cols ! i))"
        using that i len by (auto simp: array_len_def)
      with None old show ?thesis by (metis edited_cell_def option.case(1))
    next
      case (Some a)
      then have "array_len a = 1" "None \<notin> set (cells a)"
        using assms(2) i False by (auto simp: edits_fit_def)
      with Some show ?thesis
        by (cases "cells a") (auto simp: edited_cell_def array_len_def)
    qed
    then have "\<forall>l < length (cells (cols' ! i)). cells (cols' ! i) ! l \<noteq> None"
      using assms(3) i len by (auto simp: columns_edited_def array_len_def)
    then show ?thesis by (metis in_set_conv_nth)
  qed simp
  then show ?thesis
    using assms len by (auto simp: fits_schema_def columns_edited_def list_all_length
        list_all2_conv_all_nth array_len_def)
qed

lemma columns_edited_rows:
  assumes "columns_edited edits base (columns b) cols'" "wf_batch b"
  shows "batch_rows \<lparr> batch_schema = sch, columns = cols', num_rows = num_rows b \<rparr>
    = map (\<lambda>l. edited_row edits (base + l) (batch_rows b ! l)) [0..<num_rows b]"
proof (rule nth_equalityI)
  fix l assume "l < length (batch_rows \<lparr> batch_schema = sch, columns = cols', num_rows = num_rows b \<rparr>)"
  then have l: "l < num_rows b" by (simp add: batch_rows_def)
  have len: "\<forall>i < length (columns b). length (cells (columns b ! i)) = num_rows b"
    using assms(2) by (auto simp: wf_batch_def fits_schema_def list_all_length array_len_def)
  have "map (\<lambda>c. cells c ! l) cols' = edited_row edits (base + l) (map (\<lambda>c. cells c ! l) (columns b))"
    using assms(1) l len by (intro nth_equalityI) (auto simp: columns_edited_def)
  with l show "batch_rows \<lparr> batch_schema = sch, columns = cols', num_rows = num_rows b \<rparr> ! l
    = map (\<lambda>l. edited_row edits (base + l) (batch_rows b ! l)) [0..<num_rows b] ! l"
    by (simp add: batch_rows_def)
qed (simp add: batch_rows_def)

context arrow_compute
begin

lemma edited_columns_ok:
  assumes wf: "wf_batch b" and fit: "edits_fit (batch_schema b) edits"
    and hits: "hits = sort (filter (\<lambda>k. k \<ge> base \<and> k < base + num_rows b) (map fst (updates edits)))"
  shows "\<exists>cols'. (if updates edits = [] \<or> hits = [] then Ok (columns b)
           else try_map (\<lambda>(i, col). splice_column A edits base (num_rows b) hits i col) (enumerate 0 (columns b)))
      = Ok cols' \<and> columns_edited edits base (columns b) cols'"
proof (cases "updates edits = [] \<or> hits = []")
  case True
  have "override_at edits i (base + l) = None" if "l < num_rows b" for i l
  proof -
    have "set hits = {k \<in> fst ` set (updates edits). base \<le> k \<and> k < base + num_rows b}"
      unfolding hits by auto
    then have "base + l \<notin> fst ` set (updates edits)" using True that by auto
    then have "map_of (updates edits) (base + l) = None" by (simp add: map_of_eq_None_iff)
    then show ?thesis by (simp add: override_at_def)
  qed
  moreover have "length (cells (columns b ! i)) = num_rows b" if "i < length (columns b)" for i
    using wf that by (simp add: wf_batch_def fits_schema_def list_all_length array_len_def)
  ultimately have "edited_cells edits base i (cells (columns b ! i)) = cells (columns b ! i)"
    if "i < length (columns b)" for i
    using that by (intro nth_equalityI) (simp_all add: edited_cell_def)
  then have "columns_edited edits base (columns b) (columns b)" by (simp add: columns_edited_def)
  then show ?thesis using True by (intro exI[of _ "columns b"]) simp
next
  case False
  let ?f = "\<lambda>(i, col). splice_column A edits base (num_rows b) hits i col"
  have "\<exists>c. ?f (i, columns b ! i) = Ok c \<and> data_type_of c = data_type_of (columns b ! i)
      \<and> cells c = edited_cells edits base i (cells (columns b ! i))" if i: "i < length (columns b)" for i
  proof -
    have len: "array_len (columns b ! i) = num_rows b"
      using wf_batch_column(1)[OF wf i] by (simp add: array_len_def)
    note i' = wf_batch_column(2)[OF wf i] and t = wf_batch_column(3)[OF wf i]
    have dist: "distinct (map fst (updates edits))" using fit by (simp add: edits_fit_def)
    have ok: "\<forall>h. override_ok edits i (data_type_of (columns b ! i)) h"
      using override_at_fits[OF fit i'] t by simp
    have "hits \<noteq> []" using False by simp
    from splice_column_ok[OF hits dist len ok this] show ?thesis unfolding prod.case .
  qed
  then obtain g where g: "\<forall>i < length (columns b). ?f (i, columns b ! i) = Ok (g i)
      \<and> data_type_of (g i) = data_type_of (columns b ! i)
      \<and> cells (g i) = edited_cells edits base i (cells (columns b ! i))" by metis
  then have "try_map ?f (enumerate 0 (columns b)) = Ok (map g [0..<length (columns b)])"
    unfolding try_map_Inr_iff by (auto simp: list_all2_conv_all_nth nth_enumerate_eq)
  moreover have "columns_edited edits base (columns b) (map g [0..<length (columns b)])"
    using g unfolding columns_edited_def by simp
  ultimately show ?thesis using False by (intro exI[of _ "map g [0..<length (columns b)]"]) simp
qed

lemma apply_edits_batch_ok:
  assumes wf: "wf_batch b" and fit: "edits_fit (batch_schema b) edits"
    and bound: "base + num_rows b \<le> u32_MAX"
  shows "\<exists>r. apply_edits_batch A b base (batch_schema b) edits = Ok r \<and> wf_batch r
    \<and> batch_schema r = batch_schema b \<and> batch_rows r = edit_rows edits base (batch_rows b)"
proof -
  define n where "n = num_rows b"
  define hits where "hits = sort (filter (\<lambda>k. k \<ge> base \<and> k < base + n) (map fst (updates edits)))"
  define dels where "dels = bitmap_range (deletes edits) (base mod 2 ^ 32) (min (base + n) u32_MAX)"
  define msk where "msk = fold (\<lambda>absr m. m[absr - base := False]) dels (replicate n True)"
  obtain cols' where cols': "(if updates edits = [] \<or> hits = [] then Ok (columns b)
      else try_map (\<lambda>(i, col). splice_column A edits base n hits i col) (enumerate 0 (columns b))) = Ok cols'"
    and ce: "columns_edited edits base (columns b) cols'"
    using edited_columns_ok[OF wf fit, of hits base] unfolding hits_def n_def by blast
  define u where "u = \<lparr> batch_schema = batch_schema b, columns = cols', num_rows = n \<rparr>"
  have fs: "fits_schema (batch_schema b) cols' n"
    using columns_edited_fits[OF _ fit ce, of n] wf by (simp add: wf_batch_def n_def)
  then have u: "try_new_op A (batch_schema b) cols' = Inr u" "wf_batch u"
    using try_new by (auto simp: u_def wf_batch_def)
  have rows_u: "batch_rows u = map (\<lambda>l. edited_row edits (base + l) (batch_rows b ! l)) [0..<n]"
    unfolding u_def n_def by (rule columns_edited_rows[OF ce wf])
  have base: "base mod 2 ^ 32 = base" "min (base + n) u32_MAX = base + n"
    using bound by (auto simp: u32_MAX_def n_def)
  have set_dels: "set dels = {x \<in> deletes edits. base \<le> x \<and> x < base + n}"
    unfolding dels_def base by (rule set_bitmap_range)
  have msk: "msk = map (\<lambda>l. base + l \<notin> deletes edits) [0..<n]"
  proof -
    have "msk = map (\<lambda>l. replicate n True ! l \<and> base + l \<notin> set dels) [0..<length (replicate n True)]"
      unfolding msk_def by (rule fold_clear_mask) (simp add: set_dels)
    also have "\<dots> = map (\<lambda>l. base + l \<notin> deletes edits) [0..<n]"
      using set_dels by (auto intro!: map_cong)
    finally show ?thesis .
  qed
  have spec: "edit_rows edits base (batch_rows b) = keep_masked msk (batch_rows u)"
    unfolding edit_rows_masked rows_u msk by (simp add: batch_rows_def n_def)
  have step: "apply_edits_batch A b base (batch_schema b) edits =
      (if dels = [] then Ok u
       else (case filter_op A u msk of Inl e \<Rightarrow> Err (Arrow e) | Inr r \<Rightarrow> Ok r))"
    unfolding apply_edits_batch_def Let_def n_def[symmetric] hits_def[symmetric] dels_def[symmetric]
      msk_def[symmetric] cols' and_then.simps u(1) sum.case by (rule refl)
  show ?thesis
  proof (cases "dels = []")
    case True
    then have "msk = replicate n True" using msk_def by simp
    then have "keep_masked msk (batch_rows u) = batch_rows u"
      using rows_u by (auto simp: keep_masked_def zip_replicate1 filter_map comp_def)
    then show ?thesis using step True u spec by (auto simp: u_def)
  next
    case False
    have "length msk = num_rows u" by (simp add: msk u_def)
    then obtain r where "filter_op A u msk = Inr r" "wf_batch r" "batch_schema r = batch_schema u"
      "batch_rows r = keep_masked msk (batch_rows u)"
      using filter_ok[OF u(2)] batch_rows_filter[OF u(2)] by metis
    then show ?thesis using step False spec by (auto simp: u_def)
  qed
qed

lemma apply_edits_from_ok:
  assumes "\<forall>b \<in> set bs. wf_batch b \<and> batch_schema b = sch" "edits_fit sch edits"
    and "off + sum_list (map num_rows bs) \<le> u32_MAX"
  shows "\<exists>rs. apply_edits_from A sch edits off bs = Ok rs
    \<and> (\<forall>r \<in> set rs. wf_batch r \<and> batch_schema r = sch)
    \<and> concat (map batch_rows rs) = edit_rows edits off (concat (map batch_rows bs))"
  using assms
proof (induction bs arbitrary: off)
  case (Cons b bs)
  then obtain r where r: "apply_edits_batch A b off sch edits = Ok r" "wf_batch r" "batch_schema r = sch"
    "batch_rows r = edit_rows edits off (batch_rows b)"
    using apply_edits_batch_ok[of b edits off] by auto
  moreover obtain rs where "apply_edits_from A sch edits (off + num_rows b) bs = Ok rs"
    "\<forall>r \<in> set rs. wf_batch r \<and> batch_schema r = sch"
    "concat (map batch_rows rs) = edit_rows edits (off + num_rows b) (concat (map batch_rows bs))"
    using Cons.IH[of "off + num_rows b"] Cons.prems by (auto simp: add.assoc)
  moreover have "length (batch_rows b) = num_rows b" by (simp add: batch_rows_def)
  ultimately show ?case by (auto simp: edit_rows_append)
qed simp

end

section \<open>Properties\<close>

text \<open>C6: the rewrite of a blob is the row-by-row edit.  For any kernels that do what the
  arrow documentation says, a blob of at most \<^verbatim>\<open>u32::MAX\<close> rows, split into batches in any
  way, and edits that fit its schema, \<^verbatim>\<open>apply_edits\<close> succeeds, and the rows of its output
  are the rows of the input with the overridden cells replaced and the deleted rows
  dropped, in order.\<close>

theorem apply_edits_correct:
  assumes "arrow_compute A" "\<forall>b \<in> set bs. wf_batch b \<and> batch_schema b = sch" "edits_fit sch edits"
    and "sum_list (map num_rows bs) \<le> u32_MAX"
  shows "\<exists>rs. apply_edits A bs sch edits = Ok rs
    \<and> (\<forall>r \<in> set rs. wf_batch r \<and> batch_schema r = sch)
    \<and> concat (map batch_rows rs) = edit_rows edits 0 (concat (map batch_rows bs))"
  using arrow_compute.apply_edits_from_ok[OF assms(1-3), of 0] assms(4)
  by (simp add: apply_edits_def)

definition example_schema :: schema where
  "example_schema = [\<lparr> field_name = ''id'', field_type = Int64, nullable = False \<rparr>]"

definition example_batch :: "int list \<Rightarrow> record_batch" where
  "example_batch xs = \<lparr> batch_schema = example_schema,
     columns = [\<lparr> data_type_of = Int64, cells = map (\<lambda>x. Some (CInt x)) xs \<rparr>],
     num_rows = length xs \<rparr>"

definition example_edits :: blob_edits where
  "example_edits = \<lparr> deletes = {1},
     updates = [(2, [Some \<lparr> data_type_of = Int64, cells = [Some (CInt 30)] \<rparr>])] \<rparr>"

lemma example_edits_fit: "edits_fit example_schema example_edits"
  by (auto simp: edits_fit_def example_schema_def example_edits_def override_at_def array_len_def
      split: if_splits)

theorem apply_edits_correct_witness:
  "\<exists>rs. apply_edits list_arrow [example_batch [1, 2], example_batch [3, 4]] example_schema example_edits = Ok rs
    \<and> (\<forall>r \<in> set rs. wf_batch r \<and> batch_schema r = example_schema)
    \<and> concat (map batch_rows rs) = [[Some (CInt 1)], [Some (CInt 30)], [Some (CInt 4)]]"
proof -
  have w: "\<forall>b \<in> set [example_batch [1, 2], example_batch [3, 4]]. wf_batch b \<and> batch_schema b = example_schema"
    by (simp add: wf_batch_def fits_schema_def example_batch_def example_schema_def array_len_def)
  have "sum_list (map num_rows [example_batch [1, 2], example_batch [3, 4]]) \<le> u32_MAX"
    by (simp add: example_batch_def u32_MAX_def)
  moreover have "edit_rows example_edits 0 (concat (map batch_rows [example_batch [1, 2], example_batch [3, 4]]))
      = [[Some (CInt 1)], [Some (CInt 30)], [Some (CInt 4)]]"
    by (simp add: example_batch_def example_edits_def batch_rows_def edited_row_def edited_cell_def
        override_at_def upt_rec)
  ultimately show ?thesis
    using apply_edits_correct[OF la.arrow_compute_axioms w example_edits_fit] by simp
qed

end
