(* ===== verification/Rowid.thy ===== *)
theory Rowid
  imports Prelude
begin

text \<open>
  The synthetic row identifier, \<^verbatim>\<open>src/fdw/modify/rowid.rs\<close>: a \<^verbatim>\<open>RowId\<close> is packed
  into PostgreSQL's \<^verbatim>\<open>ItemPointerData\<close> and recovered from it.  All fields keep their
  machine width.  The subtraction of \<^verbatim>\<open>chunk_index_within_blob\<close> is the wrapping
  subtraction of a release build.
\<close>

unbundle bit_operations_syntax

definition CHUNK_ROWS :: "64 word" where
  "CHUNK_ROWS = 65536"

record row_id =
  blob_id :: "32 word"
  offset :: "16 word"

record item_pointer =
  bi_hi :: "16 word"
  bi_lo :: "16 word"
  ip_posid :: "16 word"

definition saturating_add32 :: "32 word \<Rightarrow> 32 word \<Rightarrow> 32 word" where
  "saturating_add32 a b = (if unat a + unat b < 2 ^ 32 then a + b else - 1)"

definition from_absolute :: "32 word \<Rightarrow> 64 word \<Rightarrow> row_id" where
  "from_absolute blob_base_id abs_row =
    (let chunk = ucast (abs_row div CHUNK_ROWS) :: 32 word;
         off = ucast (abs_row mod CHUNK_ROWS) :: 16 word
     in \<lparr> blob_id = saturating_add32 blob_base_id chunk, offset = off \<rparr>)"

definition to_ctid :: "row_id \<Rightarrow> item_pointer" where
  "to_ctid r =
    \<lparr> bi_hi = ucast (drop_bit 16 (blob_id r)),
      bi_lo = ucast (blob_id r AND 0xffff),
      ip_posid = offset r \<rparr>"

definition from_ctid :: "item_pointer \<Rightarrow> row_id" where
  "from_ctid c =
    \<lparr> blob_id = push_bit 16 (ucast (bi_hi c)) OR ucast (bi_lo c), offset = ip_posid c \<rparr>"

definition chunk_index_within_blob :: "row_id \<Rightarrow> 32 word \<Rightarrow> 32 word" where
  "chunk_index_within_blob r blob_base_id = blob_id r - blob_base_id"

definition absolute_row_within_blob :: "row_id \<Rightarrow> 32 word \<Rightarrow> 64 word" where
  "absolute_row_within_blob r blob_base_id =
    ucast (chunk_index_within_blob r blob_base_id) * CHUNK_ROWS + ucast (offset r)"

section \<open>Lemmas\<close>

lemma low_half_mask: "(0xffff :: 32 word) = mask 16"
  by (simp add: mask_eq_exp_minus_1)

lemma unat_ucast_mod:
  "unat (ucast (w :: 'a::len word) :: 'b::len word) = unat w mod 2 ^ LENGTH('b)"
  by (simp add: unsigned_ucast_eq take_bit_eq_mod)

lemma split_block_number:
  fixes w :: "32 word"
  shows "push_bit 16 (ucast (ucast (drop_bit 16 w) :: 16 word) :: 32 word)
    OR ucast (ucast (w AND 0xffff) :: 16 word) = w"
proof (rule bit_word_eqI)
  fix n assume "n < LENGTH(32)"
  then have n: "n < 32" by simp
  have "bit (0xffff :: 32 word) n \<longleftrightarrow> n < 16"
    using n by (simp add: low_half_mask bit_mask_iff)
  with n show "bit (push_bit 16 (ucast (ucast (drop_bit 16 w) :: 16 word) :: 32 word)
      OR ucast (ucast (w AND 0xffff) :: 16 word)) n \<longleftrightarrow> bit w n"
    by (auto simp: bit_or_iff bit_push_bit_iff bit_ucast_iff bit_drop_bit_eq bit_and_iff)
qed

lemma join_block_number_hi:
  fixes h l :: "16 word"
  shows "ucast (drop_bit 16 (push_bit 16 (ucast h) OR ucast l :: 32 word)) = h"
  by (rule bit_word_eqI)
    (auto simp: bit_or_iff bit_push_bit_iff bit_ucast_iff bit_drop_bit_eq dest: bit_imp_le_length)

lemma join_block_number_lo:
  fixes h l :: "16 word"
  shows "ucast ((push_bit 16 (ucast h) OR ucast l :: 32 word) AND 0xffff) = l"
proof (rule bit_word_eqI)
  fix n assume "n < LENGTH(16)"
  then have n: "n < 16" by simp
  have "bit (0xffff :: 32 word) n"
    using n by (simp add: low_half_mask bit_mask_iff)
  with n show "bit (ucast ((push_bit 16 (ucast h) OR ucast l :: 32 word) AND 0xffff) :: 16 word) n \<longleftrightarrow> bit l n"
    by (auto simp: bit_or_iff bit_push_bit_iff bit_ucast_iff bit_and_iff)
qed

lemma from_to_ctid [simp]: "from_ctid (to_ctid r) = r"
  by (simp add: from_ctid_def to_ctid_def split_block_number)

lemma to_from_ctid [simp]: "to_ctid (from_ctid c) = c"
  unfolding from_ctid_def to_ctid_def row_id.select_convs join_block_number_hi join_block_number_lo
  by simp

lemma unat_div_chunk: "unat (a div CHUNK_ROWS) = unat a div 65536"
  by (simp add: CHUNK_ROWS_def unat_div)

lemma unat_mod_chunk: "unat (a mod CHUNK_ROWS) = unat a mod 65536"
  by (simp add: CHUNK_ROWS_def unat_mod)

lemma absolute_from_absolute:
  assumes "unat base + unat a div 65536 < 2 ^ 32"
  shows "absolute_row_within_blob (from_absolute base a) base = a"
proof -
  let ?chunk = "ucast (a div CHUNK_ROWS) :: 32 word"
  have c: "unat ?chunk = unat a div 65536"
    using assms by (simp add: unat_ucast_mod unat_div_chunk)
  have o: "unat (ucast (a mod CHUNK_ROWS) :: 16 word) = unat a mod 65536"
    by (simp add: unat_ucast_mod unat_mod_chunk)
  have "absolute_row_within_blob (from_absolute base a) base
      = ucast ?chunk * CHUNK_ROWS + ucast (ucast (a mod CHUNK_ROWS) :: 16 word)"
    using assms c by (simp add: absolute_row_within_blob_def chunk_index_within_blob_def
        from_absolute_def saturating_add32_def Let_def)
  also have "\<dots> = of_nat (unat a div 65536) * 65536 + of_nat (unat a mod 65536)"
    unfolding CHUNK_ROWS_def c[symmetric] o[symmetric] by simp
  also have "\<dots> = of_nat (unat a div 65536 * 65536 + unat a mod 65536)"
    by (simp only: of_nat_add of_nat_mult of_nat_numeral)
  also have "\<dots> = of_nat (unat a)" by (rule arg_cong[of _ _ of_nat]) (rule div_mult_mod_eq)
  also have "\<dots> = a" by simp
  finally show ?thesis .
qed

section \<open>Properties\<close>

text \<open>C25: the packing of a row identifier into a ctid is a bijection: unpacking gives
  the identifier back, and packing what was unpacked gives the ctid back.\<close>

theorem ctid_bijection: "from_ctid (to_ctid r) = r \<and> to_ctid (from_ctid c) = c"
  by simp

text \<open>C26: the ctid made for the absolute row \<open>a\<close> of a blob identifies that row: as long
  as the last chunk number fits 32 bits, the row recovered from the ctid is \<open>a\<close>, so two
  rows of a blob never share a ctid.\<close>

theorem ctid_recovers_row:
  assumes "unat base + unat a div 65536 < 2 ^ 32"
  shows "absolute_row_within_blob (from_ctid (to_ctid (from_absolute base a))) base = a"
  using absolute_from_absolute[OF assms] by simp

theorem ctid_recovers_row_witness:
  "absolute_row_within_blob (from_ctid (to_ctid (from_absolute 7 131075))) 7 = 131075"
  by (rule ctid_recovers_row) simp

end
