(* ===== verification/Azure_Client.thy ===== *)
theory Azure_Client
  imports Fdw_Error
begin

text \<open>
  \<^verbatim>\<open>src/azure/mod.rs\<close>, \<^verbatim>\<open>src/azure/writer.rs\<close> and the size lookup of \<^verbatim>\<open>src/azure/reader.rs\<close>: the
  container client.  The Azure SDK and the storage service behind it are one parameter, the
  record \<open>blob_service\<close> of the SDK calls the client makes, over a state type of their own; every
  client method is a function from that record and a state to its result and the next state.

  What the rest of the extension relies on is the locale \<open>blob_store\<close>: conditional writes take
  effect only on a blob with the given ETag, and an ETag that has been replaced does not come
  back.  \<open>later\<close> orders the states, so that other clients may act between two of our requests.
  The locale \<open>responsive_store\<close> adds that the service answers and that nobody interferes.
\<close>

type_synonym bytes = string

datatype sdk_error = SdkError (http_status: "nat option") (display: string)

record download_response =
  content_length :: "nat option"
  resp_etag :: "string option"
  resp_body :: "sdk_error + bytes"

record blob_properties =
  prop_etag :: "sdk_error + string option"
  prop_content_length :: "sdk_error + nat option"

record list_item =
  item_name :: "string option"
  item_etag :: "string option"

text \<open>\<^verbatim>\<open>download\<close> takes the \<^verbatim>\<open>if_match\<close> option and the byte range, \<^verbatim>\<open>upload\<close> the body, \<^verbatim>\<open>if_match\<close> and
  \<^verbatim>\<open>if_none_match\<close>, \<^verbatim>\<open>delete\<close> \<^verbatim>\<open>if_match\<close>; \<^verbatim>\<open>list_blobs\<close> gives the items its pager yields.\<close>

record 's blob_service =
  svc_download :: "string \<Rightarrow> string option \<Rightarrow> (nat \<times> nat) option \<Rightarrow> 's \<Rightarrow> (sdk_error + download_response) \<times> 's"
  svc_get_properties :: "string \<Rightarrow> 's \<Rightarrow> (sdk_error + blob_properties) \<times> 's"
  svc_upload :: "string \<Rightarrow> bytes \<Rightarrow> string option \<Rightarrow> string option \<Rightarrow> 's \<Rightarrow> (sdk_error + string option) \<times> 's"
  svc_delete :: "string \<Rightarrow> string option \<Rightarrow> 's \<Rightarrow> (sdk_error + unit) \<times> 's"
  svc_list :: "string \<Rightarrow> 's \<Rightarrow> (sdk_error + (sdk_error + list_item) list) \<times> 's"

definition MAX_LIST_RESULTS :: nat where "MAX_LIST_RESULTS = 100000"
definition MAX_BLOB_BYTES :: nat where "MAX_BLOB_BYTES = 512 * 1024 * 1024"

abbreviation PreconditionFailed :: nat where "PreconditionFailed \<equiv> 412"
abbreviation NotFound :: nat where "NotFound \<equiv> 404"

text \<open>A computation that returns a result and the next state, followed by another.\<close>

definition st_then :: "('e + 'a) \<times> 's \<Rightarrow> ('a \<Rightarrow> 's \<Rightarrow> ('e + 'b) \<times> 's) \<Rightarrow> ('e + 'b) \<times> 's" where
  "st_then m f = (case m of (Inl e, s) \<Rightarrow> (Inl e, s) | (Inr a, s) \<Rightarrow> f a s)"

lemma st_then_simps [simp]:
  "st_then (Inl e, s) f = (Inl e, s)" "st_then (Inr a, s) f = f a s"
  by (simp_all add: st_then_def)

lemma st_then_Inr [result_simps]:
  "st_then m f = (Inr b, s') \<longleftrightarrow> (\<exists>a s1. m = (Inr a, s1) \<and> f a s1 = (Inr b, s'))"
  by (cases m; cases "fst m") auto

section \<open>Listing and properties\<close>

definition is_staging_name :: "string \<Rightarrow> bool" where
  "is_staging_name name = contains_str name ''.tmp.''"

text \<open>The loop over the pager; \<open>out\<close> is the list collected so far.\<close>

fun collect_listing :: "(sdk_error + list_item) list \<Rightarrow> (string \<times> string) list \<Rightarrow> (string \<times> string) list fdw_result" where
  "collect_listing [] out = Ok out"
| "collect_listing (Inl e # _) out = Err (azure_error (display e))"
| "collect_listing (Inr item # items) out =
    (case item_name item of
       None \<Rightarrow> collect_listing items out
     | Some name \<Rightarrow>
         if is_staging_name name then collect_listing items out
         else if length out \<ge> MAX_LIST_RESULTS then Err (Azure
           (''list_with_prefix exceeded MAX_LIST_RESULTS='' @ show_nat MAX_LIST_RESULTS
            @ ''; narrow the prefix or split the container''))
         else (case item_etag item of
                 None \<Rightarrow> Err (Azure (''list response for '' @ quoted name @ '' missing etag''))
               | Some etag \<Rightarrow> collect_listing items (out @ [(name, etag)])))"

definition list_with_prefix_etags :: "'s blob_service \<Rightarrow> string \<Rightarrow> 's \<Rightarrow> (string \<times> string) list fdw_result \<times> 's" where
  "list_with_prefix_etags svc prfx s =
    (case svc_list svc prfx s of
       (Inl e, s') \<Rightarrow> (Err (azure_error (display e)), s')
     | (Inr items, s') \<Rightarrow> (collect_listing items [], s'))"

definition list_with_prefix :: "'s blob_service \<Rightarrow> string \<Rightarrow> 's \<Rightarrow> string list fdw_result \<times> 's" where
  "list_with_prefix svc prfx s =
    st_then (list_with_prefix_etags svc prfx s) (\<lambda>l s'. (Ok (map fst l), s'))"

definition head_etag :: "'s blob_service \<Rightarrow> string \<Rightarrow> 's \<Rightarrow> string fdw_result \<times> 's" where
  "head_etag svc blob s =
    (case svc_get_properties svc blob s of
       (Inl e, s') \<Rightarrow>
         (if http_status e = Some NotFound then Err (ConcurrentUpdate blob ''blob disappeared'')
          else Err (azure_error (display e)), s')
     | (Inr resp, s') \<Rightarrow>
         (case prop_etag resp of
            Inl e \<Rightarrow> Err (azure_error (display e))
          | Inr None \<Rightarrow> Err (Azure (''HEAD '' @ quoted blob @ '' missing etag''))
          | Inr (Some etag) \<Rightarrow> Ok etag, s'))"

text \<open>\<^verbatim>\<open>AzureBlobReader::fetch_size\<close> with its cache; the parquet library's errors are their text.\<close>

definition fetch_size :: "'s blob_service \<Rightarrow> string \<Rightarrow> nat option \<Rightarrow> 's \<Rightarrow> (string + nat \<times> nat option) \<times> 's" where
  "fetch_size svc blob cached_size s =
    (case cached_size of
       Some n \<Rightarrow> (Inr (n, cached_size), s)
     | None \<Rightarrow>
        (case svc_get_properties svc blob s of
           (Inl e, s') \<Rightarrow> (Inl (display e), s')
         | (Inr resp, s') \<Rightarrow>
             (case prop_content_length resp of
                Inl e \<Rightarrow> Inl (display e)
              | Inr None \<Rightarrow> Inl ''blob has no Content-Length header''
              | Inr (Some len) \<Rightarrow> Inr (len, Some len), s')))"

definition get_bytes :: "'s blob_service \<Rightarrow> string \<Rightarrow> nat \<times> nat \<Rightarrow> 's \<Rightarrow> (string + bytes) \<times> 's" where
  "get_bytes svc blob rng s =
    (case svc_download svc blob None (Some rng) s of
       (Inl e, s') \<Rightarrow> (Inl (display e), s')
     | (Inr resp, s') \<Rightarrow> (case resp_body resp of Inl e \<Rightarrow> Inl (display e) | Inr b \<Rightarrow> Inr b, s'))"

section \<open>Conditional reads and writes\<close>

definition check_body :: "string \<Rightarrow> sdk_error + bytes \<Rightarrow> bytes fdw_result" where
  "check_body blob r =
    (case r of
       Inl e \<Rightarrow> Err (azure_error (display e))
     | Inr body \<Rightarrow>
         if length body > MAX_BLOB_BYTES then Err (Azure (''blob '' @ quoted blob @ '' body is ''
           @ show_nat (length body) @ '' bytes, exceeds MAX_BLOB_BYTES='' @ show_nat MAX_BLOB_BYTES))
         else Ok body)"

definition over_cap :: "nat option \<Rightarrow> bool" where
  "over_cap len = (case len of Some n \<Rightarrow> n > MAX_BLOB_BYTES | None \<Rightarrow> False)"

definition get_body_if_match :: "'s blob_service \<Rightarrow> string \<Rightarrow> string \<Rightarrow> 's \<Rightarrow> bytes fdw_result \<times> 's" where
  "get_body_if_match svc blob if_match s =
    (case svc_download svc blob (Some if_match) None s of
       (Inl e, s') \<Rightarrow>
         (if http_status e = Some PreconditionFailed then
            Err (ConcurrentUpdate blob ''blob changed since SELECT (etag mismatch on GET)'')
          else if http_status e = Some NotFound then Err (ConcurrentUpdate blob ''blob disappeared'')
          else Err (azure_error (display e)), s')
     | (Inr resp, s') \<Rightarrow>
         (if over_cap (content_length resp) then Err (Azure (''blob '' @ quoted blob @ '' is ''
            @ show_nat (the (content_length resp)) @ '' bytes, exceeds MAX_BLOB_BYTES='' @ show_nat MAX_BLOB_BYTES))
          else check_body blob (resp_body resp), s'))"

definition get_with_etag :: "'s blob_service \<Rightarrow> string \<Rightarrow> 's \<Rightarrow> (bytes \<times> string) fdw_result \<times> 's" where
  "get_with_etag svc blob s =
    (case svc_download svc blob None None s of
       (Inl e, s') \<Rightarrow>
         (if http_status e = Some NotFound then Err (ConcurrentUpdate blob ''blob disappeared'')
          else Err (azure_error (display e)), s')
     | (Inr resp, s') \<Rightarrow>
         (if over_cap (content_length resp) then Err (Azure (''blob '' @ quoted blob @ '' is ''
            @ show_nat (the (content_length resp)) @ '' bytes, exceeds MAX_BLOB_BYTES='' @ show_nat MAX_BLOB_BYTES
            @ ''; refusing to buffer in memory''))
          else and_then (ok_or (resp_etag resp) (Azure ''response missing ETag'')) (\<lambda>etag.
               and_then (check_body blob (resp_body resp)) (\<lambda>body. Ok (body, etag))), s'))"

definition refuse_upload :: "string \<Rightarrow> bytes \<Rightarrow> fdw_error" where
  "refuse_upload blob body = Azure (''refusing to upload blob '' @ quoted blob @ '': ''
     @ show_nat (length body) @ '' bytes exceeds MAX_BLOB_BYTES='' @ show_nat MAX_BLOB_BYTES)"

text \<open>The two conditional uploads differ in the option they set and in the reason they report.\<close>

definition conditional_put ::
  "'s blob_service \<Rightarrow> string \<Rightarrow> bytes \<Rightarrow> string option \<Rightarrow> string option \<Rightarrow> string \<Rightarrow> 's \<Rightarrow> string fdw_result \<times> 's" where
  "conditional_put svc blob body if_match if_none_match reason s =
    (if length body > MAX_BLOB_BYTES then (Err (refuse_upload blob body), s)
     else
      (case svc_upload svc blob body if_match if_none_match s of
         (Inl e, s') \<Rightarrow>
           (if http_status e = Some PreconditionFailed then Err (ConcurrentUpdate blob reason)
            else Err (azure_error (display e)), s')
       | (Inr etag, s') \<Rightarrow> (ok_or etag (Azure ''upload response missing ETag''), s')))"

definition put_if_match :: "'s blob_service \<Rightarrow> string \<Rightarrow> bytes \<Rightarrow> string \<Rightarrow> 's \<Rightarrow> string fdw_result \<times> 's" where
  "put_if_match svc blob body etag = conditional_put svc blob body (Some etag) None ''etag mismatch''"

definition put_if_none_match :: "'s blob_service \<Rightarrow> string \<Rightarrow> bytes \<Rightarrow> 's \<Rightarrow> string fdw_result \<times> 's" where
  "put_if_none_match svc blob body =
    conditional_put svc blob body None (Some ''*'') ''staging-name collision (If-None-Match)''"

definition delete_if_match :: "'s blob_service \<Rightarrow> string \<Rightarrow> string \<Rightarrow> 's \<Rightarrow> unit fdw_result \<times> 's" where
  "delete_if_match svc blob etag s =
    (case svc_delete svc blob (Some etag) s of
       (Inl e, s') \<Rightarrow>
         (if http_status e = Some PreconditionFailed then Err (ConcurrentUpdate blob ''etag mismatch'')
          else if http_status e = Some NotFound then Err (ConcurrentUpdate blob ''blob disappeared'')
          else Err (azure_error (display e)), s')
     | (Inr _, s') \<Rightarrow> (Ok (), s'))"

definition delete_unconditional :: "'s blob_service \<Rightarrow> string \<Rightarrow> 's \<Rightarrow> unit fdw_result \<times> 's" where
  "delete_unconditional svc blob s =
    (case svc_delete svc blob None s of
       (Inl e, s') \<Rightarrow>
         (if http_status e = Some NotFound then Ok () else Err (azure_error (display e)), s')
     | (Inr _, s') \<Rightarrow> (Ok (), s'))"

text \<open>\<^verbatim>\<open>AzureBlobWriter::upload\<close>: an unconditional PUT.\<close>

definition writer_upload :: "'s blob_service \<Rightarrow> string \<Rightarrow> bytes \<Rightarrow> 's \<Rightarrow> unit fdw_result \<times> 's" where
  "writer_upload svc blob body s =
    (if length body > MAX_BLOB_BYTES then (Err (refuse_upload blob body), s)
     else
      (case svc_upload svc blob body None None s of
         (Inl e, s') \<Rightarrow> (Err (azure_error (display e)), s')
       | (Inr _, s') \<Rightarrow> (Ok (), s')))"

text \<open>\<open>ts\<close> and \<open>uuid\<close> are the formatted clock and the fresh identifier.\<close>

definition generate_blob_name :: "string \<Rightarrow> string \<Rightarrow> string \<Rightarrow> string" where
  "generate_blob_name ts uuid prfx =
    (let trimmed = rev (dropWhile (\<lambda>c. c = CHR ''/'') (rev prfx)) in
     if trimmed = [] then ts @ ''-'' @ uuid @ ''.parquet''
     else trimmed @ ''/'' @ ts @ ''-'' @ uuid @ ''.parquet'')"

section \<open>The contract of the store\<close>

text \<open>The effects of a write and of a delete on what the container holds.\<close>

type_synonym contents = "string \<Rightarrow> (bytes \<times> string) option"

definition cond_holds :: "string option \<Rightarrow> (bytes \<times> string) option \<Rightarrow> bool" where
  "cond_holds if_match cur \<longleftrightarrow> (case if_match of None \<Rightarrow> True | Some w \<Rightarrow> (\<exists>b. cur = Some (b, w)))"

definition wrote :: "string \<Rightarrow> bytes \<Rightarrow> string option \<Rightarrow> contents \<Rightarrow> contents \<Rightarrow> bool" where
  "wrote n b if_match c c' \<longleftrightarrow> cond_holds if_match (c n) \<and> (\<exists>e. c' = c(n \<mapsto> (b, e)))"

definition removed :: "string \<Rightarrow> string option \<Rightarrow> contents \<Rightarrow> contents \<Rightarrow> bool" where
  "removed n if_match c c' \<longleftrightarrow> cond_holds if_match (c n) \<and> c' = c(n := None)"

locale blob_store =
  fixes svc :: "'s blob_service"
    and view :: "'s \<Rightarrow> contents"
    and ok :: "'s \<Rightarrow> bool"
    and env :: "'s \<Rightarrow> 's \<Rightarrow> bool"
    and later :: "'s \<Rightarrow> 's \<Rightarrow> bool"
  assumes env_refl: "ok s \<Longrightarrow> env s s"
    and env_later: "env s s' \<Longrightarrow> later s s'"
    and later_trans: "later s1 s2 \<Longrightarrow> later s2 s3 \<Longrightarrow> later s1 s3"
    and later_ok: "later s s' \<Longrightarrow> ok s \<and> ok s'"
    and etag_stable: "later s1 s2 \<Longrightarrow> later s2 s3 \<Longrightarrow> view s1 n = Some (b, e) \<Longrightarrow>
      view s3 n = Some (b', e) \<Longrightarrow> view s2 n = Some (b, e)"
    and download: "ok s \<Longrightarrow> svc_download svc n if_match rng s = (rd, s') \<Longrightarrow> env s s'"
    and download_body: "ok s \<Longrightarrow> svc_download svc n if_match None s = (Inr resp, s') \<Longrightarrow> resp_body resp = Inr b \<Longrightarrow>
      \<exists>s1 e. env s s1 \<and> env s1 s' \<and> view s1 n = Some (b, e)"
    and upload: "ok s \<Longrightarrow> svc_upload svc n b if_match if_none_match s = (ru, s') \<Longrightarrow>
      \<exists>s1 s2. env s s1 \<and> later s1 s2 \<and> env s2 s'
        \<and> (wrote n b if_match (view s1) (view s2) \<or> (\<exists>err. ru = Inl err) \<and> view s2 = view s1)"
    and delete: "ok s \<Longrightarrow> svc_delete svc n if_match s = (rx, s') \<Longrightarrow>
      \<exists>s1 s2. env s s1 \<and> later s1 s2 \<and> env s2 s'
        \<and> (removed n if_match (view s1) (view s2) \<or> (\<exists>err. rx = Inl err) \<and> view s2 = view s1)"
begin

lemma get_body_if_match_store:
  assumes "ok s" "get_body_if_match svc n e s = (r, s')"
  shows "env s s' \<and> (\<forall>b. r = Inr b \<longrightarrow> (\<exists>s1 e'. env s s1 \<and> env s1 s' \<and> view s1 n = Some (b, e')))"
proof -
  obtain r0 where r0: "svc_download svc n (Some e) None s = (r0, s')"
    using assms(2) by (auto simp: get_body_if_match_def split: prod.splits sum.splits)
  have "\<exists>s1 e'. env s s1 \<and> env s1 s' \<and> view s1 n = Some (b, e')" if rb: "r = Inr b" for b
  proof -
    obtain resp where "r0 = Inr resp" "resp_body resp = Inr b"
      using assms(2) r0 rb
      by (auto simp: get_body_if_match_def check_body_def split: sum.splits if_splits)
    then show ?thesis using download_body[OF assms(1)] r0 by blast
  qed
  then show ?thesis using download[OF assms(1) r0] by blast
qed

lemma conditional_put_store:
  assumes "ok s" "conditional_put svc n b im inm reason s = (r, s')"
  shows "\<exists>s1 s2. env s s1 \<and> later s1 s2 \<and> env s2 s'
    \<and> (wrote n b im (view s1) (view s2) \<or> (\<exists>e. r = Inl e) \<and> view s2 = view s1)"
proof (cases "length b > MAX_BLOB_BYTES")
  case True
  then have "r = Inl (refuse_upload n b)" "s' = s" using assms(2) by (auto simp: conditional_put_def)
  then show ?thesis using env_refl[OF assms(1)] env_later by blast
next
  case False
  then obtain r0 where r0: "svc_upload svc n b im inm s = (r0, s')" "(\<exists>e. r0 = Inl e) \<longrightarrow> (\<exists>e. r = Inl e)"
    using assms(2) by (auto simp: conditional_put_def split: prod.splits sum.splits if_splits)
  show ?thesis using upload[OF assms(1) r0(1)] r0(2) by blast
qed

lemma delete_if_match_store:
  assumes "ok s" "delete_if_match svc n e s = (r, s')"
  shows "\<exists>s1 s2. env s s1 \<and> later s1 s2 \<and> env s2 s'
    \<and> (removed n (Some e) (view s1) (view s2) \<or> (\<exists>e. r = Inl e) \<and> view s2 = view s1)"
proof -
  obtain r0 where r0: "svc_delete svc n (Some e) s = (r0, s')" "(\<exists>e. r0 = Inl e) \<longrightarrow> (\<exists>e. r = Inl e)"
    using assms(2) by (auto simp: delete_if_match_def split: prod.splits sum.splits)
  show ?thesis using delete[OF assms(1) r0(1)] r0(2) by blast
qed

lemma delete_unconditional_store:
  assumes "ok s" "delete_unconditional svc n s = (r, s')"
  shows "\<exists>s1 s2. env s s1 \<and> later s1 s2 \<and> env s2 s'
    \<and> (removed n None (view s1) (view s2) \<or> view s2 = view s1)"
proof -
  obtain r0 where r0: "svc_delete svc n None s = (r0, s')"
    using assms(2) by (auto simp: delete_unconditional_def split: prod.splits sum.splits)
  show ?thesis using delete[OF assms(1) r0(1)] by blast
qed

end

text \<open>A store that answers every request while nobody else writes.  \<open>budget\<close> bounds how many more
  writes it can take.\<close>

locale responsive_store = blob_store svc view ok env later
  for svc :: "'s blob_service" and view :: "'s \<Rightarrow> contents" and ok :: "'s \<Rightarrow> bool"
    and env :: "'s \<Rightarrow> 's \<Rightarrow> bool" and later :: "'s \<Rightarrow> 's \<Rightarrow> bool" +
  fixes budget :: "'s \<Rightarrow> nat"
  assumes answer_download: "ok s \<Longrightarrow> view s n = Some (b, e) \<Longrightarrow> if_match \<in> {None, Some e} \<Longrightarrow>
      \<exists>resp. svc_download svc n if_match None s = (Inr resp, s) \<and> resp_body resp = Inr b
        \<and> content_length resp \<in> {None, Some (length b)}"
    and answer_upload: "ok s \<Longrightarrow> 0 < budget s \<Longrightarrow> cond_holds if_match (view s n) \<Longrightarrow>
      if_none_match = None \<or> view s n = None \<Longrightarrow>
      \<exists>e s'. svc_upload svc n b if_match if_none_match s = (Inr (Some e), s') \<and> ok s'
        \<and> view s' = (view s)(n \<mapsto> (b, e)) \<and> budget s' = budget s - 1"
    and answer_stale: "ok s \<Longrightarrow> \<not> cond_holds (Some w) (view s n) \<Longrightarrow>
      \<exists>msg. svc_upload svc n b (Some w) None s = (Inl (SdkError (Some PreconditionFailed) msg), s)"
    and answer_delete: "ok s \<Longrightarrow> view s n \<noteq> None \<Longrightarrow> cond_holds if_match (view s n) \<Longrightarrow>
      \<exists>s'. svc_delete svc n if_match s = (Inr (), s') \<and> ok s' \<and> view s' = (view s)(n := None)
        \<and> budget s' = budget s"
    and answer_absent: "ok s \<Longrightarrow> view s n = None \<Longrightarrow>
      \<exists>msg. svc_delete svc n None s = (Inl (SdkError (Some NotFound) msg), s)"
    and answer_stale_delete: "ok s \<Longrightarrow> view s n = Some (b, e) \<Longrightarrow> e \<noteq> w \<Longrightarrow>
      \<exists>msg. svc_delete svc n (Some w) s = (Inl (SdkError (Some PreconditionFailed) msg), s)"
begin

lemma get_body_if_match_answer:
  assumes "ok s" "view s n = Some (b, e)" "length b \<le> MAX_BLOB_BYTES"
  shows "get_body_if_match svc n e s = (Ok b, s)"
  using answer_download[OF assms(1,2), of "Some e"] assms(3)
  by (auto simp: get_body_if_match_def check_body_def over_cap_def)

lemma put_if_match_answer:
  assumes "ok s" "0 < budget s" "view s n = Some (b0, w)" "length b \<le> MAX_BLOB_BYTES"
  shows "\<exists>e s'. put_if_match svc n b w s = (Ok e, s') \<and> ok s' \<and> view s' = (view s)(n \<mapsto> (b, e))
    \<and> budget s' = budget s - 1"
  using answer_upload[OF assms(1,2), of "Some w" n None b] assms(3,4)
  by (auto simp: put_if_match_def conditional_put_def cond_holds_def)

lemma put_if_none_match_answer:
  assumes "ok s" "0 < budget s" "view s n = None" "length b \<le> MAX_BLOB_BYTES"
  shows "\<exists>e s'. put_if_none_match svc n b s = (Ok e, s') \<and> ok s' \<and> view s' = (view s)(n \<mapsto> (b, e))
    \<and> budget s' = budget s - 1"
  using answer_upload[OF assms(1,2), of None n "Some ''*''" b] assms(3,4)
  by (auto simp: put_if_none_match_def conditional_put_def cond_holds_def)

lemma put_if_match_stale:
  assumes "ok s" "\<not> cond_holds (Some w) (view s n)" "length b \<le> MAX_BLOB_BYTES"
  shows "put_if_match svc n b w s = (Err (ConcurrentUpdate n ''etag mismatch''), s)"
  using answer_stale[OF assms(1,2), of b] assms(3)
  by (auto simp: put_if_match_def conditional_put_def)

lemma delete_if_match_answer:
  assumes "ok s" "view s n = Some (b0, w)"
  shows "\<exists>s'. delete_if_match svc n w s = (Ok (), s') \<and> ok s' \<and> view s' = (view s)(n := None)
    \<and> budget s' = budget s"
  using answer_delete[OF assms(1), of n "Some w"] assms(2)
  by (auto simp: delete_if_match_def cond_holds_def)

lemma delete_unconditional_answer:
  assumes "ok s"
  shows "\<exists>s'. delete_unconditional svc n s = (Ok (), s') \<and> ok s' \<and> view s' = (view s)(n := None)
    \<and> budget s' = budget s"
proof (cases "view s n")
  case None
  then have "(view s)(n := None) = view s" by (simp add: fun_upd_idem)
  then show ?thesis using answer_absent[OF assms None] assms by (auto simp: delete_unconditional_def)
next
  case (Some v)
  then show ?thesis using answer_delete[OF assms, of n None]
    by (auto simp: delete_unconditional_def cond_holds_def)
qed

end

section \<open>Listing\<close>

text \<open>What a complete, well-formed listing is turned into: the visible names with their ETags,
  staging names left out.\<close>

lemma collect_listing_items:
  assumes "\<forall>i \<in> set items. item_name i \<noteq> None \<and> item_etag i \<noteq> None"
    "length out + length items \<le> MAX_LIST_RESULTS"
  shows "collect_listing (map Inr items) out =
    Ok (out @ [(the (item_name i), the (item_etag i)). i \<leftarrow> items, \<not> is_staging_name (the (item_name i))])"
  using assms by (induction items arbitrary: out) (auto split: option.splits)

lemma collect_listing_not_staging:
  assumes "collect_listing items out = Ok l" "\<forall>x \<in> set out. \<not> is_staging_name (fst x)"
  shows "\<forall>x \<in> set l. \<not> is_staging_name (fst x)"
  using assms by (induction items out rule: collect_listing.induct) (auto split: option.splits if_splits)

lemma collect_listing_bound:
  "collect_listing items out = Ok l \<Longrightarrow> length out \<le> MAX_LIST_RESULTS \<Longrightarrow> length l \<le> MAX_LIST_RESULTS"
  by (induction items out rule: collect_listing.induct) (auto split: option.splits if_splits)

end
