(* ===== verification/Rewrite.thy ===== *)
theory Rewrite
  imports Azure_Client Options Kernel
begin

text \<open>
  \<^verbatim>\<open>src/parquet_io/writer.rs\<close> and the part of \<open>commit_plan\<close> (\<^verbatim>\<open>src/fdw/modify/update.rs\<close>)
  that turns the body of an edited blob into the bytes that replace it: stream the batches, edit
  each, write it out.  The parquet crate is the parameter \<open>parquet_lib\<close>.  The property ties the
  stream to the reference of \<open>Kernel\<close>: the new file reads back as the edited rows.
\<close>

section \<open>The parquet crate\<close>

text \<open>\<open>pq_new\<close> opens a file and gives the codec of the first column chunk, if there is one;
  \<open>pq_build\<close> gives the batches its stream yields; \<open>pw_new\<close>, \<open>pw_write\<close> and \<open>pw_finish\<close> are the arrow
  writer over a writer state; \<open>memory_size\<close> is \<^verbatim>\<open>get_array_memory_size\<close>.  Errors are their text.\<close>

record 'w parquet_lib =
  pq_new :: "bytes \<Rightarrow> string + pq_compression option"
  pq_build :: "bytes \<Rightarrow> string + (string + record_batch) list"
  pw_new :: "schema \<Rightarrow> pq_compression \<Rightarrow> string + 'w"
  pw_write :: "record_batch \<Rightarrow> 'w \<Rightarrow> string + 'w"
  pw_bytes_written :: "'w \<Rightarrow> nat"
  pw_finish :: "'w \<Rightarrow> string + bytes"
  memory_size :: "record_batch \<Rightarrow> nat"
  gzip_default :: nat
  zstd_default :: nat

fun pq_result :: "string + 'a \<Rightarrow> 'a fdw_result" where
  "pq_result (Inl e) = Err (Parquet e)"
| "pq_result (Inr a) = Ok a"

lemma pq_result_Inr [result_simps]: "pq_result r = Inr a \<longleftrightarrow> r = Inr a"
  by (cases r) auto

text \<open>\<^verbatim>\<open>ParquetBatchWriter\<close>.\<close>

definition batch_writer_new :: "'w parquet_lib \<Rightarrow> schema \<Rightarrow> compression \<Rightarrow> 'w fdw_result" where
  "batch_writer_new L sch c = pq_result (pw_new L sch (to_pq (gzip_default L) (zstd_default L) c))"

definition batch_writer_write :: "'w parquet_lib \<Rightarrow> record_batch \<Rightarrow> 'w \<Rightarrow> 'w fdw_result" where
  "batch_writer_write L b w = pq_result (pw_write L b w)"

definition batch_writer_bytes_written :: "'w parquet_lib \<Rightarrow> 'w \<Rightarrow> nat" where
  "batch_writer_bytes_written L w = pw_bytes_written L w"

definition batch_writer_finish :: "'w parquet_lib \<Rightarrow> 'w \<Rightarrow> bytes fdw_result" where
  "batch_writer_finish L w = pq_result (pw_finish L w)"

section \<open>Rewriting a blob\<close>

text \<open>The streaming loop: \<open>off\<close>, \<open>dec\<close> and \<open>tot\<close> are the row offset, the decoded bytes and the rows
  written so far.\<close>

fun rewrite_loop ::
  "'w parquet_lib \<Rightarrow> arrow_ops \<Rightarrow> schema \<Rightarrow> string \<Rightarrow> blob_edits \<Rightarrow> nat \<Rightarrow> nat \<Rightarrow> nat \<Rightarrow> 'w
    \<Rightarrow> (string + record_batch) list \<Rightarrow> (nat \<times> nat \<times> 'w) fdw_result" where
  "rewrite_loop L A sch name ed off dec tot w [] = Ok (off, tot, w)"
| "rewrite_loop L A sch name ed off dec tot w (Inl e # _) = Err (Parquet e)"
| "rewrite_loop L A sch name ed off dec tot w (Inr b # bs) =
    (let dec' = min (dec + memory_size L b) (2 ^ 64 - 1) in
     if dec' > MAX_BLOB_BYTES then Err (Azure (''blob '' @ quoted name @ '' decodes to >''
       @ show_nat MAX_BLOB_BYTES @ '' bytes of arrow memory (parquet compression unfolds in RAM during ''
       @ ''UPDATE/DELETE rewrite); refusing to materialise''))
     else
      and_then (apply_edits_batch A b off sch ed) (\<lambda>out.
      and_then (if num_rows out > 0 then batch_writer_write L out w else Ok w) (\<lambda>w'.
      rewrite_loop L A sch name ed (off + num_rows b) dec' (tot + num_rows out) w' bs)))"

text \<open>The first update key, in map order, beyond the rows of the blob.\<close>

fun check_update_keys :: "string \<Rightarrow> nat \<Rightarrow> nat list \<Rightarrow> unit fdw_result" where
  "check_update_keys name off [] = Ok ()"
| "check_update_keys name off (k # ks) =
    (if k \<ge> off then Err (SchemaMismatch (''update row '' @ show_nat k @ '' >= blob '' @ quoted name
       @ '' row count '' @ show_nat off))
     else check_update_keys name off ks)"

text \<open>The pure part of staging one blob: from its body to the new bytes, or nothing when no row is
  left.\<close>

definition rewrite_blob ::
  "'w parquet_lib \<Rightarrow> arrow_ops \<Rightarrow> schema \<Rightarrow> compression \<Rightarrow> string \<Rightarrow> blob_edits \<Rightarrow> bytes \<Rightarrow> bytes option fdw_result" where
  "rewrite_blob L A sch default_codec name ed body =
    and_then (pq_result (pq_new L body)) (\<lambda>codec.
    let source_codec = (case codec of Some c \<Rightarrow> from_parquet c | None \<Rightarrow> default_codec) in
    and_then (pq_result (pq_build L body)) (\<lambda>stream.
    and_then (batch_writer_new L sch source_codec) (\<lambda>w.
    and_then (rewrite_loop L A sch name ed 0 0 0 w stream) (\<lambda>(off, total_rows, w').
    and_then (check_update_keys name off (map fst (updates ed))) (\<lambda>_.
    if total_rows = 0 then Ok None
    else and_then (batch_writer_finish L w') (\<lambda>bytes. Ok (Some bytes)))))))"

section \<open>The rewrite is the row-by-row edit\<close>

text \<open>The rows of a file, as the crate's reader yields them.\<close>

definition file_batches :: "'w parquet_lib \<Rightarrow> bytes \<Rightarrow> record_batch list option" where
  "file_batches L f = (case pq_build L f of
      Inl _ \<Rightarrow> None
    | Inr bs \<Rightarrow> if \<forall>b \<in> set bs. \<not> isl b then Some (map projr bs) else None)"

definition file_rows :: "'w parquet_lib \<Rightarrow> bytes \<Rightarrow> cell option list list option" where
  "file_rows L f = map_option (\<lambda>bs. concat (map batch_rows bs)) (file_batches L f)"

text \<open>What the documentation of the arrow writer promises: \<open>held w\<close> are the rows given to the
  writer, in order, and the finished file reads back as them.  It may refuse any call.\<close>

definition parquet_writes :: "'w parquet_lib \<Rightarrow> ('w \<Rightarrow> cell option list list) \<Rightarrow> bool" where
  "parquet_writes L held \<longleftrightarrow>
    (\<forall>sch c w. pw_new L sch c = Inr w \<longrightarrow> held w = [])
    \<and> (\<forall>b w w'. pw_write L b w = Inr w' \<longrightarrow> held w' = held w @ batch_rows b)
    \<and> (\<forall>w f. pw_finish L w = Inr f \<longrightarrow> file_rows L f = Some (held w))"

lemma length_batch_rows [simp]: "length (batch_rows b) = num_rows b"
  by (simp add: batch_rows_def)

lemma pq_result_cases:
  obtains e where "r = Inl e" "pq_result r = Err (Parquet e)" | a where "r = Inr a" "pq_result r = Ok a"
  by (cases r) auto

text \<open>What the streaming loop leaves: the rows read, the rows written, the writer.\<close>

definition loop_result :: "'w parquet_lib \<Rightarrow> ('w \<Rightarrow> cell option list list) \<Rightarrow> blob_edits \<Rightarrow> nat \<Rightarrow> nat \<Rightarrow> nat \<Rightarrow> 'w
    \<Rightarrow> record_batch list \<Rightarrow> (nat \<times> nat \<times> 'w) fdw_result \<Rightarrow> bool" where
  "loop_result L held ed off dec tot w bs res \<longleftrightarrow>
    (case res of
       Inl e \<Rightarrow> (\<exists>m. e = Parquet m) \<or> MAX_BLOB_BYTES < dec + sum_list (map (memory_size L) bs)
     | Inr (off', tot', w') \<Rightarrow> off' = off + sum_list (map num_rows bs)
         \<and> tot' = tot + length (edit_rows ed off (concat (map batch_rows bs)))
         \<and> held w' = held w @ edit_rows ed off (concat (map batch_rows bs)))"

context arrow_compute
begin

lemma rewrite_loop_result:
  assumes "parquet_writes L held" "\<forall>b \<in> set bs. wf_batch b \<and> batch_schema b = sch" "edits_fit sch ed"
    "off + sum_list (map num_rows bs) \<le> u32_MAX"
  shows "loop_result L held ed off dec tot w bs (rewrite_loop L A sch name ed off dec tot w (map Inr bs))"
  using assms(2,4)
proof (induction bs arbitrary: off dec tot w)
  case Nil
  then show ?case by (simp add: loop_result_def)
next
  case (Cons b bs)
  define dec' where "dec' = min (dec + memory_size L b) (2 ^ 64 - 1)"
  have le: "dec' \<le> dec + memory_size L b" by (simp add: dec'_def)
  obtain r where r: "apply_edits_batch A b off sch ed = Ok r" "wf_batch r" "batch_rows r = edit_rows ed off (batch_rows b)"
    using apply_edits_batch_ok[of b ed off] Cons.prems assms(3) by auto
  have len: "num_rows r = length (edit_rows ed off (batch_rows b))" using r(3) length_batch_rows[of r] by simp
  define wr where "wr = (if num_rows r > 0 then batch_writer_write L r w else Ok w)"
  have step: "rewrite_loop L A sch name ed off dec tot w (map Inr (b # bs)) =
      (if dec' > MAX_BLOB_BYTES then Err (Azure (''blob '' @ quoted name @ '' decodes to >''
       @ show_nat MAX_BLOB_BYTES @ '' bytes of arrow memory (parquet compression unfolds in RAM during ''
       @ ''UPDATE/DELETE rewrite); refusing to materialise''))
       else and_then wr (\<lambda>w'. rewrite_loop L A sch name ed (off + num_rows b) dec' (tot + num_rows r) w' (map Inr bs)))"
    unfolding list.map rewrite_loop.simps Let_def r(1) and_then.simps dec'_def wr_def by (rule refl)
  have wr_cases: "(\<exists>e. wr = Err (Parquet e)) \<or> (\<exists>w'. wr = Ok w' \<and> held w' = held w @ edit_rows ed off (batch_rows b))"
  proof (cases "num_rows r > 0")
    case True
    then show ?thesis using assms(1) r(3)
      by (cases "pw_write L r w") (auto simp: wr_def batch_writer_write_def parquet_writes_def)
  next
    case False
    then show ?thesis using len by (simp add: wr_def)
  qed
  show ?case
  proof (cases "dec' > MAX_BLOB_BYTES")
    case True
    then show ?thesis unfolding step using le by (simp add: loop_result_def)
  next
    case False
    from wr_cases show ?thesis
    proof (elim disjE exE conjE)
      fix e assume "wr = Err (Parquet e)"
      then show ?thesis unfolding step using False by (simp add: loop_result_def)
    next
      fix w' assume w': "wr = Ok w'" "held w' = held w @ edit_rows ed off (batch_rows b)"
      have "loop_result L held ed (off + num_rows b) dec' (tot + num_rows r) w' bs
        (rewrite_loop L A sch name ed (off + num_rows b) dec' (tot + num_rows r) w' (map Inr bs))"
        using Cons.IH Cons.prems by simp
      then show ?thesis unfolding step using False w' le len
        by (auto simp: loop_result_def edit_rows_append split: sum.splits)
    qed
  qed
qed

end

lemma check_update_keys_iff:
  "check_update_keys name off ks = (if \<forall>k \<in> set ks. k < off then Ok ()
    else Err (SchemaMismatch (''update row '' @ show_nat (hd (filter (\<lambda>k. off \<le> k) ks)) @ '' >= blob '' @ quoted name
      @ '' row count '' @ show_nat off)))"
  by (induction ks) auto

lemma rewrite_blob_spec:
  assumes "arrow_compute A" "parquet_writes L held" "file_batches L body = Some bs"
    "\<forall>b \<in> set bs. wf_batch b \<and> batch_schema b = sch" "edits_fit sch ed" "sum_list (map num_rows bs) \<le> u32_MAX"
  shows "case rewrite_blob L A sch codec name ed body of
      Inl e \<Rightarrow> (\<exists>m. e = Parquet m) \<or> MAX_BLOB_BYTES < sum_list (map (memory_size L) bs)
        \<or> (\<exists>k \<in> fst ` set (updates ed). sum_list (map num_rows bs) \<le> k)
    | Inr None \<Rightarrow> edit_rows ed 0 (concat (map batch_rows bs)) = []
    | Inr (Some f) \<Rightarrow> edit_rows ed 0 (concat (map batch_rows bs)) \<noteq> []
        \<and> file_rows L f = Some (edit_rows ed 0 (concat (map batch_rows bs)))"
proof -
  have build: "pq_build L body = Inr (map Inr bs)"
    using assms(3) by (auto simp: file_batches_def comp_def map_idI split: sum.splits if_splits)
  consider m where "pq_new L body = Inl m" | c where "pq_new L body = Inr c" by (cases "pq_new L body") auto
  then show ?thesis
  proof cases
    case (1 m)
    then show ?thesis by (simp add: rewrite_blob_def)
  next
    case (2 c)
    let ?codec = "case c of Some c \<Rightarrow> from_parquet c | None \<Rightarrow> codec"
    show ?thesis
    proof (cases "batch_writer_new L sch ?codec")
      case (Inl e)
      then have "\<exists>m. e = Parquet m" by (cases rule: pq_result_cases[of "pw_new L sch (to_pq (gzip_default L) (zstd_default L) ?codec)"])
          (auto simp: batch_writer_new_def)
      then show ?thesis using 2 build Inl by (simp add: rewrite_blob_def)
    next
      case (Inr w)
      then have h: "held w = []"
        using assms(2) by (simp add: batch_writer_new_def result_simps parquet_writes_def)
      define res where "res = rewrite_loop L A sch name ed 0 0 0 w (map Inr bs)"
      have l: "loop_result L held ed 0 0 0 w bs res"
        unfolding res_def using arrow_compute.rewrite_loop_result[OF assms(1,2,4,5), of 0] assms(6) by simp
      have eq: "rewrite_blob L A sch codec name ed body = and_then res (\<lambda>(off, total_rows, w').
          and_then (check_update_keys name off (map fst (updates ed))) (\<lambda>_.
          if total_rows = 0 then Ok None else and_then (batch_writer_finish L w') (\<lambda>bytes. Ok (Some bytes))))"
        using 2 build Inr by (simp add: rewrite_blob_def res_def)
      show ?thesis
      proof (cases res)
        case e: (Inl e)
        then show ?thesis using l eq by (auto simp: loop_result_def)
      next
        case r: (Inr t)
        obtain off tot w' where t: "t = (off, tot, w')" by (cases t)
        have o: "off = sum_list (map num_rows bs)" "tot = length (edit_rows ed 0 (concat (map batch_rows bs)))"
          "held w' = edit_rows ed 0 (concat (map batch_rows bs))"
          using l h r t by (auto simp: loop_result_def)
        show ?thesis
        proof (cases "pw_finish L w'")
          case (Inl m)
          then show ?thesis using eq r t o by (auto simp: check_update_keys_iff batch_writer_finish_def not_less)
        next
          case (Inr f)
          then have "file_rows L f = Some (edit_rows ed 0 (concat (map batch_rows bs)))"
            using assms(2) o(3) by (simp add: parquet_writes_def)
          then show ?thesis using Inr eq r t o by (auto simp: check_update_keys_iff batch_writer_finish_def not_less)
        qed
      qed
    qed
  qed
qed

text \<open>C5: the rewrite of a blob.  For kernels and a parquet crate that do what their documentation
  says, a blob whose stream yields well-formed batches of the table's schema, and edits that fit the
  schema: the new file reads back as exactly the old rows with the overridden cells replaced and the
  deleted rows dropped; no file is produced exactly when no row is left; and an error is one of the
  parquet crate, or the blob decodes to more than the limit, or an update names a row the blob does
  not have.\<close>

theorem rewrite_blob_correct:
  assumes "arrow_compute A" "parquet_writes L held" "file_batches L body = Some bs"
    "\<forall>b \<in> set bs. wf_batch b \<and> batch_schema b = sch" "edits_fit sch ed" "sum_list (map num_rows bs) \<le> u32_MAX"
  shows "case rewrite_blob L A sch codec name ed body of
      Inl e \<Rightarrow> (\<exists>m. e = Parquet m) \<or> MAX_BLOB_BYTES < sum_list (map (memory_size L) bs)
        \<or> (\<exists>k \<in> fst ` set (updates ed). sum_list (map num_rows bs) \<le> k)
    | Inr None \<Rightarrow> edit_rows ed 0 (concat (map batch_rows bs)) = []
    | Inr (Some f) \<Rightarrow> edit_rows ed 0 (concat (map batch_rows bs)) \<noteq> []
        \<and> file_rows L f = Some (edit_rows ed 0 (concat (map batch_rows bs)))"
  by (rule rewrite_blob_spec[OF assms])

text \<open>A crate that stores one byte per row, for a table with one small integer column.\<close>

definition byte_lib :: "string parquet_lib" where
  "byte_lib = \<lparr>
    pq_new = \<lambda>f. Inr None,
    pq_build = \<lambda>f. Inr [Inr (example_batch (map of_char f))],
    pw_new = \<lambda>sch c. Inr [],
    pw_write = \<lambda>b w. (if list_all (\<lambda>r. case r of [Some (CInt i)] \<Rightarrow> 0 \<le> i \<and> i < 256 | _ \<Rightarrow> False) (batch_rows b)
      then Inr (w @ map (\<lambda>r. case r of [Some (CInt i)] \<Rightarrow> char_of i | _ \<Rightarrow> CHR ''?'') (batch_rows b))
      else Inl ''value out of range''),
    pw_bytes_written = length,
    pw_finish = Inr,
    memory_size = num_rows,
    gzip_default = 6,
    zstd_default = 1 \<rparr>"

definition byte_rows :: "string \<Rightarrow> cell option list list" where
  "byte_rows w = map (\<lambda>c. [Some (CInt (of_char c))]) w"

lemma example_batch_rows: "batch_rows (example_batch xs) = map (\<lambda>x. [Some (CInt x)]) xs"
  by (auto simp: example_batch_def batch_rows_def intro: nth_equalityI)

lemma byte_rows_decode:
  "list_all (\<lambda>r. case r of [Some (CInt i)] \<Rightarrow> 0 \<le> i \<and> i < 256 | _ \<Rightarrow> False) rs \<Longrightarrow>
    byte_rows (map (\<lambda>r. case r of [Some (CInt i)] \<Rightarrow> char_of i | _ \<Rightarrow> CHR ''?'') rs) = rs"
  by (induction rs) (auto simp: byte_rows_def split: list.splits option.splits cell.splits)

lemma byte_lib_simps:
  "pq_new byte_lib f = Inr None" "pq_build byte_lib f = Inr [Inr (example_batch (map of_char f))]"
  "pw_new byte_lib sch c = Inr []" "pw_finish byte_lib w = Inr w" "memory_size byte_lib b = num_rows b"
  by (simp_all add: byte_lib_def)

lemma byte_lib_writes: "parquet_writes byte_lib byte_rows"
  unfolding parquet_writes_def
proof (intro conjI allI impI)
  show "byte_rows w = []" if "pw_new byte_lib sch c = Inr w" for sch c w
    using that by (simp add: byte_lib_def byte_rows_def)
  show "byte_rows w' = byte_rows w @ batch_rows b" if "pw_write byte_lib b w = Inr w'" for b w w'
    using that byte_rows_decode[of "batch_rows b"] by (auto simp: byte_lib_def byte_rows_def split: if_splits)
  show "file_rows byte_lib f = Some (byte_rows w)" if "pw_finish byte_lib w = Inr f" for w f
    using that by (simp add: byte_lib_def file_rows_def file_batches_def example_batch_rows byte_rows_def)
qed

lemma byte_rewrite:
  "rewrite_blob byte_lib list_arrow example_schema codec name example_edits ''abcd'' = Ok (Some [CHR ''a'', CHR 0x1E, CHR ''d''])"
proof -
  let ?b = "example_batch [97, 98, 99, 100]"
  have wf: "wf_batch ?b" "batch_schema ?b = example_schema" "0 + num_rows ?b \<le> u32_MAX" "num_rows ?b = 4"
    by (simp_all add: wf_batch_def fits_schema_def example_batch_def example_schema_def array_len_def u32_MAX_def)
  have e: "edit_rows example_edits 0 (batch_rows ?b) = [[Some (CInt 97)], [Some (CInt 30)], [Some (CInt 100)]]"
    by (simp add: example_batch_rows example_edits_def edited_row_def edited_cell_def override_at_def)
  obtain r where r: "apply_edits_batch list_arrow ?b 0 example_schema example_edits = Ok r"
    "batch_rows r = [[Some (CInt 97)], [Some (CInt 30)], [Some (CInt 100)]]"
    using la.apply_edits_batch_ok[OF wf(1) _ wf(3), of example_edits] example_edits_fit wf(2) e by auto
  have n: "num_rows r = 3" using length_batch_rows[of r] r(2) by simp
  have w: "batch_writer_write byte_lib r [] = Ok [CHR ''a'', CHR 0x1E, CHR ''d'']"
    by (simp add: batch_writer_write_def byte_lib_def r(2) char_of_def)
  have "rewrite_loop byte_lib list_arrow example_schema name example_edits 0 0 0 [] [Inr ?b] = Ok (4, 3, [CHR ''a'', CHR 0x1E, CHR ''d''])"
    using r(1) n w wf(4) by (simp add: Let_def MAX_BLOB_BYTES_def byte_lib_simps)
  then show ?thesis
    by (simp add: rewrite_blob_def byte_lib_simps batch_writer_new_def batch_writer_finish_def example_edits_def)
qed

theorem rewrite_blob_correct_witness:
  "rewrite_blob byte_lib list_arrow example_schema Snappy ''t.parquet'' example_edits ''abcd'' = Ok (Some [CHR ''a'', CHR 0x1E, CHR ''d''])
    \<and> file_rows byte_lib [CHR ''a'', CHR 0x1E, CHR ''d''] = Some (edit_rows example_edits 0 (byte_rows ''abcd''))"
proof -
  have r: "rewrite_blob byte_lib list_arrow example_schema Snappy ''t.parquet'' example_edits ''abcd'' = Ok (Some [CHR ''a'', CHR 0x1E, CHR ''d''])"
    by (rule byte_rewrite)
  have b: "file_batches byte_lib ''abcd'' = Some [example_batch [97, 98, 99, 100]]"
    by (simp add: file_batches_def byte_lib_def)
  have w: "\<forall>b \<in> set [example_batch [97, 98, 99, 100]]. wf_batch b \<and> batch_schema b = example_schema"
    by (simp add: wf_batch_def fits_schema_def example_batch_def example_schema_def array_len_def)
  have "sum_list (map num_rows [example_batch [97, 98, 99, 100]]) \<le> u32_MAX"
    by (simp add: example_batch_def u32_MAX_def)
  from rewrite_blob_correct[OF la.arrow_compute_axioms byte_lib_writes b w example_edits_fit this, of Snappy "''t.parquet''"]
  show ?thesis using r by (simp add: example_batch_rows byte_rows_def)
qed

end
