(* ===== verification/Fake_Store.thy ===== *)
theory Fake_Store
  imports Azure_Client Net_Addr "HOL-Library.AList" "HOL-Library.List_Lexorder" "HOL-Library.Char_ord"
begin

text \<open>
  \<^verbatim>\<open>src/test_harness/fake_blob_store.rs\<close>: the in-memory blob store the test suite runs against.
  The \<^verbatim>\<open>HashMap\<close> is an association list with distinct keys, the ETag counter a natural number
  below \<open>2 ^ 64\<close>.  Each responder is a function from the request and the state to the response
  and the next state; clock headers are left out.

  The store is a model of the contract the extension relies on: it interprets the locales
  \<open>blob_store\<close> and \<open>responsive_store\<close> of \<open>Azure_Client\<close>, with the writes of other clients between
  two requests, because ETags are minted from a counter and never repeat.
\<close>

section \<open>State and ETags\<close>

record blob_entry =
  entry_body :: bytes
  entry_etag :: string

record fake_state =
  blobs :: "(string \<times> blob_entry) list"
  next_etag_seq :: nat

definition u64_MAX :: nat where "u64_MAX = 2 ^ 64 - 1"

definition hex_digit :: "nat \<Rightarrow> char" where
  "hex_digit d = char_of (if d < 10 then 48 + d else 55 + d)"

text \<open>The format \<^verbatim>\<open>{:016X}\<close>.\<close>

fun hex_pad :: "nat \<Rightarrow> nat \<Rightarrow> string" where
  "hex_pad 0 n = []"
| "hex_pad (Suc k) n = hex_pad k (n div 16) @ [hex_digit (n mod 16)]"

definition etag_text :: "nat \<Rightarrow> string" where
  "etag_text seq = CHR 0x22 # ''0x'' @ hex_pad 16 seq @ [CHR 0x22]"

definition fake_new :: fake_state where
  "fake_new = \<lparr> blobs = [], next_etag_seq = 1 \<rparr>"

text \<open>Nothing is the panic of \<^verbatim>\<open>checked_add\<close>.\<close>

definition mint_etag :: "fake_state \<Rightarrow> (string \<times> fake_state) option" where
  "mint_etag st =
    (if next_etag_seq st + 1 > u64_MAX then None
     else Some (etag_text (next_etag_seq st), st \<lparr> next_etag_seq := next_etag_seq st + 1 \<rparr>))"

definition blob_key :: "string \<Rightarrow> string \<Rightarrow> string" where
  "blob_key cont blob = cont @ ''/'' @ blob"

definition insert_blob :: "string \<Rightarrow> bytes \<Rightarrow> fake_state \<Rightarrow> (string \<times> fake_state) option" where
  "insert_blob key body st =
    (case mint_etag st of
       None \<Rightarrow> None
     | Some (etag, st') \<Rightarrow>
         Some (etag, st' \<lparr> blobs := AList.update key \<lparr> entry_body = body, entry_etag = etag \<rparr> (blobs st') \<rparr>))"

definition put_blob :: "string \<Rightarrow> string \<Rightarrow> bytes \<Rightarrow> fake_state \<Rightarrow> (string \<times> fake_state) option" where
  "put_blob cont blob body st = insert_blob (blob_key cont blob) body st"

definition get_blob :: "string \<Rightarrow> string \<Rightarrow> fake_state \<Rightarrow> bytes option" where
  "get_blob cont blob st = map_option entry_body (map_of (blobs st) (blob_key cont blob))"

definition read_etag :: "string \<Rightarrow> string \<Rightarrow> fake_state \<Rightarrow> string option" where
  "read_etag cont blob st = map_option entry_etag (map_of (blobs st) (blob_key cont blob))"

definition strip_prefix :: "string \<Rightarrow> string \<Rightarrow> string option" where
  "strip_prefix p s = (if starts_with s p then Some (drop (length p) s) else None)"

definition prefix_ok :: "string option \<Rightarrow> string \<Rightarrow> bool" where
  "prefix_ok prfx name = (case prfx of Some p \<Rightarrow> starts_with name p | None \<Rightarrow> True)"

definition list_blobs :: "string \<Rightarrow> string option \<Rightarrow> fake_state \<Rightarrow> string list" where
  "list_blobs cont prfx st =
    sort (filter (prefix_ok prfx) (List.map_filter (\<lambda>(k, _). strip_prefix (cont @ ''/'') k) (blobs st)))"

section \<open>Requests\<close>

record request =
  url_segments :: "string list option"
  query_pairs :: "(string \<times> string) list"
  if_match_header :: "string option"
  range_header :: "string option"
  req_body :: bytes

function percent_decode_bytes :: "string \<Rightarrow> string" where
  "percent_decode_bytes [] = []"
| "percent_decode_bytes (c # cs) =
    (if c = CHR ''%'' \<and> 2 \<le> length cs then
       (case (to_digit 16 (cs ! 0), to_digit 16 (cs ! 1)) of
          (Some h, Some l) \<Rightarrow> char_of (h * 16 + l) # percent_decode_bytes (drop 2 cs)
        | _ \<Rightarrow> c # percent_decode_bytes cs)
     else c # percent_decode_bytes cs)"
  by pat_completeness auto
termination by (relation "measure length") auto

declare percent_decode_bytes.simps(2) [simp del]

definition percent_decode :: "string \<Rightarrow> string" where
  "percent_decode s = (let out = percent_decode_bytes s in if utf8_valid out then out else s)"

definition path_segments :: "request \<Rightarrow> string list" where
  "path_segments req = (case url_segments req of None \<Rightarrow> [] | Some segs \<Rightarrow> filter (\<lambda>seg. seg \<noteq> []) segs)"

definition split_container_blob :: "request \<Rightarrow> (string \<times> string) option" where
  "split_container_blob req =
    (case path_segments req of
       cont # seg # segs \<Rightarrow> Some (percent_decode cont, join ''/'' (map percent_decode (seg # segs)))
     | _ \<Rightarrow> None)"

definition parse_usize :: "string \<Rightarrow> nat option" where
  "parse_usize s = map_option nat (parse_int 0 (2 ^ 64 - 1) s)"

definition parse_range_header :: "string option \<Rightarrow> nat \<Rightarrow> (nat \<times> nat) option" where
  "parse_range_header hdr body_len =
    (case hdr of None \<Rightarrow> None | Some raw \<Rightarrow>
    (case strip_prefix ''bytes='' raw of None \<Rightarrow> None | Some spec \<Rightarrow>
    (case split_once CHR ''-'' spec of None \<Rightarrow> None | Some (start_s, end_s) \<Rightarrow>
    (case parse_usize (trim start_s) of None \<Rightarrow> None | Some start \<Rightarrow>
    (case (if trim end_s = [] then Some (body_len - 1) else parse_usize (trim end_s)) of
       None \<Rightarrow> None
     | Some e \<Rightarrow> (let e = min e (body_len - 1) in if start > e then None else Some (start, e)))))))"

section \<open>Responders\<close>

record response =
  status :: nat
  hdr_etag :: "string option"
  hdr_content_length :: "nat option"
  hdr_content_range :: "string option"
  body_of :: bytes

definition plain :: "nat \<Rightarrow> bytes \<Rightarrow> response" where
  "plain code b = \<lparr> status = code, hdr_etag = None, hdr_content_length = None, hdr_content_range = None, body_of = b \<rparr>"

text \<open>A download, once the request is known not to be a listing and its target is known.  A range
  on an empty body makes the real slice panic; the handler then answers with status 500.\<close>

definition respond_get :: "(string \<times> string) option \<Rightarrow> string option \<Rightarrow> fake_state \<Rightarrow> response" where
  "respond_get target rng st =
    (case target of None \<Rightarrow> plain 400 ''bad path'' | Some (cont, blob) \<Rightarrow>
    (case map_of (blobs st) (blob_key cont blob) of
       None \<Rightarrow> plain 404 []
     | Some entry \<Rightarrow>
         (let total_len = length (entry_body entry) in
          (case parse_range_header rng total_len of
             Some (start, e) \<Rightarrow>
               if e + 1 > total_len then plain 500 []
               else
               (let part = take (e + 1 - start) (drop start (entry_body entry)) in
                \<lparr> status = 206, hdr_etag = Some (entry_etag entry), hdr_content_length = Some (length part),
                  hdr_content_range = Some (''bytes '' @ show_nat start @ ''-'' @ show_nat e @ ''/'' @ show_nat total_len),
                  body_of = part \<rparr>)
           | None \<Rightarrow>
               \<lparr> status = 200, hdr_etag = Some (entry_etag entry), hdr_content_length = Some total_len,
                 hdr_content_range = None, body_of = entry_body entry \<rparr>))))"

definition respond_head :: "(string \<times> string) option \<Rightarrow> fake_state \<Rightarrow> response" where
  "respond_head target st =
    (case target of None \<Rightarrow> plain 400 [] | Some (cont, blob) \<Rightarrow>
    (case map_of (blobs st) (blob_key cont blob) of
       None \<Rightarrow> plain 404 []
     | Some entry \<Rightarrow>
         \<lparr> status = 200, hdr_etag = Some (entry_etag entry),
           hdr_content_length = Some (length (entry_body entry)), hdr_content_range = None, body_of = [] \<rparr>))"

definition put_refused :: "string option \<Rightarrow> blob_entry option \<Rightarrow> bool" where
  "put_refused if_match cur =
    (case if_match of
       None \<Rightarrow> False
     | Some want \<Rightarrow> (case cur of None \<Rightarrow> True | Some entry \<Rightarrow> entry_etag entry \<noteq> want))"

definition respond_put :: "(string \<times> string) option \<Rightarrow> string option \<Rightarrow> bytes \<Rightarrow> fake_state \<Rightarrow> response \<times> fake_state" where
  "respond_put target if_match body st =
    (case target of None \<Rightarrow> (plain 400 ''bad path'', st) | Some (cont, blob) \<Rightarrow>
     (let key = blob_key cont blob in
      if put_refused if_match (map_of (blobs st) key) then (plain 412 [], st)
      else (case insert_blob key body st of
              None \<Rightarrow> (plain 500 [], st)
            | Some (etag, st') \<Rightarrow> ((plain 201 []) \<lparr> hdr_etag := Some etag \<rparr>, st'))))"

definition respond_delete :: "(string \<times> string) option \<Rightarrow> string option \<Rightarrow> fake_state \<Rightarrow> response \<times> fake_state" where
  "respond_delete target if_match st =
    (case target of None \<Rightarrow> (plain 400 ''bad path'', st) | Some (cont, blob) \<Rightarrow>
     (let key = blob_key cont blob in
      (case map_of (blobs st) key of
         None \<Rightarrow> (plain 404 [], st)
       | Some entry \<Rightarrow>
           if put_refused if_match (Some entry) then (plain 412 [], st)
           else (plain 202 [], st \<lparr> blobs := AList.delete key (blobs st) \<rparr>))))"

fun xml_escape :: "string \<Rightarrow> string" where
  "xml_escape [] = []"
| "xml_escape (c # cs) =
    (if c = CHR ''<'' then ''&lt;'' else if c = CHR ''>'' then ''&gt;'' else if c = CHR ''&'' then ''&amp;''
     else if c = CHR 0x22 then ''&quot;'' else if c = CHR 0x27 then ''&apos;'' else [c]) @ xml_escape cs"

definition names_etags :: "string \<Rightarrow> string option \<Rightarrow> fake_state \<Rightarrow> (string \<times> string) list" where
  "names_etags cont prfx st =
    sort_key fst (filter (\<lambda>(name, _). prefix_ok prfx name)
      (List.map_filter (\<lambda>(k, e). map_option (\<lambda>n. (n, entry_etag e)) (strip_prefix (cont @ ''/'') k)) (blobs st)))"

definition quote2 :: "string \<Rightarrow> string" where
  "quote2 s = CHR 0x22 # s @ [CHR 0x22]"

definition listing_xml :: "string \<Rightarrow> string option \<Rightarrow> (string \<times> string) list \<Rightarrow> string" where
  "listing_xml cont prfx entries =
    ''<?xml version='' @ quote2 ''1.0'' @ '' encoding='' @ quote2 ''utf-8'' @ ''?>''
    @ ''<EnumerationResults ServiceEndpoint='' @ quote2 ''http://127.0.0.1/'' @ '' ContainerName='' @ quote2 cont @ ''>''
    @ (case prfx of None \<Rightarrow> [] | Some p \<Rightarrow> ''<Prefix>'' @ xml_escape p @ ''</Prefix>'')
    @ ''<Blobs>''
    @ concat (map (\<lambda>(name, etag). ''<Blob><Name>'' @ xml_escape name @ ''</Name><Properties><Etag>''
        @ xml_escape etag @ ''</Etag></Properties></Blob>'') entries)
    @ ''</Blobs><NextMarker/></EnumerationResults>''"

definition respond_list :: "request \<Rightarrow> fake_state \<Rightarrow> response" where
  "respond_list req st =
    (case map percent_decode (path_segments req) of
       [] \<Rightarrow> plain 400 ''missing container''
     | cont # _ \<Rightarrow>
         (let prfx = map_of (query_pairs req) ''prefix'';
              xml = listing_xml cont prfx (names_etags cont prfx st)
          in (plain 200 xml) \<lparr> hdr_content_length := Some (length xml) \<rparr>))"

definition get_responder :: "request \<Rightarrow> fake_state \<Rightarrow> response" where
  "get_responder req st =
    (if (''comp'', ''list'') \<in> set (query_pairs req) then respond_list req st
     else respond_get (split_container_blob req) (range_header req) st)"

definition head_responder :: "request \<Rightarrow> fake_state \<Rightarrow> response" where
  "head_responder req st = respond_head (split_container_blob req) st"

definition put_responder :: "request \<Rightarrow> fake_state \<Rightarrow> response \<times> fake_state" where
  "put_responder req st = respond_put (split_container_blob req) (if_match_header req) (req_body req) st"

definition delete_responder :: "request \<Rightarrow> fake_state \<Rightarrow> response \<times> fake_state" where
  "delete_responder req st = respond_delete (split_container_blob req) (if_match_header req) st"

section \<open>ETags never repeat\<close>

lemma byte_val_hex_digit: "d < 16 \<Longrightarrow> byte_val (hex_digit d) = (if d < 10 then 48 + d else 55 + d)"
  by (simp add: hex_digit_def)

lemma hex_digit_inject:
  assumes "a < 16" "b < 16" "hex_digit a = hex_digit b"
  shows "a = b"
proof -
  have "(if a < 10 then 48 + a else 55 + a) = (if b < 10 then 48 + b else 55 + b)"
    using byte_val_hex_digit[OF assms(1)] byte_val_hex_digit[OF assms(2)] unfolding assms(3) by (rule subst)
  then show ?thesis using assms(1,2) by (simp split: if_splits)
qed

lemma hex_pad_inject: "n < 16 ^ k \<Longrightarrow> m < 16 ^ k \<Longrightarrow> hex_pad k n = hex_pad k m \<Longrightarrow> n = m"
proof (induction k arbitrary: n m)
  case (Suc k)
  then have "n div 16 = m div 16" "n mod 16 = m mod 16"
    by (auto simp: div_less_iff_less_mult mult.commute dest: hex_digit_inject[rotated 2])
  then show ?case by (metis div_mult_mod_eq)
qed simp

lemma etag_text_inject: "i \<le> u64_MAX \<Longrightarrow> j \<le> u64_MAX \<Longrightarrow> etag_text i = etag_text j \<longleftrightarrow> i = j"
proof -
  assume "i \<le> u64_MAX" "j \<le> u64_MAX"
  then have "i < 16 ^ 16" "j < 16 ^ 16" by (simp_all add: u64_MAX_def)
  then have "hex_pad 16 i = hex_pad 16 j \<longleftrightarrow> i = j" using hex_pad_inject by blast
  then show ?thesis unfolding etag_text_def by simp
qed

definition fake_ok :: "fake_state \<Rightarrow> bool" where
  "fake_ok st \<longleftrightarrow> next_etag_seq st \<le> u64_MAX \<and> distinct (map fst (blobs st))
    \<and> (\<forall>k e. map_of (blobs st) k = Some e \<longrightarrow> (\<exists>i < next_etag_seq st. entry_etag e = etag_text i))"

text \<open>In a later state every blob is the one there was or has an ETag minted since.\<close>

definition fake_later :: "fake_state \<Rightarrow> fake_state \<Rightarrow> bool" where
  "fake_later st st' \<longleftrightarrow> fake_ok st \<and> fake_ok st' \<and> next_etag_seq st \<le> next_etag_seq st'
    \<and> (\<forall>k e. map_of (blobs st') k = Some e \<longrightarrow> map_of (blobs st) k = Some e
        \<or> (\<exists>i \<ge> next_etag_seq st. i < next_etag_seq st' \<and> entry_etag e = etag_text i))"

lemma fake_ok_etag:
  assumes "fake_ok st" "map_of (blobs st) k = Some e"
  obtains i where "i < next_etag_seq st" "entry_etag e = etag_text i"
  using assms unfolding fake_ok_def by blast

lemma fake_later_cases:
  assumes "fake_later st st'" "map_of (blobs st') k = Some e"
  obtains "map_of (blobs st) k = Some e"
  | i where "next_etag_seq st \<le> i" "i < next_etag_seq st'" "entry_etag e = etag_text i"
  using assms unfolding fake_later_def by blast

lemma fake_laterD: "fake_later st st' \<Longrightarrow> fake_ok st \<and> fake_ok st' \<and> next_etag_seq st \<le> next_etag_seq st'"
  by (simp add: fake_later_def)

lemma fake_ok_bound: "fake_ok st \<Longrightarrow> next_etag_seq st \<le> u64_MAX"
  by (simp add: fake_ok_def)

lemma fake_later_refl: "fake_ok st \<Longrightarrow> fake_later st st"
  by (simp add: fake_later_def)

lemma fake_later_trans:
  assumes "fake_later a b" "fake_later b c"
  shows "fake_later a c"
  unfolding fake_later_def
proof (intro conjI allI impI)
  fix k e
  assume "map_of (blobs c) k = Some e"
  with assms(2) show "map_of (blobs a) k = Some e
    \<or> (\<exists>i \<ge> next_etag_seq a. i < next_etag_seq c \<and> entry_etag e = etag_text i)"
  proof (cases rule: fake_later_cases)
    case 1
    with assms(1) show ?thesis
      by (cases rule: fake_later_cases) (use fake_laterD[OF assms(2)] in \<open>auto dest: less_le_trans\<close>)
  next
    case (2 i)
    then show ?thesis using fake_laterD[OF assms(1)] le_trans by blast
  qed
qed (use fake_laterD[OF assms(1)] fake_laterD[OF assms(2)] in auto)

text \<open>An entry whose ETag was minted before \<open>a\<close> is not new since \<open>a\<close>.\<close>

lemma fake_later_old:
  assumes "fake_later a b" "map_of (blobs b) k = Some e" "entry_etag e = etag_text i" "i < next_etag_seq a"
  shows "map_of (blobs a) k = Some e"
  using assms(1,2)
proof (cases rule: fake_later_cases)
  case (2 j)
  have "i \<le> u64_MAX" "j \<le> u64_MAX"
    using assms(4) 2 fake_laterD[OF assms(1)] fake_ok_bound[of b] by auto
  then have "i = j" using 2(3) assms(3) etag_text_inject by simp
  then show ?thesis using 2(1) assms(4) by simp
qed

lemma fake_later_stable:
  assumes "fake_later a b" "fake_later b c" "map_of (blobs a) k = Some e" "map_of (blobs c) k = Some e'"
    "entry_etag e' = entry_etag e"
  shows "map_of (blobs b) k = Some e"
proof -
  obtain i where i: "i < next_etag_seq a" "entry_etag e = etag_text i"
    using fake_ok_etag[OF _ assms(3)] fake_laterD[OF assms(1)] by blast
  then have b: "map_of (blobs b) k = Some e'"
    using fake_later_old[OF assms(2,4), of i] assms(5) fake_laterD[OF assms(1)] by simp
  moreover have "map_of (blobs a) k = Some e'" using fake_later_old[OF assms(1) b, of i] assms(5) i by simp
  ultimately show ?thesis using assms(3) by simp
qed

section \<open>The operations keep the invariant\<close>

lemma insert_blob_Some:
  assumes "insert_blob key body st = Some (etag, st')"
  shows "next_etag_seq st < u64_MAX" "next_etag_seq st' = next_etag_seq st + 1"
    "etag = etag_text (next_etag_seq st)"
    "blobs st' = AList.update key \<lparr> entry_body = body, entry_etag = etag \<rparr> (blobs st)"
  using assms by (auto simp: insert_blob_def mint_etag_def split: if_splits)

lemma insert_blob_None: "insert_blob key body st = None \<Longrightarrow> \<not> next_etag_seq st < u64_MAX"
  by (simp add: insert_blob_def mint_etag_def split: if_splits)

lemma insert_blob_later:
  assumes "fake_ok st" "insert_blob key body st = Some (etag, st')"
  shows "fake_later st st'"
proof -
  note i = insert_blob_Some[OF assms(2)]
  have look: "map_of (blobs st') = (map_of (blobs st))(key \<mapsto> \<lparr> entry_body = body, entry_etag = etag \<rparr>)"
    using i(4) by (simp add: update_conv')
  have "\<exists>j < next_etag_seq st'. entry_etag e = etag_text j" if e: "map_of (blobs st') k = Some e" for k e
  proof (cases "k = key")
    case True
    then show ?thesis using e look i(2,3) by auto
  next
    case False
    then have "map_of (blobs st) k = Some e" using e look by simp
    then show ?thesis using fake_ok_etag[OF assms(1)] i(2) by (metis less_Suc_eq Suc_eq_plus1)
  qed
  moreover have "distinct (map fst (blobs st'))"
    using assms(1) i(4) by (simp add: fake_ok_def distinct_update)
  ultimately have "fake_ok st'"
    using i(1,2) unfolding fake_ok_def by (intro conjI allI impI) simp_all
  moreover have "map_of (blobs st) k = Some e \<or> (\<exists>j \<ge> next_etag_seq st. j < next_etag_seq st' \<and> entry_etag e = etag_text j)"
    if "map_of (blobs st') k = Some e" for k e
    using that look i(2,3) by (cases "k = key") auto
  ultimately show ?thesis using assms(1) i(2) unfolding fake_later_def by (intro conjI allI impI) simp_all
qed

lemma delete_blob_later:
  assumes "fake_ok st"
  shows "fake_later st (st \<lparr> blobs := AList.delete key (blobs st) \<rparr>)"
proof -
  have look: "map_of (AList.delete key (blobs st)) k = Some e \<Longrightarrow> map_of (blobs st) k = Some e" for k e
    by (simp add: delete_conv' split: if_splits)
  have "distinct (map fst (AList.delete key (blobs st)))"
    using assms by (simp add: fake_ok_def distinct_delete)
  moreover have "\<exists>i < next_etag_seq st. entry_etag e = etag_text i"
    if "map_of (AList.delete key (blobs st)) k = Some e" for k e
    using fake_ok_etag[OF assms look[OF that]] by blast
  ultimately have "fake_ok (st \<lparr> blobs := AList.delete key (blobs st) \<rparr>)"
    using fake_ok_bound[OF assms] unfolding fake_ok_def by (intro conjI allI impI) simp_all
  then show ?thesis using assms look unfolding fake_later_def by (intro conjI allI impI) simp_all
qed

text \<open>What other clients of the store do between two requests.\<close>

inductive others :: "fake_state \<Rightarrow> fake_state \<Rightarrow> bool" where
  others_none: "fake_ok st \<Longrightarrow> others st st"
| others_put: "others st st1 \<Longrightarrow> insert_blob key body st1 = Some (etag, st2) \<Longrightarrow> others st st2"
| others_delete: "others st st1 \<Longrightarrow> others st (st1 \<lparr> blobs := AList.delete key (blobs st1) \<rparr>)"

lemma others_later: "others st st' \<Longrightarrow> fake_later st st'"
proof (induction rule: others.induct)
  case (others_put st st1 key body etag st2)
  then show ?case using insert_blob_later fake_later_trans fake_laterD by blast
next
  case (others_delete st st1 key)
  then show ?case using delete_blob_later fake_later_trans fake_laterD by blast
qed (rule fake_later_refl)

section \<open>The fake as a service\<close>

text \<open>The SDK turns a response outside 200 to 299 into an error with its status.  Blob names
  reach the responders as the target of the request.\<close>

definition status_text :: "nat \<Rightarrow> string" where
  "status_text code = ''http status '' @ show_nat code"

definition of_response :: "response \<Rightarrow> sdk_error + response" where
  "of_response r = (if 200 \<le> status r \<and> status r < 300 then Inr r
                    else Inl (SdkError (Some (status r)) (status_text (status r))))"

definition range_text :: "nat \<times> nat \<Rightarrow> string" where
  "range_text rng = ''bytes='' @ show_nat (fst rng) @ ''-'' @ show_nat (snd rng - 1)"

definition fake_service :: "string \<Rightarrow> fake_state blob_service" where
  "fake_service cont =
    \<lparr> svc_download = (\<lambda>n if_match rng st.
        (case of_response (respond_get (Some (cont, n)) (map_option range_text rng) st) of
           Inl e \<Rightarrow> Inl e
         | Inr r \<Rightarrow> Inr \<lparr> content_length = hdr_content_length r, resp_etag = hdr_etag r, resp_body = Inr (body_of r) \<rparr>, st)),
      svc_get_properties = (\<lambda>n st.
        (case of_response (respond_head (Some (cont, n)) st) of
           Inl e \<Rightarrow> Inl e
         | Inr r \<Rightarrow> Inr \<lparr> prop_etag = Inr (hdr_etag r), prop_content_length = Inr (hdr_content_length r) \<rparr>, st)),
      svc_upload = (\<lambda>n body if_match if_none_match st.
        (case respond_put (Some (cont, n)) if_match body st of
           (r, st') \<Rightarrow> (case of_response r of Inl e \<Rightarrow> Inl e | Inr r \<Rightarrow> Inr (hdr_etag r), st'))),
      svc_delete = (\<lambda>n if_match st.
        (case respond_delete (Some (cont, n)) if_match st of
           (r, st') \<Rightarrow> (case of_response r of Inl e \<Rightarrow> Inl e | Inr _ \<Rightarrow> Inr (), st'))),
      svc_list = (\<lambda>prfx st.
        (Inr (map (\<lambda>(n, e). Inr \<lparr> item_name = Some n, item_etag = Some e \<rparr>) (names_etags cont (Some prfx) st)), st)) \<rparr>"

definition fake_view :: "string \<Rightarrow> fake_state \<Rightarrow> contents" where
  "fake_view cont st n = map_option (\<lambda>e. (entry_body e, entry_etag e)) (map_of (blobs st) (blob_key cont n))"

definition fake_budget :: "fake_state \<Rightarrow> nat" where
  "fake_budget st = u64_MAX - next_etag_seq st"

lemma blob_key_inject [simp]: "blob_key c n = blob_key c m \<longleftrightarrow> n = m"
  by (simp add: blob_key_def)

lemma fake_view_update:
  "blobs st' = AList.update (blob_key cont n) e (blobs st) \<Longrightarrow>
    fake_view cont st' = (fake_view cont st)(n \<mapsto> (entry_body e, entry_etag e))"
  by (auto simp: fake_view_def update_conv' fun_eq_iff)

lemma fake_view_delete:
  "blobs st' = AList.delete (blob_key cont n) (blobs st) \<Longrightarrow> fake_view cont st' = (fake_view cont st)(n := None)"
  by (auto simp: fake_view_def delete_conv' fun_eq_iff)

lemma put_refused_iff: "put_refused im (map_of (blobs st) (blob_key cont n)) \<longleftrightarrow> \<not> cond_holds im (fake_view cont st n)"
  by (auto simp: put_refused_def cond_holds_def fake_view_def split: option.splits)

lemma fake_upload_eq:
  "svc_upload (fake_service cont) n b im inm st =
    (if \<not> cond_holds im (fake_view cont st n) then (Inl (SdkError (Some 412) (status_text 412)), st)
     else (case insert_blob (blob_key cont n) b st of
             None \<Rightarrow> (Inl (SdkError (Some 500) (status_text 500)), st)
           | Some (etag, st') \<Rightarrow> (Inr (Some etag), st')))"
  unfolding put_refused_iff[symmetric]
  by (cases "insert_blob (blob_key cont n) b st")
    (simp_all add: fake_service_def respond_put_def of_response_def plain_def split: prod.split)

lemma fake_upload_cases:
  assumes "svc_upload (fake_service cont) n b im inm st = (r, st')"
  obtains (refused) "\<not> cond_holds im (fake_view cont st n)"
      "r = Inl (SdkError (Some 412) (status_text 412))" "st' = st"
  | (panicked) "\<not> next_etag_seq st < u64_MAX" "r = Inl (SdkError (Some 500) (status_text 500))" "st' = st"
  | (stored) e where "cond_holds im (fake_view cont st n)" "r = Inr (Some e)"
      "insert_blob (blob_key cont n) b st = Some (e, st')"
proof (cases "cond_holds im (fake_view cont st n)")
  case False
  then have "r = Inl (SdkError (Some 412) (status_text 412))" "st' = st"
    using assms by (simp_all add: fake_upload_eq)
  then show ?thesis by (rule refused[OF False])
next
  case True
  show ?thesis
  proof (cases "insert_blob (blob_key cont n) b st")
    case None
    then have "r = Inl (SdkError (Some 500) (status_text 500))" "st' = st"
      using assms True by (simp_all add: fake_upload_eq)
    then show ?thesis by (rule panicked[OF insert_blob_None[OF None]])
  next
    case (Some x)
    then obtain e where "r = Inr (Some e)" "insert_blob (blob_key cont n) b st = Some (e, st')"
      using assms True by (cases x) (simp add: fake_upload_eq)
    then show ?thesis by (rule stored[OF True])
  qed
qed

lemma fake_delete_eq:
  "svc_delete (fake_service cont) n im st =
    (if fake_view cont st n = None then (Inl (SdkError (Some 404) (status_text 404)), st)
     else if \<not> cond_holds im (fake_view cont st n) then (Inl (SdkError (Some 412) (status_text 412)), st)
     else (Inr (), st \<lparr> blobs := AList.delete (blob_key cont n) (blobs st) \<rparr>))"
  unfolding put_refused_iff[symmetric]
  by (cases "map_of (blobs st) (blob_key cont n)")
    (simp_all add: fake_service_def respond_delete_def of_response_def plain_def fake_view_def)

lemma fake_delete_cases:
  assumes "svc_delete (fake_service cont) n im st = (r, st')"
  obtains (absent) e where "fake_view cont st n = None" "r = Inl e" "st' = st"
  | (refused) e where "\<not> cond_holds im (fake_view cont st n)" "r = Inl e" "st' = st"
  | (gone) "fake_view cont st n \<noteq> None" "cond_holds im (fake_view cont st n)" "r = Inr ()"
      "st' = st \<lparr> blobs := AList.delete (blob_key cont n) (blobs st) \<rparr>"
  using assms that by (auto simp: fake_delete_eq split: if_splits)

lemma fake_download_body:
  assumes "svc_download (fake_service cont) n im None st = (r, st')"
  shows "st' = st \<and> (case fake_view cont st n of
      None \<Rightarrow> (\<exists>e. r = Inl e)
    | Some (b, e) \<Rightarrow> r = Inr \<lparr> content_length = Some (length b), resp_etag = Some e, resp_body = Inr b \<rparr>)"
  using assms
  by (cases "map_of (blobs st) (blob_key cont n)")
    (auto simp: fake_service_def respond_get_def parse_range_header_def of_response_def plain_def fake_view_def)

lemma fake_download_state: "svc_download (fake_service cont) n im rng st = (r, st') \<Longrightarrow> st' = st"
  by (simp add: fake_service_def)

text \<open>Whatever other clients do between the requests, as long as they follow the protocol.\<close>

lemma fake_blob_store:
  assumes none: "\<And>s. fake_ok s \<Longrightarrow> E s s" and E_later: "\<And>s s'. E s s' \<Longrightarrow> fake_later s s'"
  shows "blob_store (fake_service cont) (fake_view cont) fake_ok E fake_later"
proof unfold_locales
  fix s1 s2 s3 n b e b'
  assume l: "fake_later s1 s2" "fake_later s2 s3" and v: "fake_view cont s1 n = Some (b, e)" "fake_view cont s3 n = Some (b', e)"
  obtain E E' where "map_of (blobs s1) (blob_key cont n) = Some E" "entry_body E = b" "entry_etag E = e"
    "map_of (blobs s3) (blob_key cont n) = Some E'" "entry_etag E' = e"
    using v by (auto simp: fake_view_def)
  then show "fake_view cont s2 n = Some (b, e)"
    using fake_later_stable[OF l] by (simp add: fake_view_def)
next
  fix s n im rng r s'
  assume "fake_ok s" "svc_download (fake_service cont) n im rng s = (r, s')"
  then show "E s s'" using fake_download_state none by blast
next
  fix s n im resp s' b
  assume s: "fake_ok s" and d: "svc_download (fake_service cont) n im None s = (Inr resp, s')" "resp_body resp = Inr b"
  have "\<exists>e. fake_view cont s n = Some (b, e)" "s' = s"
    using fake_download_body[OF d(1)] d(2) by (auto split: option.splits)
  then show "\<exists>s1 e. E s s1 \<and> E s1 s' \<and> fake_view cont s1 n = Some (b, e)"
    using none[OF s] by blast
next
  fix s n b im inm r s'
  assume s: "fake_ok s" and u: "svc_upload (fake_service cont) n b im inm s = (r, s')"
  show "\<exists>s1 s2. E s s1 \<and> fake_later s1 s2 \<and> E s2 s'
      \<and> (wrote n b im (fake_view cont s1) (fake_view cont s2) \<or> (\<exists>err. r = Inl err) \<and> fake_view cont s2 = fake_view cont s1)"
    using u
  proof (cases rule: fake_upload_cases)
    case (stored e)
    have l: "fake_later s s'" using insert_blob_later[OF s stored(3)] .
    have "wrote n b im (fake_view cont s) (fake_view cont s')"
      using stored(1) fake_view_update[OF insert_blob_Some(4)[OF stored(3)]] by (auto simp: wrote_def)
    then show ?thesis using l none fake_laterD[OF l] s by blast
  qed (use none[OF s] fake_later_refl[OF s] in blast)+
next
  fix s n im r s'
  assume s: "fake_ok s" and u: "svc_delete (fake_service cont) n im s = (r, s')"
  show "\<exists>s1 s2. E s s1 \<and> fake_later s1 s2 \<and> E s2 s'
      \<and> (removed n im (fake_view cont s1) (fake_view cont s2) \<or> (\<exists>err. r = Inl err) \<and> fake_view cont s2 = fake_view cont s1)"
    using u
  proof (cases rule: fake_delete_cases)
    case gone
    have l: "fake_later s s'" using delete_blob_later[OF s] gone(4) by simp
    have "removed n im (fake_view cont s) (fake_view cont s')"
      using gone(2,4) fake_view_delete[of s' cont n s] by (simp add: removed_def)
    then show ?thesis using l none fake_laterD[OF l] s by blast
  qed (use none[OF s] fake_later_refl[OF s] in blast)+
qed (use none E_later fake_later_trans fake_laterD in blast)+

interpretation fake: blob_store "fake_service cont" "fake_view cont" fake_ok others fake_later for cont
  by (rule fake_blob_store) (rule others_none others_later, assumption)+

interpretation fake: responsive_store "fake_service cont" "fake_view cont" fake_ok others fake_later fake_budget for cont
proof unfold_locales
  fix s n b e if_match
  assume "fake_ok s" "fake_view cont s n = Some (b, e)"
  then show "\<exists>resp. svc_download (fake_service cont) n if_match None s = (Inr resp, s) \<and> resp_body resp = Inr b
      \<and> content_length resp \<in> {None, Some (length b)}"
    using fake_download_body[of cont n if_match s "fst (svc_download (fake_service cont) n if_match None s)"
        "snd (svc_download (fake_service cont) n if_match None s)"]
    by (cases "svc_download (fake_service cont) n if_match None s") auto
next
  fix s im n inm b
  assume s: "fake_ok s" "0 < fake_budget s" "cond_holds im (fake_view cont s n)"
  obtain r s' where u: "svc_upload (fake_service cont) n b im inm s = (r, s')" by fastforce
  then show "\<exists>e s'. svc_upload (fake_service cont) n b im inm s = (Inr (Some e), s') \<and> fake_ok s'
      \<and> fake_view cont s' = (fake_view cont s)(n \<mapsto> (b, e)) \<and> fake_budget s' = fake_budget s - 1"
  proof (cases rule: fake_upload_cases)
    case (stored e)
    then show ?thesis
      using u fake_laterD[OF insert_blob_later[OF s(1) stored(3)]] fake_view_update[OF insert_blob_Some(4)[OF stored(3)]]
        insert_blob_Some(2)[OF stored(3)] by (auto simp: fake_budget_def)
  qed (use s in \<open>simp_all add: fake_budget_def\<close>)
next
  fix s w n b
  assume s: "fake_ok s" "\<not> cond_holds (Some w) (fake_view cont s n)"
  then show "\<exists>msg. svc_upload (fake_service cont) n b (Some w) None s = (Inl (SdkError (Some PreconditionFailed) msg), s)"
    by (simp add: fake_upload_eq)
next
  fix s n im
  assume s: "fake_ok s" "fake_view cont s n \<noteq> None" "cond_holds im (fake_view cont s n)"
  obtain r s' where u: "svc_delete (fake_service cont) n im s = (r, s')" by fastforce
  then show "\<exists>s'. svc_delete (fake_service cont) n im s = (Inr (), s') \<and> fake_ok s'
      \<and> fake_view cont s' = (fake_view cont s)(n := None) \<and> fake_budget s' = fake_budget s"
  proof (cases rule: fake_delete_cases)
    case gone
    then show ?thesis using u fake_laterD[OF delete_blob_later[OF s(1)]] fake_view_delete[of s' cont n s]
      by (auto simp: fake_budget_def)
  qed (use s in blast)+
qed (auto simp: fake_delete_eq cond_holds_def)

section \<open>Percent-encoded paths\<close>

text \<open>An encoder that keeps some bytes and writes every other one as \<^verbatim>\<open>%XX\<close>.\<close>

fun percent_encode :: "(char \<Rightarrow> bool) \<Rightarrow> string \<Rightarrow> string" where
  "percent_encode keep [] = []"
| "percent_encode keep (c # cs) =
    (if keep c then c # percent_encode keep cs
     else CHR ''%'' # hex_digit (byte_val c div 16) # hex_digit (byte_val c mod 16) # percent_encode keep cs)"

lemma to_digit_hex_digit: "d < 16 \<Longrightarrow> to_digit 16 (hex_digit d) = Some d"
  by (cases "d < 10") (simp_all add: to_digit_def byte_val_hex_digit)

lemma byte_high_digit: "byte_val c div 16 < 16"
  by (rule div_less_iff_less_mult[THEN iffD2]) (use byte_val_less[of c] in simp_all)

lemma percent_decode_encode:
  "\<not> keep (CHR ''%'') \<Longrightarrow> percent_decode_bytes (percent_encode keep s) = s"
proof (induction s)
  case (Cons c cs)
  have q: "byte_val c div 16 < 16" by (rule byte_high_digit)
  have v: "byte_val c div 16 * 16 + byte_val c mod 16 = byte_val c" by simp
  have "char_of (byte_val c) = c" by (simp add: byte_val_def)
  then show ?case using Cons
    by (auto simp: percent_decode_bytes.simps to_digit_hex_digit[OF q] to_digit_hex_digit v)
qed simp

lemma percent_encode_no_slash:
  "\<not> keep (CHR ''/'') \<Longrightarrow> CHR ''/'' \<notin> set (percent_encode keep s)"
proof (induction s)
  case (Cons c cs)
  have "d < 16 \<Longrightarrow> hex_digit d \<noteq> CHR ''/''" for d
    using byte_val_hex_digit[of d] by (cases "d < 10") (auto simp: byte_val_def)
  moreover have "byte_val c div 16 < 16" "byte_val c mod 16 < 16" using byte_high_digit by simp_all
  ultimately have "hex_digit (byte_val c div 16) \<noteq> CHR ''/''" "hex_digit (byte_val c mod 16) \<noteq> CHR ''/''"
    by blast+
  then show ?case using Cons by auto
qed simp

section \<open>Properties\<close>

text \<open>C39: a conditional replace on the fake store is a compare-and-swap.  When the blob's ETag is the
  expected one, the body is replaced, no other blob changes, and the ETag handed out is one that no
  blob of the store has; otherwise nothing changes and the caller gets a serialization conflict.\<close>

theorem fake_compare_and_swap:
  assumes "fake_ok st" "next_etag_seq st < u64_MAX" "length b \<le> MAX_BLOB_BYTES"
  shows "if \<exists>b0. fake_view cont st n = Some (b0, w)
    then \<exists>e st'. put_if_match (fake_service cont) n b w st = (Ok e, st') \<and> fake_ok st'
      \<and> fake_view cont st' = (fake_view cont st)(n \<mapsto> (b, e))
      \<and> (\<forall>m b'. fake_view cont st m \<noteq> Some (b', e))
    else put_if_match (fake_service cont) n b w st = (Err (ConcurrentUpdate n ''etag mismatch''), st)"
proof (cases "\<exists>b0. fake_view cont st n = Some (b0, w)")
  case True
  then have c: "cond_holds (Some w) (fake_view cont st n)" by (simp add: cond_holds_def)
  obtain r st' where u: "svc_upload (fake_service cont) n b (Some w) None st = (r, st')" by fastforce
  then show ?thesis
  proof (cases rule: fake_upload_cases)
    case (stored e)
    have "fake_view cont st m \<noteq> Some (b', e)" for m b'
    proof
      assume "fake_view cont st m = Some (b', e)"
      then obtain E where "map_of (blobs st) (blob_key cont m) = Some E" "entry_etag E = e"
        by (auto simp: fake_view_def)
      then obtain i where "i < next_etag_seq st" "e = etag_text i" using fake_ok_etag[OF assms(1)] by metis
      then show False using insert_blob_Some(3)[OF stored(3)] etag_text_inject[of i "next_etag_seq st"] assms(2) by simp
    qed
    moreover have "put_if_match (fake_service cont) n b w st = (Ok e, st')"
      using u stored(2) assms(3) by (simp add: put_if_match_def conditional_put_def)
    ultimately show ?thesis
      using True fake_view_update[OF insert_blob_Some(4)[OF stored(3)]] fake_laterD[OF insert_blob_later[OF assms(1) stored(3)]]
      by auto
  qed (use c assms(2) in simp_all)
next
  case False
  then show ?thesis
    using fake.put_if_match_stale[OF assms(1), of w cont n b] assms(3) by (simp add: cond_holds_def)
qed

theorem fake_compare_and_swap_witness:
  "put_if_match (fake_service ''c'') ''a'' ''new'' ''stale''
      \<lparr> blobs = [(''c/a'', \<lparr> entry_body = ''old'', entry_etag = etag_text 1 \<rparr>)], next_etag_seq = 2 \<rparr>
    = (Err (ConcurrentUpdate ''a'' ''etag mismatch''),
       \<lparr> blobs = [(''c/a'', \<lparr> entry_body = ''old'', entry_etag = etag_text 1 \<rparr>)], next_etag_seq = 2 \<rparr>)"
proof -
  let ?st = "\<lparr> blobs = [(''c/a'', \<lparr> entry_body = ''old'', entry_etag = etag_text 1 \<rparr>)], next_etag_seq = 2 \<rparr>"
  have "fake_ok ?st" "next_etag_seq ?st < u64_MAX"
    by (auto simp: fake_ok_def u64_MAX_def intro!: exI[of _ 1])
  moreover have "\<not> (\<exists>b0. fake_view ''c'' ?st ''a'' = Some (b0, ''stale''))"
    by (simp add: fake_view_def blob_key_def etag_text_def)
  ultimately show ?thesis
    using fake_compare_and_swap[of ?st "''new''" "''c''" "''a''" "''stale''"] by (simp add: MAX_BLOB_BYTES_def)
qed

text \<open>Blob names survive the request path: whatever bytes an encoder chooses to escape, as long as
  it escapes the percent sign and the slash, the container and blob the responders recover from the
  two path segments are the ones the request was made for.\<close>

theorem path_round_trip:
  assumes "\<not> keep (CHR ''%'')" "\<not> keep (CHR ''/'')" "utf8_valid cont" "utf8_valid blob" "cont \<noteq> []" "blob \<noteq> []"
    "url_segments req = Some (split_on CHR ''/'' (percent_encode keep cont @ ''/'' @ percent_encode keep blob))"
  shows "split_container_blob req = Some (cont, blob)"
proof -
  have ne: "percent_encode keep s \<noteq> []" if "s \<noteq> []" for s using that by (cases s) auto
  have "url_segments req = Some [percent_encode keep cont, percent_encode keep blob]"
    using assms(7) split_on_append_sep[OF percent_encode_no_slash[of keep, OF assms(2)]]
      split_on_no_sep[OF percent_encode_no_slash[of keep, OF assms(2)]] by simp
  then show ?thesis using ne assms(1,3-6)
    by (simp add: split_container_blob_def path_segments_def percent_decode_def percent_decode_encode)
qed

theorem path_round_trip_witness:
  "split_container_blob
    \<lparr> url_segments = Some (split_on CHR ''/'' (percent_encode is_ascii_digit ''c'' @ ''/'' @ percent_encode is_ascii_digit ''a/b'')),
      query_pairs = [], if_match_header = None, range_header = None, req_body = [] \<rparr> = Some (''c'', ''a/b'')"
  by (rule path_round_trip[of is_ascii_digit]) (simp_all add: is_ascii_digit_def byte_val_def utf8_valid.simps in_range_def)

end
