(* ===== verification/Coordinator.thy ===== *)
theory Coordinator
  imports Azure_Client
begin

text \<open>
  \<^verbatim>\<open>src/fdw/modify/coordinator.rs\<close>: the set of staging blobs of the open statement and the
  transaction callback that sweeps them on abort.  The \<^verbatim>\<open>HashSet\<close> is a list without
  repetitions; the order in which it is iterated does not matter to the properties.  The
  thread-local slot is a value of type \<open>coord option\<close>; the client stored in it is the service
  the functions take.
\<close>

type_synonym coord = "string list"

definition coord_new :: coord where "coord_new = []"

definition register_staging :: "string \<Rightarrow> coord \<Rightarrow> coord" where
  "register_staging name c = (if name \<in> set c then c else c @ [name])"

definition mark_committed :: "string \<Rightarrow> coord \<Rightarrow> coord" where
  "mark_committed name c = removeAll name c"

definition pending_staging :: "coord \<Rightarrow> string list" where "pending_staging c = c"

definition coord_is_empty :: "coord \<Rightarrow> bool" where "coord_is_empty c \<longleftrightarrow> c = []"

definition strip_suffix :: "string \<Rightarrow> string \<Rightarrow> string option" where
  "strip_suffix s sfx = (if ends_with s sfx then Some (take (length s - length sfx) s) else None)"

text \<open>\<open>uuid\<close> is the text of the fresh identifier.\<close>

definition make_staging_name :: "string \<Rightarrow> string \<Rightarrow> string" where
  "make_staging_name uuid original =
    (let stem = (case strip_suffix original ''.parquet'' of Some s \<Rightarrow> s | None \<Rightarrow> original)
     in stem @ ''.tmp.'' @ uuid @ ''.parquet'')"

text \<open>\<open>open_statement\<close> also says whether it replaced a slot, which the code logs;
  \<open>close_statement_success\<close> returns the orphans it warns about.\<close>

definition open_statement :: "coord option \<Rightarrow> bool \<times> coord option" where
  "open_statement slot = (slot \<noteq> None, Some coord_new)"

definition close_statement_success :: "coord option \<Rightarrow> string list \<times> coord option" where
  "close_statement_success slot =
    (case slot of
       None \<Rightarrow> ([], None)
     | Some c \<Rightarrow> (if coord_is_empty c then [] else pending_staging c, None))"

definition with_active :: "(coord \<Rightarrow> coord) \<Rightarrow> coord option \<Rightarrow> coord option" where
  "with_active f slot = map_option f slot"

datatype xact_event =
    XACT_EVENT_COMMIT | XACT_EVENT_PARALLEL_COMMIT | XACT_EVENT_ABORT | XACT_EVENT_PARALLEL_ABORT
  | XACT_EVENT_PREPARE | XACT_EVENT_PRE_COMMIT | XACT_EVENT_PARALLEL_PRE_COMMIT | XACT_EVENT_PRE_PREPARE

text \<open>The sweep: every pending name is deleted, failures are collected as warnings.\<close>

fun sweep :: "'s blob_service \<Rightarrow> string list \<Rightarrow> 's \<Rightarrow> (string \<times> fdw_error) list \<times> 's" where
  "sweep svc [] s = ([], s)"
| "sweep svc (name # names) s =
    (case delete_unconditional svc name s of
       (res, s1) \<Rightarrow>
         (case sweep svc names s1 of
            (ws, s2) \<Rightarrow> (case res of Inl e \<Rightarrow> (name, e) # ws | Inr _ \<Rightarrow> ws, s2)))"

definition xact_cb ::
  "'s blob_service \<Rightarrow> xact_event \<Rightarrow> coord option \<Rightarrow> 's \<Rightarrow> (string \<times> fdw_error) list \<times> coord option \<times> 's" where
  "xact_cb svc event slot s =
    (let is_abort = (event = XACT_EVENT_ABORT \<or> event = XACT_EVENT_PARALLEL_ABORT);
         is_commit = (event = XACT_EVENT_COMMIT \<or> event = XACT_EVENT_PARALLEL_COMMIT)
     in if \<not> (is_abort \<or> is_commit) then ([], slot, s)
        else
         (case slot of
            None \<Rightarrow> ([], None, s)
          | Some c \<Rightarrow>
              if \<not> is_abort \<or> coord_is_empty c then ([], None, s)
              else (case sweep svc (pending_staging c) s of (ws, s') \<Rightarrow> (ws, None, s'))))"

section \<open>Names\<close>

lemma staging_name_is_staging: "is_staging_name (make_staging_name uuid original)"
proof -
  obtain stem where "make_staging_name uuid original = stem @ ''.tmp.'' @ (uuid @ ''.parquet'')"
    by (simp add: make_staging_name_def Let_def)
  then show ?thesis unfolding is_staging_name_def contains_str_iff by blast
qed

lemma register_staging_simps [simp]:
  "set (register_staging n c) = insert n (set c)" "distinct (register_staging n c) \<longleftrightarrow> distinct c"
  by (auto simp: register_staging_def)

lemma mark_committed_simps [simp]: "set (mark_committed n c) = set c - {n}"
  by (simp add: mark_committed_def)

section \<open>The sweep\<close>

text \<open>What the sweep relies on: nobody else writes to the container, and a delete is answered and leaves the
  blob absent.  Uploads and downloads may fail in any way, and an upload that reports an error may
  have taken effect.\<close>

locale quiet_store = blob_store svc view ok env later
  for svc :: "'s blob_service" and view :: "'s \<Rightarrow> contents" and ok :: "'s \<Rightarrow> bool"
    and env :: "'s \<Rightarrow> 's \<Rightarrow> bool" and later :: "'s \<Rightarrow> 's \<Rightarrow> bool" +
  assumes quiet: "env s s' \<Longrightarrow> view s' = view s"
    and answer_remove: "ok s \<Longrightarrow> \<exists>s'. delete_unconditional svc n s = (Ok (), s') \<and> ok s' \<and> view s' = (view s)(n := None)"
begin

lemma sweep_answer:
  assumes "ok s"
  shows "\<exists>s'. sweep svc names s = ([], s') \<and> ok s' \<and> view s' = (\<lambda>n. if n \<in> set names then None else view s n)"
  using assms
proof (induction names arbitrary: s)
  case (Cons n names)
  obtain s1 where s1: "delete_unconditional svc n s = (Ok (), s1)" "ok s1" "view s1 = (view s)(n := None)"
    using answer_remove[OF Cons.prems] by blast
  obtain s2 where "sweep svc names s1 = ([], s2)" "ok s2" "view s2 = (\<lambda>m. if m \<in> set names then None else view s1 m)"
    using Cons.IH[OF s1(2)] by blast
  then show ?case using s1 by (auto simp: fun_eq_iff)
qed auto

lemma xact_abort_answer:
  assumes "ok s"
  shows "\<exists>s'. xact_cb svc XACT_EVENT_ABORT (Some c) s = ([], None, s') \<and> ok s'
    \<and> view s' = (\<lambda>n. if n \<in> set c then None else view s n)"
proof (cases "c = []")
  case False
  then show ?thesis using sweep_answer[OF assms, of c]
    by (auto simp: xact_cb_def coord_is_empty_def pending_staging_def)
qed (use assms in \<open>simp add: xact_cb_def coord_is_empty_def\<close>)

end

end
