(* ===== verification/Modify_Plan.thy ===== *)
theory Modify_Plan
  imports Kernel Rowid Auth "HOL-Library.AList"
begin

text \<open>
  \<^verbatim>\<open>src/fdw/modify/update.rs\<close>, first part: the chunk table of an UPDATE or DELETE statement, the way
  from a ctid back to its blob and row, and the edits accumulated row by row.  The properties: a
  ctid leads back to its blob and row; every recorded edit lands in the edits of that blob at that
  row; the number of edits stays within the statement's budget.
\<close>

section \<open>The chunk table\<close>

record blob_id_entry =
  be_name :: string
  chunk_base_row :: nat
  be_etag :: string

record modify_plan =
  blob_table :: "blob_id_entry list"
  edits :: "(nat \<times> blob_edits) list"
  plan_schema :: schema
  pg_oids :: "nat list"
  update_attnums :: "nat list"
  plan_compression :: compression
  is_delete :: bool
  ctid_attno :: int
  edit_count :: nat

definition MAX_EDITS_PER_STATEMENT :: nat where
  "MAX_EDITS_PER_STATEMENT = 10000000"

abbreviation chunk_rows :: nat where "chunk_rows \<equiv> 65536"

text \<open>\<open>num_rows\<close> is the signed row count of the footer.\<close>

definition blob_row_count :: "int \<Rightarrow> nat" where
  "blob_row_count n = nat (max n 0)"

definition div_ceil :: "nat \<Rightarrow> nat \<Rightarrow> nat" where
  "div_ceil a b = (if a mod b = 0 then a div b else a div b + 1)"

definition blob_chunks :: "string \<Rightarrow> string \<Rightarrow> nat \<Rightarrow> blob_id_entry list" where
  "blob_chunks name etag nrows =
    map (\<lambda>chunk. \<lparr> be_name = name, chunk_base_row = chunk * chunk_rows, be_etag = etag \<rparr>)
      [0 ..< max (div_ceil nrows chunk_rows) 1]"

text \<open>The loop over the scan-time list; \<open>footer_rows\<close> opens a blob and reads its row count.\<close>

fun build_blob_table ::
  "(string \<Rightarrow> int fdw_result) \<Rightarrow> (string \<times> string) list \<Rightarrow> blob_id_entry list fdw_result" where
  "build_blob_table footer_rows [] = Ok []"
| "build_blob_table footer_rows ((name, etag) # blobs) =
    and_then (footer_rows name) (\<lambda>n.
    let nrows = blob_row_count n in
    if nrows > u32_MAX then Err (SchemaMismatch (''blob '' @ name @ '' has '' @ show_nat nrows
      @ '' rows; UPDATE/DELETE in v1 supports up to '' @ show_nat u32_MAX @ '' rows per blob''))
    else and_then (build_blob_table footer_rows blobs) (\<lambda>rest. Ok (blob_chunks name etag nrows @ rest)))"

text \<open>The walk back from a chunk to the first chunk of its blob.\<close>

fun walk_back :: "blob_id_entry list \<Rightarrow> string \<Rightarrow> nat \<Rightarrow> nat fdw_result" where
  "walk_back tab name 0 = Ok 0"
| "walk_back tab name (Suc b) =
    (if b < length tab then
       (if be_name (tab ! b) \<noteq> name then Ok (Suc b) else walk_back tab name b)
     else Err (SchemaMismatch ''blob_table prev index underflow''))"

definition resolve_to_source :: "modify_plan \<Rightarrow> row_id \<Rightarrow> (nat \<times> nat) fdw_result" where
  "resolve_to_source plan rid =
    (let idx = unat (blob_id rid) in
     if idx < length (blob_table plan) then
       (let entry = blob_table plan ! idx in
        and_then (walk_back (blob_table plan) (be_name entry) idx) (\<lambda>base.
        Ok (base, chunk_base_row entry + unat (offset rid))))
     else Err (SchemaMismatch (''ctid blob_id '' @ show_nat idx @ '' out of range (blob_table len ''
       @ show_nat (length (blob_table plan)) @ '')'')))"

section \<open>Recording edits\<close>

definition check_edit_budget :: "modify_plan \<Rightarrow> unit fdw_result" where
  "check_edit_budget plan =
    (if edit_count plan \<ge> MAX_EDITS_PER_STATEMENT then Err (SchemaMismatch
       (''UPDATE/DELETE accumulator reached MAX_EDITS_PER_STATEMENT='' @ show_nat MAX_EDITS_PER_STATEMENT
        @ ''; split the statement (the kernel materialises one `RowOverride` per ''
        @ ''row before commit, so an uncapped multi-million-row UPDATE OOMs the ''
        @ ''backend before commit_plan runs)''))
     else Ok ())"

definition edits_of :: "modify_plan \<Rightarrow> nat \<Rightarrow> blob_edits" where
  "edits_of plan base = (case map_of (edits plan) base of Some e \<Rightarrow> e | None \<Rightarrow> empty_edits)"

definition usize_MAX :: nat where "usize_MAX = 2 ^ 64 - 1"

definition record_delete :: "row_id \<Rightarrow> modify_plan \<Rightarrow> modify_plan fdw_result" where
  "record_delete rid plan =
    and_then (check_edit_budget plan) (\<lambda>_.
    and_then (resolve_to_source plan rid) (\<lambda>(base, abs_row).
    let entry = edits_of plan base;
        entry' = entry \<lparr> deletes := insert (abs_row mod 2 ^ 32) (deletes entry) \<rparr>
    in Ok (plan \<lparr> edits := AList.update base entry' (edits plan),
                  edit_count := min (edit_count plan + 1) usize_MAX \<rparr>)))"

definition record_update :: "row_id \<Rightarrow> row_override \<Rightarrow> modify_plan \<Rightarrow> modify_plan fdw_result" where
  "record_update rid ovr plan =
    and_then (check_edit_budget plan) (\<lambda>_.
    and_then (resolve_to_source plan rid) (\<lambda>(base, abs_row).
    let entry = edits_of plan base;
        entry' = entry \<lparr> updates := AList.update abs_row ovr (updates entry) \<rparr>
    in Ok (plan \<lparr> edits := AList.update base entry' (edits plan),
                  edit_count := min (edit_count plan + 1) usize_MAX \<rparr>)))"

section \<open>The table as a concatenation of chunks\<close>

definition footer_count :: "(string \<Rightarrow> int fdw_result) \<Rightarrow> string \<Rightarrow> nat" where
  "footer_count footer_rows name = blob_row_count (projr (footer_rows name))"

lemma build_blob_table_Ok:
  "build_blob_table footer_rows blobs = Ok tab \<Longrightarrow>
    tab = concat (map (\<lambda>(name, etag). blob_chunks name etag (footer_count footer_rows name)) blobs)
    \<and> (\<forall>(name, etag) \<in> set blobs. footer_count footer_rows name \<le> u32_MAX)"
proof (induction blobs arbitrary: tab)
  case (Cons x blobs)
  obtain name etag where x: "x = (name, etag)" by (cases x)
  obtain n rest where n: "footer_rows name = Ok n" "\<not> blob_row_count n > u32_MAX"
    and rest: "build_blob_table footer_rows blobs = Ok rest" "tab = blob_chunks name etag (blob_row_count n) @ rest"
    using Cons.prems by (auto simp: x result_simps Let_def split: if_splits)
  then show ?case using Cons.IH[OF rest(1)] by (simp add: x footer_count_def)
qed simp

lemma length_blob_chunks: "length (blob_chunks name etag n) = max (div_ceil n chunk_rows) 1"
  by (simp add: blob_chunks_def)

lemma nth_blob_chunks:
  "i < length (blob_chunks name etag n) \<Longrightarrow>
    blob_chunks name etag n ! i = \<lparr> be_name = name, chunk_base_row = i * chunk_rows, be_etag = etag \<rparr>"
  by (simp add: blob_chunks_def)

lemma chunk_in_range: "r < n \<Longrightarrow> r div chunk_rows < length (blob_chunks name etag n)"
proof -
  assume "r < n"
  then have "r div chunk_rows \<le> (n - 1) div chunk_rows" by (intro div_le_mono) simp
  moreover have "(n - 1) div chunk_rows < div_ceil n chunk_rows"
  proof (cases "n mod chunk_rows = 0")
    case True
    then obtain q where "n = chunk_rows * q" by auto
    moreover have "0 < q" using \<open>r < n\<close> calculation by (cases q) auto
    ultimately show ?thesis by (simp add: div_ceil_def div_less_iff_less_mult)
  next
    case False
    then show ?thesis using div_le_mono[of "n - 1" n chunk_rows] by (simp add: div_ceil_def)
  qed
  ultimately show ?thesis by (simp add: length_blob_chunks)
qed

lemma walk_back_base:
  assumes "base \<le> idx" "idx \<le> length tab" "\<forall>j. base \<le> j \<and> j < idx \<longrightarrow> be_name (tab ! j) = name"
    "0 < base \<longrightarrow> be_name (tab ! (base - 1)) \<noteq> name"
  shows "walk_back tab name idx = Ok base"
  using assms
proof (induction idx)
  case (Suc idx)
  show ?case
  proof (cases "base = Suc idx")
    case True
    then show ?thesis using Suc.prems by auto
  next
    case False
    then show ?thesis using Suc by auto
  qed
qed simp

lemma unat_of_nat_small: "n < 2 ^ LENGTH('a) \<Longrightarrow> unat (of_nat n :: 'a::len word) = n"
  by (simp add: unsigned_of_nat take_bit_nat_eq_self)

lemma from_absolute_fields:
  assumes "unat base + unat a div chunk_rows < 2 ^ 32"
  shows "unat (blob_id (from_absolute base a)) = unat base + unat a div chunk_rows"
    and "unat (offset (from_absolute base a)) = unat a mod chunk_rows"
proof -
  have c: "unat (ucast (a div CHUNK_ROWS) :: 32 word) = unat a div chunk_rows"
    using assms by (simp add: unat_ucast_mod unat_div_chunk)
  have "unat (base + ucast (a div CHUNK_ROWS) :: 32 word) = unat base + unat a div chunk_rows"
    using assms c by (simp add: unat_word_ariths)
  then show "unat (blob_id (from_absolute base a)) = unat base + unat a div chunk_rows"
    using assms c by (simp add: from_absolute_def Let_def saturating_add32_def)
  show "unat (offset (from_absolute base a)) = unat a mod chunk_rows"
    by (simp add: from_absolute_def Let_def unat_ucast_mod unat_mod_chunk)
qed

text \<open>The chunk ids of the blob at position \<open>i\<close> start after those of the blobs before it.\<close>

definition base_id :: "(string \<Rightarrow> int fdw_result) \<Rightarrow> (string \<times> string) list \<Rightarrow> nat \<Rightarrow> nat" where
  "base_id footer_rows blobs i =
    length (concat (map (\<lambda>(name, etag). blob_chunks name etag (footer_count footer_rows name)) (take i blobs)))"

lemma table_split:
  assumes "build_blob_table footer_rows blobs = Ok tab" "i < length blobs" "blobs ! i = (name, etag)"
  obtains pre post where "tab = pre @ blob_chunks name etag (footer_count footer_rows name) @ post"
    "length pre = base_id footer_rows blobs i" "\<forall>e \<in> set pre. be_name e \<in> fst ` set (take i blobs)"
proof -
  let ?f = "\<lambda>(name, etag). blob_chunks name etag (footer_count footer_rows name)"
  have "blobs = take i blobs @ (name, etag) # drop (Suc i) blobs"
    using assms(2,3) id_take_nth_drop[of i blobs] by simp
  from arg_cong[OF this, of "\<lambda>bs. concat (map ?f bs)"]
  have "concat (map ?f blobs) = concat (map ?f (take i blobs)) @ ?f (name, etag) @ concat (map ?f (drop (Suc i) blobs))"
    by (simp only: map_append concat_append list.map concat.simps)
  moreover have "\<forall>e \<in> set (concat (map ?f (take i blobs))). be_name e \<in> fst ` set (take i blobs)"
  proof
    fix e
    assume "e \<in> set (concat (map ?f (take i blobs)))"
    then obtain x where x: "x \<in> set (take i blobs)" "e \<in> set (?f x)" by auto
    then have "be_name e = fst x" by (cases x) (auto simp: blob_chunks_def)
    then show "be_name e \<in> fst ` set (take i blobs)" using x(1) by simp
  qed
  ultimately show ?thesis
    using that[of "concat (map ?f (take i blobs))"] build_blob_table_Ok[OF assms(1)] by (simp add: base_id_def)
qed

lemma resolve_row:
  assumes "build_blob_table footer_rows blobs = Ok tab" "distinct (map fst blobs)"
    "i < length blobs" "blobs ! i = (name, etag)" "r < footer_count footer_rows name"
    "blob_table plan = tab" "length tab < 2 ^ 32"
  shows "resolve_to_source plan (from_absolute (of_nat (base_id footer_rows blobs i)) (of_nat r))
      = Ok (base_id footer_rows blobs i, r)"
    and "base_id footer_rows blobs i < length tab"
    and "be_name (tab ! base_id footer_rows blobs i) = name \<and> be_etag (tab ! base_id footer_rows blobs i) = etag"
proof -
  let ?n = "footer_count footer_rows name" and ?base = "base_id footer_rows blobs i"
  let ?rid = "from_absolute (of_nat ?base) (of_nat r)"
  obtain pre post where tab: "tab = pre @ blob_chunks name etag ?n @ post" "length pre = ?base"
    "\<forall>e \<in> set pre. be_name e \<in> fst ` set (take i blobs)"
    using table_split[OF assms(1,3,4)] by blast
  have c: "r div chunk_rows < length (blob_chunks name etag ?n)" using chunk_in_range[OF assms(5)] .
  have small: "?base + r div chunk_rows < length tab" using tab c by simp
  have "?n \<le> u32_MAX"
    using build_blob_table_Ok[OF assms(1)] nth_mem[OF assms(3)] assms(4) by auto
  then have r: "unat (of_nat r :: 64 word) = r"
    using assms(5) by (intro unat_of_nat_small) (simp add: u32_MAX_def)
  have b: "unat (of_nat ?base :: 32 word) = ?base"
    using small assms(7) by (intro unat_of_nat_small) simp
  have idx: "unat (blob_id ?rid) = ?base + r div chunk_rows" "unat (offset ?rid) = r mod chunk_rows"
    using from_absolute_fields[of "of_nat ?base" "of_nat r"] r b small assms(7) by simp_all
  have chunk: "tab ! (?base + j) = \<lparr> be_name = name, chunk_base_row = j * chunk_rows, be_etag = etag \<rparr>"
    if "j < length (blob_chunks name etag ?n)" for j
    using that tab by (simp add: nth_append nth_blob_chunks)
  have fresh: "name \<notin> fst ` set (take i blobs)"
  proof
    assume "name \<in> fst ` set (take i blobs)"
    then obtain j where j: "j < i" "fst (blobs ! j) = name" using assms(3) by (auto simp: in_set_conv_nth)
    then show False using nth_eq_iff_index_eq[OF assms(2), of j i] assms(3,4) by simp
  qed
  have first: "0 < ?base \<longrightarrow> be_name (tab ! (?base - 1)) \<noteq> name"
  proof
    assume "0 < ?base"
    then have "tab ! (?base - 1) \<in> set pre" using tab(1,2) by (simp add: nth_append)
    then show "be_name (tab ! (?base - 1)) \<noteq> name" using tab(3) fresh by metis
  qed
  have "be_name (tab ! j) = name" if "?base \<le> j" "j < ?base + r div chunk_rows" for j
    using chunk[of "j - ?base"] that c by auto
  then have "walk_back tab name (?base + r div chunk_rows) = Ok ?base"
    using walk_back_base[of ?base "?base + r div chunk_rows" tab name] first small by auto
  moreover have "r div chunk_rows * chunk_rows + r mod chunk_rows = r" by simp
  ultimately show "resolve_to_source plan ?rid = Ok (?base, r)"
    using small idx chunk[OF c] assms(6) by (simp add: resolve_to_source_def Let_def)
  have "0 < length (blob_chunks name etag ?n)" by (simp add: length_blob_chunks)
  then show "be_name (tab ! ?base) = name \<and> be_etag (tab ! ?base) = etag" using chunk[of 0] by simp
  show "?base < length tab" using small by simp
qed

section \<open>What a sequence of edits records\<close>

datatype edit_op = Del row_id | Upd row_id row_override

fun record_op :: "edit_op \<Rightarrow> modify_plan \<Rightarrow> modify_plan fdw_result" where
  "record_op (Del rid) plan = record_delete rid plan"
| "record_op (Upd rid ovr) plan = record_update rid ovr plan"

text \<open>The deletes and updates that reach a blob, as the operations were issued.\<close>

definition op_deletes :: "modify_plan \<Rightarrow> nat \<Rightarrow> edit_op list \<Rightarrow> nat set" where
  "op_deletes plan base ops = {r mod 2 ^ 32 | rid r. Del rid \<in> set ops \<and> resolve_to_source plan rid = Ok (base, r)}"

fun op_updates :: "modify_plan \<Rightarrow> nat \<Rightarrow> edit_op list \<Rightarrow> nat \<Rightarrow> row_override option" where
  "op_updates plan base [] r = None"
| "op_updates plan base (Upd rid ovr # ops) r =
    (case op_updates plan base ops r of
       Some o' \<Rightarrow> Some o'
     | None \<Rightarrow> if resolve_to_source plan rid = Ok (base, r) then Some ovr else None)"
| "op_updates plan base (Del rid # ops) r = op_updates plan base ops r"

lemma resolve_cong: "blob_table p = blob_table q \<Longrightarrow> resolve_to_source p rid = resolve_to_source q rid"
  unfolding resolve_to_source_def by (simp only:)

lemma op_updates_snoc:
  "op_updates plan base (ops @ [op]) r =
    (case op of Del _ \<Rightarrow> op_updates plan base ops r
     | Upd rid ovr \<Rightarrow> if resolve_to_source plan rid = Ok (base, r) then Some ovr else op_updates plan base ops r)"
  by (induction plan base ops r rule: op_updates.induct) (auto split: edit_op.splits option.splits)

lemma op_deletes_snoc:
  "op_deletes plan base (ops @ [Del rid]) =
    (case resolve_to_source plan rid of
       Inr (b, r) \<Rightarrow> if b = base then insert (r mod 2 ^ 32) (op_deletes plan base ops) else op_deletes plan base ops
     | Inl _ \<Rightarrow> op_deletes plan base ops)"
  by (auto simp: op_deletes_def split: sum.splits)

lemma op_deletes_snoc_Upd [simp]: "op_deletes plan base (ops @ [Upd rid ovr]) = op_deletes plan base ops"
  by (auto simp: op_deletes_def)

text \<open>One recorded operation, in one form for both kinds.\<close>

lemma record_op_Ok:
  assumes "record_op op plan = Ok plan'"
  obtains rid base r entry where "edit_count plan < MAX_EDITS_PER_STATEMENT"
    "op = Del rid \<or> (\<exists>ovr. op = Upd rid ovr)" "resolve_to_source plan rid = Ok (base, r)"
    "plan' = plan \<lparr> edits := AList.update base entry (edits plan), edit_count := edit_count plan + 1 \<rparr>"
    "entry = (case op of
        Del _ \<Rightarrow> (edits_of plan base) \<lparr> deletes := insert (r mod 2 ^ 32) (deletes (edits_of plan base)) \<rparr>
      | Upd _ ovr \<Rightarrow> (edits_of plan base) \<lparr> updates := AList.update r ovr (updates (edits_of plan base)) \<rparr>)"
proof -
  have b: "check_edit_budget plan = Ok ()"
    using assms by (cases op) (auto simp: record_delete_def record_update_def result_simps)
  then have m: "edit_count plan < MAX_EDITS_PER_STATEMENT" by (auto simp: check_edit_budget_def split: if_splits)
  then have "min (edit_count plan + 1) usize_MAX = edit_count plan + 1"
    by (simp add: MAX_EDITS_PER_STATEMENT_def usize_MAX_def)
  then show ?thesis using assms b m that
    by (cases op) (auto simp: record_delete_def record_update_def result_simps Let_def)
qed

lemma edits_of_update:
  "edits_of (plan \<lparr> edits := AList.update base entry (edits plan), edit_count := c \<rparr>) b
    = (if b = base then entry else edits_of plan b)"
  by (simp add: edits_of_def update_conv')

definition recorded :: "modify_plan \<Rightarrow> edit_op list \<Rightarrow> modify_plan \<Rightarrow> bool" where
  "recorded plan0 ops plan \<longleftrightarrow> blob_table plan = blob_table plan0 \<and> edit_count plan = length ops
    \<and> edit_count plan \<le> MAX_EDITS_PER_STATEMENT \<and> distinct (map fst (edits plan))
    \<and> (\<forall>base. deletes (edits_of plan base) = op_deletes plan0 base ops)
    \<and> (\<forall>base r. map_of (updates (edits_of plan base)) r = op_updates plan0 base ops r)"

lemma recorded_step:
  assumes "recorded plan0 ops plan" "record_op op plan = Ok plan'"
  shows "recorded plan0 (ops @ [op]) plan'"
  using assms(2)
proof (cases rule: record_op_Ok)
  case (1 rid base r entry)
  have res: "resolve_to_source plan0 rid = Ok (base, r)"
    using 1(3) resolve_cong[of plan plan0 rid] assms(1) by (simp add: recorded_def)
  have rec: "blob_table plan = blob_table plan0" "edit_count plan = length ops" "distinct (map fst (edits plan))"
    "\<And>b. deletes (edits_of plan b) = op_deletes plan0 b ops"
    "\<And>b k. map_of (updates (edits_of plan b)) k = op_updates plan0 b ops k"
    using assms(1) unfolding recorded_def by blast+
  have ed: "edits_of plan' b = (if b = base then entry else edits_of plan b)" for b
    unfolding 1(4) by (rule edits_of_update)
  have "deletes (edits_of plan' b) = op_deletes plan0 b (ops @ [op])" for b
    using 1(2,5) res rec(4) by (auto simp: ed op_deletes_snoc)
  moreover have "map_of (updates (edits_of plan' b)) k = op_updates plan0 b (ops @ [op]) k" for b k
    using 1(2,5) res rec(5) by (auto simp: ed op_updates_snoc update_conv')
  moreover have "blob_table plan' = blob_table plan0" "edit_count plan' = length (ops @ [op])"
    "edit_count plan' \<le> MAX_EDITS_PER_STATEMENT" "distinct (map fst (edits plan'))"
    using 1(1,4) rec(1-3) by (simp_all add: distinct_update)
  ultimately show ?thesis unfolding recorded_def by blast
qed

lemma recorded_run:
  assumes "try_fold record_op ops plan0 = Ok plan" "edits plan0 = []" "edit_count plan0 = 0"
  shows "recorded plan0 ops plan"
  using assms(1)
proof (induction ops arbitrary: plan rule: rev_induct)
  case Nil
  then show ?case using assms(2,3)
    by (simp add: recorded_def op_deletes_def edits_of_def empty_edits_def)
next
  case (snoc op ops)
  then obtain mid where "try_fold record_op ops plan0 = Ok mid" "record_op op mid = Ok plan"
    by (auto simp: try_fold_append result_simps)
  then show ?case using snoc.IH recorded_step by blast
qed

section \<open>Properties\<close>

text \<open>C9: a ctid stamped during the scan leads the modify path back to its row.  With the chunk table
  built from the scan-time blob list, the ctid of row \<open>r\<close> of the \<open>i\<close>-th blob resolves to that blob's
  base entry, which carries its name and scan-time ETag, and to row \<open>r\<close>.\<close>

theorem ctid_resolves_to_source:
  assumes "build_blob_table footer_rows blobs = Ok tab" "distinct (map fst blobs)"
    "i < length blobs" "r < footer_count footer_rows (fst (blobs ! i))"
    "blob_table plan = tab" "length tab < 2 ^ 32"
  shows "\<exists>base. resolve_to_source plan
        (from_ctid (to_ctid (from_absolute (of_nat (base_id footer_rows blobs i)) (of_nat r)))) = Ok (base, r)
      \<and> base < length tab \<and> be_name (tab ! base) = fst (blobs ! i) \<and> be_etag (tab ! base) = snd (blobs ! i)"
proof -
  obtain name etag where n: "blobs ! i = (name, etag)" by (cases "blobs ! i")
  then have "r < footer_count footer_rows name" using assms(4) by simp
  from resolve_row[OF assms(1-3) n this assms(5,6)] show ?thesis using n by auto
qed

definition two_blobs :: "(string \<times> string) list" where
  "two_blobs = [(''a'', ''e1''), (''b'', ''e2'')]"

definition two_counts :: "string \<Rightarrow> int fdw_result" where
  "two_counts name = Ok (if name = ''a'' then 70000 else 3)"

definition two_plan :: modify_plan where
  "two_plan = \<lparr> blob_table = projr (build_blob_table two_counts two_blobs), edits = [], plan_schema = [], pg_oids = [],
    update_attnums = [], plan_compression = Snappy, is_delete = True, ctid_attno = 1, edit_count = 0 \<rparr>"

lemma two_table:
  "build_blob_table two_counts two_blobs = Ok
    [\<lparr> be_name = ''a'', chunk_base_row = 0, be_etag = ''e1'' \<rparr>, \<lparr> be_name = ''a'', chunk_base_row = 65536, be_etag = ''e1'' \<rparr>,
     \<lparr> be_name = ''b'', chunk_base_row = 0, be_etag = ''e2'' \<rparr>]"
  by (simp add: two_blobs_def two_counts_def blob_row_count_def u32_MAX_def blob_chunks_def div_ceil_def upt_rec)

lemma two_plan_table:
  "blob_table two_plan =
    [\<lparr> be_name = ''a'', chunk_base_row = 0, be_etag = ''e1'' \<rparr>, \<lparr> be_name = ''a'', chunk_base_row = 65536, be_etag = ''e1'' \<rparr>,
     \<lparr> be_name = ''b'', chunk_base_row = 0, be_etag = ''e2'' \<rparr>]"
  unfolding two_plan_def two_table by simp

theorem ctid_resolves_to_source_witness:
  "\<exists>base. resolve_to_source two_plan
      (from_ctid (to_ctid (from_absolute (of_nat (base_id two_counts two_blobs 1)) (of_nat 2)))) = Ok (base, 2)
    \<and> be_name (blob_table two_plan ! base) = ''b'' \<and> be_etag (blob_table two_plan ! base) = ''e2''"
proof -
  have "distinct (map fst two_blobs)" "1 < length two_blobs" "2 < footer_count two_counts (fst (two_blobs ! 1))"
    "fst (two_blobs ! 1) = ''b''" "snd (two_blobs ! 1) = ''e2''"
    by (simp_all add: two_blobs_def two_counts_def footer_count_def blob_row_count_def)
  then show ?thesis using ctid_resolves_to_source[OF two_table, of 1 2 two_plan] two_plan_table by auto
qed

text \<open>C11: the accumulated edits are exactly the operations of the statement.  After any sequence of
  recorded deletes and updates, a blob's delete set holds the rows of the deletes that resolve to it,
  its update map gives for each row the last override issued for it, and the number of operations is
  the edit count, which never exceeds the statement's budget.\<close>

theorem edits_recorded:
  assumes "try_fold record_op ops plan0 = Ok plan" "edits plan0 = []" "edit_count plan0 = 0"
  shows "length ops \<le> MAX_EDITS_PER_STATEMENT \<and> edit_count plan = length ops
    \<and> (\<forall>base. deletes (edits_of plan base) = op_deletes plan0 base ops)
    \<and> (\<forall>base r. map_of (updates (edits_of plan base)) r = op_updates plan0 base ops r)"
  using recorded_run[OF assms] by (simp add: recorded_def)

theorem edits_recorded_witness:
  "\<exists>plan. try_fold record_op [Del \<lparr> blob_id = 2, offset = 1 \<rparr>, Upd \<lparr> blob_id = 1, offset = 4 \<rparr> [None]] two_plan = Ok plan
    \<and> deletes (edits_of plan 2) = op_deletes two_plan 2 [Del \<lparr> blob_id = 2, offset = 1 \<rparr>, Upd \<lparr> blob_id = 1, offset = 4 \<rparr> [None]]
    \<and> map_of (updates (edits_of plan 0)) 65540 = Some [None]"
proof -
  let ?ops = "[Del \<lparr> blob_id = 2, offset = 1 \<rparr>, Upd \<lparr> blob_id = 1, offset = 4 \<rparr> [None]]"
  have w: "walk_back (blob_table two_plan) ''b'' 2 = Ok 2" "walk_back (blob_table two_plan) ''a'' 1 = Ok 0"
    by (simp_all add: two_plan_table numeral_2_eq_2)
  have tab: "length (blob_table two_plan) = 3" "blob_table two_plan ! 2 = \<lparr> be_name = ''b'', chunk_base_row = 0, be_etag = ''e2'' \<rparr>"
    "blob_table two_plan ! Suc 0 = \<lparr> be_name = ''a'', chunk_base_row = 65536, be_etag = ''e1'' \<rparr>"
    by (simp_all add: two_plan_table)
  have "resolve_to_source two_plan \<lparr> blob_id = 2, offset = 1 \<rparr> = Ok (2, 1)"
    using w(1) tab by (simp add: resolve_to_source_def)
  moreover have r1: "blob_table p = blob_table two_plan \<Longrightarrow> resolve_to_source p \<lparr> blob_id = 1, offset = 4 \<rparr> = Ok (0, 65540)" for p
    using w(2) tab by (simp add: resolve_to_source_def del: walk_back.simps)
  moreover have "edit_count two_plan = 0" "edits two_plan = []" by (simp_all add: two_plan_def)
  ultimately obtain plan where "try_fold record_op ?ops two_plan = Ok plan"
    by (simp add: record_delete_def record_update_def check_edit_budget_def MAX_EDITS_PER_STATEMENT_def Let_def)
  moreover have "op_updates two_plan 0 ?ops 65540 = Some [None]" using r1 by simp
  ultimately show ?thesis using edits_recorded[of ?ops two_plan plan] by (auto simp: two_plan_def)
qed

end
