(* ===== verification/Commit.thy ===== *)
theory Commit
  imports Rewrite Fake_Store Coordinator Modify_Plan
begin

text \<open>
  \<^verbatim>\<open>src/fdw/modify/update.rs\<close>, second part: \<open>commit_plan\<close> rewrites every edited blob in two phases,
  stage all, then swap all.  The store is the parameter of \<open>Azure_Client\<close>, the fresh identifiers
  are a sequence \<open>uuid\<close> with a counter in the state.

  The properties: each swap replaces a blob that still has the content it had when it was scanned
  by the rewrite of that content, whatever other clients do in between; and without interference
  the statement succeeds and changes exactly the edited blobs, or fails while staging and is undone
  by the abort sweep of \<open>Coordinator\<close>.
\<close>

section \<open>Stage all, then swap all\<close>

record staged =
  original_name :: string
  scan_etag :: string
  staging_name :: string
  new_bytes_for_swap :: bytes
  empty_delete :: bool

record 's backend =
  store :: 's
  slot :: "coord option"
  next_uuid :: nat

text \<open>A call on the store inside the backend state.\<close>

definition on_store :: "('s \<Rightarrow> 'a \<times> 's) \<Rightarrow> 's backend \<Rightarrow> 'a \<times> 's backend" where
  "on_store f be = (case f (store be) of (r, s) \<Rightarrow> (r, be \<lparr> store := s \<rparr>))"

text \<open>What follows the download: rewrite, then upload under a staging name that was registered
  before.\<close>

definition stage_body ::
  "'s blob_service \<Rightarrow> 'w parquet_lib \<Rightarrow> arrow_ops \<Rightarrow> (nat \<Rightarrow> string) \<Rightarrow> modify_plan \<Rightarrow> nat \<Rightarrow> bytes \<Rightarrow> 's backend
    \<Rightarrow> staged fdw_result \<times> 's backend" where
  "stage_body svc L A uuid plan bid body be =
    (let entry = blob_table plan ! bid; name = be_name entry; etag = be_etag entry in
     (case rewrite_blob L A (plan_schema plan) (plan_compression plan) name (edits_of plan bid) body of
        Inl e \<Rightarrow> (Err e, be)
      | Inr None \<Rightarrow>
          (Ok \<lparr> original_name = name, scan_etag = etag, staging_name = [], new_bytes_for_swap = [],
                empty_delete = True \<rparr>, be)
      | Inr (Some new_bytes) \<Rightarrow>
          (let staging = make_staging_name (uuid (next_uuid be)) name;
               be1 = be \<lparr> next_uuid := next_uuid be + 1,
                          slot := with_active (register_staging staging) (slot be) \<rparr> in
           st_then (on_store (put_if_none_match svc staging new_bytes) be1) (\<lambda>_ be2.
           (Ok \<lparr> original_name = name, scan_etag = etag, staging_name = staging,
                 new_bytes_for_swap = new_bytes, empty_delete = False \<rparr>, be2)))))"

definition stage_blob ::
  "'s blob_service \<Rightarrow> 'w parquet_lib \<Rightarrow> arrow_ops \<Rightarrow> (nat \<Rightarrow> string) \<Rightarrow> modify_plan \<Rightarrow> nat \<Rightarrow> 's backend
    \<Rightarrow> staged fdw_result \<times> 's backend" where
  "stage_blob svc L A uuid plan bid be =
    (if bid < length (blob_table plan) then
      (let entry = blob_table plan ! bid in
       st_then (on_store (get_body_if_match svc (be_name entry) (be_etag entry)) be)
         (stage_body svc L A uuid plan bid))
     else (Err (SchemaMismatch (''edits reference blob_id '' @ show_nat bid
       @ '' outside blob_table (len '' @ show_nat (length (blob_table plan)) @ '')'')), be))"

fun stage_all ::
  "'s blob_service \<Rightarrow> 'w parquet_lib \<Rightarrow> arrow_ops \<Rightarrow> (nat \<Rightarrow> string) \<Rightarrow> modify_plan \<Rightarrow> nat list \<Rightarrow> 's backend
    \<Rightarrow> staged list fdw_result \<times> 's backend" where
  "stage_all svc L A uuid plan [] be = (Ok [], be)"
| "stage_all svc L A uuid plan (k # ks) be =
    st_then (stage_blob svc L A uuid plan k be) (\<lambda>x be1.
    st_then (stage_all svc L A uuid plan ks be1) (\<lambda>xs be2. (Ok (x # xs), be2)))"

definition swap_one :: "'s blob_service \<Rightarrow> staged \<Rightarrow> 's backend \<Rightarrow> unit fdw_result \<times> 's backend" where
  "swap_one svc x be =
    (if empty_delete x then on_store (delete_if_match svc (original_name x) (scan_etag x)) be
     else
      st_then (on_store (put_if_match svc (original_name x) (new_bytes_for_swap x) (scan_etag x)) be) (\<lambda>_ be1.
      (case on_store (delete_unconditional svc (staging_name x)) be1 of
         (_, be2) \<Rightarrow> (Ok (), be2 \<lparr> slot := with_active (mark_committed (staging_name x)) (slot be2) \<rparr>))))"

fun swap_all :: "'s blob_service \<Rightarrow> staged list \<Rightarrow> 's backend \<Rightarrow> unit fdw_result \<times> 's backend" where
  "swap_all svc [] be = (Ok (), be)"
| "swap_all svc (x # xs) be = st_then (swap_one svc x be) (\<lambda>_ be1. swap_all svc xs be1)"

definition commit_plan ::
  "'s blob_service \<Rightarrow> 'w parquet_lib \<Rightarrow> arrow_ops \<Rightarrow> (nat \<Rightarrow> string) \<Rightarrow> modify_plan \<Rightarrow> 's backend
    \<Rightarrow> unit fdw_result \<times> 's backend" where
  "commit_plan svc L A uuid plan be =
    st_then (stage_all svc L A uuid plan (sort (map fst (edits plan))) be) (\<lambda>staged be1.
    swap_all svc staged be1)"

section \<open>The protocol the commit follows\<close>

text \<open>What the statement may do to the container: create and remove staging blobs, and replace (or,
  when no row is left, remove) an edited blob that has its scan-time ETag, by the rewrite of the very
  content it has at that moment.\<close>

inductive commit_effect :: "'w parquet_lib \<Rightarrow> arrow_ops \<Rightarrow> modify_plan \<Rightarrow> contents \<Rightarrow> contents \<Rightarrow> bool"
  for L A plan where
  stage: "is_staging_name n \<Longrightarrow> commit_effect L A plan c (c(n \<mapsto> v))"
| unstage: "is_staging_name n \<Longrightarrow> commit_effect L A plan c (c(n := None))"
| swap: "k \<in> fst ` set (edits plan) \<Longrightarrow> k < length (blob_table plan) \<Longrightarrow> n = be_name (blob_table plan ! k) \<Longrightarrow>
    c n = Some (b, be_etag (blob_table plan ! k)) \<Longrightarrow>
    rewrite_blob L A (plan_schema plan) (plan_compression plan) n (edits_of plan k) b = Ok (Some b') \<Longrightarrow>
    commit_effect L A plan c (c(n \<mapsto> (b', e)))"
| drop: "k \<in> fst ` set (edits plan) \<Longrightarrow> k < length (blob_table plan) \<Longrightarrow> n = be_name (blob_table plan ! k) \<Longrightarrow>
    c n = Some (b, be_etag (blob_table plan ! k)) \<Longrightarrow>
    rewrite_blob L A (plan_schema plan) (plan_compression plan) n (edits_of plan k) b = Ok None \<Longrightarrow>
    commit_effect L A plan c (c(n := None))"

text \<open>Runs in which such effects and the actions of other clients alternate.\<close>

inductive commit_run ::
  "('s \<Rightarrow> contents) \<Rightarrow> ('s \<Rightarrow> 's \<Rightarrow> bool) \<Rightarrow> ('s \<Rightarrow> 's \<Rightarrow> bool) \<Rightarrow> (contents \<Rightarrow> contents \<Rightarrow> bool) \<Rightarrow> 's \<Rightarrow> 's \<Rightarrow> bool"
  for view env later eff where
  run_refl: "commit_run view env later eff s s"
| run_env: "commit_run view env later eff s s1 \<Longrightarrow> env s1 s2 \<Longrightarrow> commit_run view env later eff s s2"
| run_effect: "commit_run view env later eff s s1 \<Longrightarrow> later s1 s2 \<Longrightarrow> eff (view s1) (view s2) \<or> view s2 = view s1 \<Longrightarrow>
    commit_run view env later eff s s2"

lemma commit_run_env: "env s s' \<Longrightarrow> commit_run view env later eff s s'"
  by (rule run_env[OF run_refl])

lemma commit_run_trans:
  "commit_run view env later eff b c \<Longrightarrow> commit_run view env later eff a b \<Longrightarrow> commit_run view env later eff a c"
  by (induction rule: commit_run.induct) (auto intro: commit_run.intros)

lemma on_store_eq: "on_store f be = (r, be') \<longleftrightarrow> (\<exists>s. f (store be) = (r, s) \<and> be' = be \<lparr> store := s \<rparr>)"
  by (auto simp: on_store_def split: prod.splits)

lemma st_then_cases:
  assumes "st_then m f = (r, s')"
  obtains e where "m = (Inl e, s')" "r = Inl e" | a s1 where "m = (Inr a, s1)" "f a s1 = (r, s')"
  using assms by (cases m; cases "fst m") auto

context blob_store
begin

lemma later_refl: "ok s \<Longrightarrow> later s s"
  using env_refl env_later by blast

lemma commit_run_later: "commit_run view env later eff s s' \<Longrightarrow> ok s \<Longrightarrow> later s s'"
  by (induction rule: commit_run.induct) (auto intro: later_refl env_later later_trans)

text \<open>An effect between two actions of others.\<close>

lemma commit_run_between:
  assumes "env s s1" "later s1 s2" "env s2 s'" "eff (view s1) (view s2) \<or> view s2 = view s1"
  shows "commit_run view env later eff s s'"
  using assms by (meson commit_run.intros)

text \<open>A staged item records the rewrite of a content the blob had after the scan.\<close>

definition staged_ok :: "'w parquet_lib \<Rightarrow> arrow_ops \<Rightarrow> modify_plan \<Rightarrow> 's \<Rightarrow> 's \<Rightarrow> nat \<Rightarrow> staged \<Rightarrow> bool" where
  "staged_ok L A plan s0 s k x \<longleftrightarrow> k < length (blob_table plan)
    \<and> original_name x = be_name (blob_table plan ! k) \<and> scan_etag x = be_etag (blob_table plan ! k)
    \<and> (empty_delete x \<or> is_staging_name (staging_name x))
    \<and> (\<exists>sg b e. later s0 sg \<and> later sg s \<and> view sg (original_name x) = Some (b, e)
        \<and> rewrite_blob L A (plan_schema plan) (plan_compression plan) (original_name x) (edits_of plan k) b
          = Ok (if empty_delete x then None else Some (new_bytes_for_swap x)))"

lemma staged_ok_later: "staged_ok L A plan s0 s k x \<Longrightarrow> later s s' \<Longrightarrow> staged_ok L A plan s0 s' k x"
  unfolding staged_ok_def using later_trans by blast

lemma stage_body_run:
  assumes k: "k < length (blob_table plan)" and g: "later s0 sg" "later sg (store be)"
    "view sg (be_name (blob_table plan ! k)) = Some (body, e)"
    and st: "stage_body svc L A uuid plan k body be = (r, be')"
  shows "commit_run view env later (commit_effect L A plan) (store be) (store be')
    \<and> (\<forall>x. r = Ok x \<longrightarrow> staged_ok L A plan s0 (store be') k x)"
proof -
  let ?name = "be_name (blob_table plan ! k)" and ?etag = "be_etag (blob_table plan ! k)"
  consider (err) e where "rewrite_blob L A (plan_schema plan) (plan_compression plan) ?name (edits_of plan k) body = Inl e"
    | (none) "rewrite_blob L A (plan_schema plan) (plan_compression plan) ?name (edits_of plan k) body = Inr None"
    | (some) nb where "rewrite_blob L A (plan_schema plan) (plan_compression plan) ?name (edits_of plan k) body = Inr (Some nb)"
    by (cases "rewrite_blob L A (plan_schema plan) (plan_compression plan) ?name (edits_of plan k) body") auto
  then show ?thesis
  proof cases
    case err
    then show ?thesis using st by (auto simp: stage_body_def Let_def intro: commit_run.intros)
  next
    case none
    have "staged_ok L A plan s0 (store be) k \<lparr> original_name = ?name, scan_etag = ?etag, staging_name = [],
        new_bytes_for_swap = [], empty_delete = True \<rparr>"
      unfolding staged_ok_def using k g none by auto
    then show ?thesis using st none by (auto simp: stage_body_def Let_def intro: commit_run.intros)
  next
    case (some nb)
    let ?st = "make_staging_name (uuid (next_uuid be)) ?name"
    obtain rp s2 where p: "put_if_none_match svc ?st nb (store be) = (rp, s2)" by fastforce
    have "ok (store be)" using later_ok[OF g(2)] by blast
    then obtain sa sb where ab: "env (store be) sa" "later sa sb" "env sb s2"
      "wrote ?st nb None (view sa) (view sb) \<or> (\<exists>e. rp = Inl e) \<and> view sb = view sa"
      using conditional_put_store p[unfolded put_if_none_match_def] by blast
    have "commit_effect L A plan (view sa) (view sb) \<or> view sb = view sa"
      using ab(4) commit_effect.stage[OF staging_name_is_staging] by (auto simp: wrote_def)
    then have run: "commit_run view env later (commit_effect L A plan) (store be) s2"
      by (rule commit_run_between[OF ab(1-3)])
    have l: "later (store be) s2" using ab env_later later_trans by blast
    have "staged_ok L A plan s0 s2 k \<lparr> original_name = ?name, scan_etag = ?etag, staging_name = ?st,
        new_bytes_for_swap = nb, empty_delete = False \<rparr>"
      unfolding staged_ok_def using k g(1,3) later_trans[OF g(2) l] some staging_name_is_staging by auto
    then show ?thesis using st some run p by (cases rp) (auto simp: stage_body_def Let_def on_store_def)
  qed
qed

lemma stage_blob_run:
  assumes "later s0 (store be)" "stage_blob svc L A uuid plan k be = (r, be')"
  shows "commit_run view env later (commit_effect L A plan) (store be) (store be')
    \<and> (\<forall>x. r = Ok x \<longrightarrow> staged_ok L A plan s0 (store be') k x)"
proof (cases "k < length (blob_table plan)")
  case False
  then show ?thesis using assms(2) by (auto simp: stage_blob_def intro: commit_run.intros)
next
  case True
  let ?name = "be_name (blob_table plan ! k)" and ?etag = "be_etag (blob_table plan ! k)"
  have ok0: "ok (store be)" using later_ok[OF assms(1)] by blast
  obtain rg s1 where s1: "get_body_if_match svc ?name ?etag (store be) = (rg, s1)" by fastforce
  note get = get_body_if_match_store[OF ok0 s1]
  have run1: "commit_run view env later (commit_effect L A plan) (store be) s1"
    using commit_run_env[of env] get by simp
  show ?thesis
  proof (cases rg)
    case (Inl e)
    then show ?thesis using assms(2) True s1 run1 by (auto simp: stage_blob_def Let_def on_store_def)
  next
    case (Inr body)
    obtain sg e where sg: "env (store be) sg" "env sg s1" "view sg ?name = Some (body, e)"
      using get Inr by blast
    have "stage_body svc L A uuid plan k body (be \<lparr> store := s1 \<rparr>) = (r, be')"
      using assms(2) True s1 Inr by (simp add: stage_blob_def Let_def on_store_def)
    from stage_body_run[OF True later_trans[OF assms(1) env_later[OF sg(1)]] _ sg(3) this]
    have "commit_run view env later (commit_effect L A plan) s1 (store be')"
      "\<forall>x. r = Ok x \<longrightarrow> staged_ok L A plan s0 (store be') k x"
      using env_later[OF sg(2)] by simp_all
    then show ?thesis using commit_run_trans[OF _ run1] by simp
  qed
qed

lemma stage_all_run:
  assumes "later s0 (store be)" "stage_all svc L A uuid plan ks be = (r, be')"
  shows "commit_run view env later (commit_effect L A plan) (store be) (store be')
    \<and> (\<forall>xs. r = Ok xs \<longrightarrow> list_all2 (staged_ok L A plan s0 (store be')) ks xs)"
  using assms
proof (induction ks arbitrary: be r)
  case Nil
  then show ?case by (auto intro: commit_run.intros)
next
  case (Cons k ks)
  obtain r1 be1 where b: "stage_blob svc L A uuid plan k be = (r1, be1)" by fastforce
  note run1 = stage_blob_run[OF Cons.prems(1) b]
  have ok0: "ok (store be)" using later_ok[OF Cons.prems(1)] by blast
  have l1: "later s0 (store be1)" using later_trans[OF Cons.prems(1) commit_run_later[OF conjunct1[OF run1] ok0]] .
  show ?case
  proof (cases r1)
    case (Inl e)
    then show ?thesis using Cons.prems(2) b run1 by auto
  next
    case (Inr x)
    obtain r2 be2 where c: "stage_all svc L A uuid plan ks be1 = (r2, be2)" by fastforce
    note run2 = Cons.IH[OF l1, of r2]
    have st: "be' = be2" "(\<exists>e. r = Inl e) \<or> (\<exists>xs. r2 = Ok xs \<and> r = Ok (x # xs))"
      using Cons.prems(2) b c Inr by (cases r2; auto)+
    then have run2: "commit_run view env later (commit_effect L A plan) (store be1) (store be')"
      "\<forall>xs. r2 = Ok xs \<longrightarrow> list_all2 (staged_ok L A plan s0 (store be')) ks xs"
      using Cons.IH[OF l1, of r2] c by auto
    have "later (store be1) (store be')"
      using commit_run_later[OF run2(1)] later_ok[OF l1] by blast
    then have "staged_ok L A plan s0 (store be') k x" using run1 Inr staged_ok_later by blast
    then show ?thesis using st commit_run_trans[OF run2(1) conjunct1[OF run1]] run2(2) by auto
  qed
qed

text \<open>The heart of the argument: when the conditional write succeeds, the blob has its scan-time ETag,
  so it has had its scan-time content ever since, in particular when it was downloaded.\<close>

lemma staged_current:
  assumes "staged_ok L A plan s0 s k x" "later s s1"
    "view s0 (original_name x) = Some (b0, scan_etag x)" "view s1 (original_name x) = Some (b1, scan_etag x)"
  shows "rewrite_blob L A (plan_schema plan) (plan_compression plan) (original_name x) (edits_of plan k) b1
    = Ok (if empty_delete x then None else Some (new_bytes_for_swap x))"
proof -
  obtain sg b e where sg: "later s0 sg" "later sg s" "view sg (original_name x) = Some (b, e)"
    "rewrite_blob L A (plan_schema plan) (plan_compression plan) (original_name x) (edits_of plan k) b
      = Ok (if empty_delete x then None else Some (new_bytes_for_swap x))"
    using assms(1) unfolding staged_ok_def by blast
  have g1: "later sg s1" using later_trans[OF sg(2) assms(2)] .
  have "later s1 s1" using later_refl later_ok[OF assms(2)] by blast
  then have "b1 = b0"
    using etag_stable[OF later_trans[OF sg(1) g1] _ assms(3,4)] assms(4) by simp
  moreover have "b = b0" using etag_stable[OF sg(1) g1 assms(3,4)] sg(3) by simp
  ultimately show ?thesis using sg(4) by simp
qed

lemma swap_one_run:
  assumes "staged_ok L A plan s0 (store be) k x" "k \<in> fst ` set (edits plan)" "ok (store be)"
    "view s0 (original_name x) = Some (b0, scan_etag x)" "swap_one svc x be = (r, be')"
  shows "commit_run view env later (commit_effect L A plan) (store be) (store be')"
proof (cases "empty_delete x")
  case True
  then obtain s' where d: "delete_if_match svc (original_name x) (scan_etag x) (store be) = (r, s')" "be' = be \<lparr> store := s' \<rparr>"
    using assms(5) by (auto simp: swap_one_def on_store_eq)
  obtain s1 s2 where s: "env (store be) s1" "later s1 s2" "env s2 s'"
    "removed (original_name x) (Some (scan_etag x)) (view s1) (view s2) \<or> (\<exists>e. r = Inl e) \<and> view s2 = view s1"
    using delete_if_match_store[OF assms(3) d(1)] by blast
  have "commit_effect L A plan (view s1) (view s2) \<or> view s2 = view s1"
  proof (cases "view s2 = view s1")
    case False
    then obtain b1 where b1: "view s1 (original_name x) = Some (b1, scan_etag x)" "view s2 = (view s1)(original_name x := None)"
      using s(4) by (auto simp: removed_def cond_holds_def)
    from staged_current[OF assms(1) env_later[OF s(1)] assms(4) b1(1)] True
    show ?thesis using b1 assms(1,2) unfolding staged_ok_def by (auto intro: commit_effect.drop)
  qed simp
  then show ?thesis using commit_run_between[OF s(1-3)] d(2) by simp
next
  case False
  obtain rp sp where p: "put_if_match svc (original_name x) (new_bytes_for_swap x) (scan_etag x) (store be) = (rp, sp)" by fastforce
  obtain s1 s2 where s: "env (store be) s1" "later s1 s2" "env s2 sp"
    "wrote (original_name x) (new_bytes_for_swap x) (Some (scan_etag x)) (view s1) (view s2) \<or> (\<exists>e. rp = Inl e) \<and> view s2 = view s1"
    using conditional_put_store[OF assms(3) p[unfolded put_if_match_def]] by blast
  have "commit_effect L A plan (view s1) (view s2) \<or> view s2 = view s1"
  proof (cases "view s2 = view s1")
    case f: False
    then obtain b1 e where b1: "view s1 (original_name x) = Some (b1, scan_etag x)"
      "view s2 = (view s1)(original_name x \<mapsto> (new_bytes_for_swap x, e))"
      using s(4) by (auto simp: wrote_def cond_holds_def)
    from staged_current[OF assms(1) env_later[OF s(1)] assms(4) b1(1)] False
    show ?thesis using b1 assms(1,2) unfolding staged_ok_def by (auto intro: commit_effect.swap)
  qed simp
  then have run1: "commit_run view env later (commit_effect L A plan) (store be) sp"
    by (rule commit_run_between[OF s(1-3)])
  show ?thesis
  proof (cases rp)
    case (Inl e)
    then show ?thesis using assms(5) False p run1 by (auto simp: swap_one_def on_store_def)
  next
    case (Inr e)
    obtain rd sd where d: "delete_unconditional svc (staging_name x) sp = (rd, sd)" by fastforce
    have "ok sp" using commit_run_later[OF run1 assms(3)] later_ok by blast
    then obtain t1 t2 where t: "env sp t1" "later t1 t2" "env t2 sd"
      "removed (staging_name x) None (view t1) (view t2) \<or> view t2 = view t1"
      using delete_unconditional_store[OF _ d] by blast
    have "is_staging_name (staging_name x)" using assms(1) False by (simp add: staged_ok_def)
    then have "commit_effect L A plan (view t1) (view t2) \<or> view t2 = view t1"
      using t(4) by (auto simp: removed_def intro: commit_effect.unstage)
    then have "commit_run view env later (commit_effect L A plan) sp sd"
      by (rule commit_run_between[OF t(1-3)])
    then have "commit_run view env later (commit_effect L A plan) (store be) sd"
      using run1 by (rule commit_run_trans)
    then show ?thesis using assms(5) False p Inr d by (auto simp: swap_one_def on_store_def)
  qed
qed

lemma swap_all_run:
  assumes "swap_all svc xs be = (r, be')" "list_all2 (staged_ok L A plan s0 (store be)) ks xs"
    "set ks \<subseteq> fst ` set (edits plan)" "ok (store be)"
    "\<forall>x \<in> set xs. \<exists>b0. view s0 (original_name x) = Some (b0, scan_etag x)"
  shows "commit_run view env later (commit_effect L A plan) (store be) (store be')"
  using assms
proof (induction xs arbitrary: ks be)
  case Nil
  then show ?case by (auto intro: commit_run.intros)
next
  case (Cons x xs)
  obtain k ks' where ks: "ks = k # ks'" "staged_ok L A plan s0 (store be) k x"
    "list_all2 (staged_ok L A plan s0 (store be)) ks' xs"
    using Cons.prems(2) by (auto simp: list_all2_Cons2)
  obtain r1 be1 where o: "swap_one svc x be = (r1, be1)" by fastforce
  have run1: "commit_run view env later (commit_effect L A plan) (store be) (store be1)"
    using swap_one_run[OF ks(2) _ Cons.prems(4) _ o] Cons.prems(3,5) ks(1) by auto
  have l: "later (store be) (store be1)" using commit_run_later[OF run1 Cons.prems(4)] .
  show ?case
  proof (cases r1)
    case (Inl e)
    then show ?thesis using Cons.prems(1) o run1 by simp
  next
    case (Inr u)
    have "list_all2 (staged_ok L A plan s0 (store be1)) ks' xs"
      using ks(3) staged_ok_later[OF _ l] by (rule list_all2_mono)
    then have "commit_run view env later (commit_effect L A plan) (store be1) (store be')"
      using Cons.IH[of be1 ks'] Cons.prems(1,3,5) ks(1) later_ok[OF l] o Inr by simp
    then show ?thesis using run1 by (rule commit_run_trans)
  qed
qed

end

section \<open>The undisturbed statement\<close>

text \<open>An edited blob is ready when it has its scan-time ETag and can be rewritten within the size
  limit; \<open>rewritten\<close> is what it becomes.\<close>

definition rewritten :: "'w parquet_lib \<Rightarrow> arrow_ops \<Rightarrow> modify_plan \<Rightarrow> contents \<Rightarrow> nat \<Rightarrow> bytes option fdw_result" where
  "rewritten L A plan c k =
    (case c (be_name (blob_table plan ! k)) of
       None \<Rightarrow> Err (Panic '''')
     | Some (b, _) \<Rightarrow> rewrite_blob L A (plan_schema plan) (plan_compression plan) (be_name (blob_table plan ! k)) (edits_of plan k) b)"

definition ready :: "'w parquet_lib \<Rightarrow> arrow_ops \<Rightarrow> modify_plan \<Rightarrow> contents \<Rightarrow> nat \<Rightarrow> bool" where
  "ready L A plan c k \<longleftrightarrow> k < length (blob_table plan) \<and> \<not> is_staging_name (be_name (blob_table plan ! k))
    \<and> (case c (be_name (blob_table plan ! k)) of
         None \<Rightarrow> False
       | Some (b, e) \<Rightarrow> e = be_etag (blob_table plan ! k) \<and> length b \<le> MAX_BLOB_BYTES)
    \<and> (case rewritten L A plan c k of
         Inl e \<Rightarrow> False
       | Inr None \<Rightarrow> True
       | Inr (Some nb) \<Rightarrow> length nb \<le> MAX_BLOB_BYTES)"

lemma ready_cong:
  "c (be_name (blob_table plan ! k)) = c' (be_name (blob_table plan ! k)) \<Longrightarrow> ready L A plan c k \<longleftrightarrow> ready L A plan c' k"
  by (simp add: ready_def rewritten_def)

lemma ready_cases:
  assumes "ready L A plan c k"
  obtains b where "k < length (blob_table plan)" "\<not> is_staging_name (be_name (blob_table plan ! k))"
    "c (be_name (blob_table plan ! k)) = Some (b, be_etag (blob_table plan ! k))" "length b \<le> MAX_BLOB_BYTES"
    "\<exists>x. rewrite_blob L A (plan_schema plan) (plan_compression plan) (be_name (blob_table plan ! k)) (edits_of plan k) b = Ok x
      \<and> rewritten L A plan c k = Ok x \<and> (\<forall>nb. x = Some nb \<longrightarrow> length nb \<le> MAX_BLOB_BYTES)"
  using assms by (auto simp: ready_def rewritten_def split: option.splits sum.splits)

text \<open>The staging blobs of a list of items.\<close>

definition staging_names :: "staged list \<Rightarrow> string set" where
  "staging_names xs = staging_name ` {x \<in> set xs. \<not> empty_delete x}"

lemma staging_names_simps [simp]:
  "staging_names [] = {}"
  "staging_names (x # xs) = (if empty_delete x then {} else {staging_name x}) \<union> staging_names xs"
  by (auto simp: staging_names_def)

text \<open>The item that staging a ready blob gives.\<close>

definition stages :: "'w parquet_lib \<Rightarrow> arrow_ops \<Rightarrow> modify_plan \<Rightarrow> contents \<Rightarrow> nat \<Rightarrow> staged \<Rightarrow> bool" where
  "stages L A plan c k x \<longleftrightarrow> original_name x = be_name (blob_table plan ! k)
    \<and> scan_etag x = be_etag (blob_table plan ! k)
    \<and> rewritten L A plan c k = Ok (if empty_delete x then None else Some (new_bytes_for_swap x))
    \<and> (\<not> empty_delete x \<longrightarrow> is_staging_name (staging_name x) \<and> length (new_bytes_for_swap x) \<le> MAX_BLOB_BYTES)"

lemma stages_cong:
  "c (be_name (blob_table plan ! k)) = c' (be_name (blob_table plan ! k)) \<Longrightarrow> stages L A plan c k x \<longleftrightarrow> stages L A plan c' k x"
  by (simp add: stages_def rewritten_def)

text \<open>An item whose swap will be accepted, and the bodies after swapping a list of them.\<close>

definition swappable :: "contents \<Rightarrow> staged \<Rightarrow> bool" where
  "swappable c x \<longleftrightarrow> \<not> is_staging_name (original_name x) \<and> (\<exists>b. c (original_name x) = Some (b, scan_etag x))
    \<and> (\<not> empty_delete x \<longrightarrow> is_staging_name (staging_name x) \<and> length (new_bytes_for_swap x) \<le> MAX_BLOB_BYTES)"

definition swapped_body :: "contents \<Rightarrow> staged list \<Rightarrow> string \<Rightarrow> bytes option" where
  "swapped_body c xs n = (case find (\<lambda>x. original_name x = n) xs of
      Some x \<Rightarrow> (if empty_delete x then None else Some (new_bytes_for_swap x))
    | None \<Rightarrow> if n \<in> staging_names xs then None else map_option fst (c n))"

lemma find_distinct: "distinct (map f xs) \<Longrightarrow> x \<in> set xs \<Longrightarrow> find (\<lambda>y. f y = f x) xs = Some x"
  by (induction xs) (auto simp: image_iff)

lemma stages_swappable:
  assumes "ready L A plan c k" "stages L A plan c k x" "c' (be_name (blob_table plan ! k)) = c (be_name (blob_table plan ! k))"
  shows "swappable c' x"
  using assms by (auto simp: swappable_def stages_def elim!: ready_cases)

text \<open>The identifiers with numbers from \<open>n\<close> up to \<open>M\<close> are different and no blob carries one of
  them.\<close>

definition unused :: "(nat \<Rightarrow> string) \<Rightarrow> nat \<Rightarrow> nat \<Rightarrow> contents \<Rightarrow> bool" where
  "unused uuid n M c \<longleftrightarrow> inj_on uuid {n..<M}
    \<and> (\<forall>i \<in> {n..<M}. length (uuid i) = 32 \<and> (\<forall>m. c (make_staging_name (uuid i) m) = None))"

lemma staging_name_inject:
  assumes "unused uuid n M c" "i \<in> {n..<M}" "j \<in> {n..<M}" "make_staging_name (uuid i) m = make_staging_name (uuid j) m'"
  shows "i = j"
proof -
  obtain a b where "a @ uuid i @ ''.parquet'' = b @ uuid j @ ''.parquet''"
    using assms(4) unfolding make_staging_name_def Let_def by (metis append.assoc)
  then have "a @ uuid i = b @ uuid j" by simp
  then have "uuid i = uuid j" using assms(1-3) by (simp add: append_eq_append_conv unused_def)
  then show ?thesis using assms(1-3) unfolding unused_def by (meson inj_onD)
qed

context responsive_store
begin

lemma stage_blob_answer:
  assumes "ok (store be)" "ready L A plan (view (store be)) k" "0 < budget (store be)" "slot be = Some c"
    "next_uuid be < M" "unused uuid (next_uuid be) M (view (store be))"
  shows "\<exists>x be' c'. stage_blob svc L A uuid plan k be = (Ok x, be') \<and> ok (store be')
    \<and> budget (store be) - 1 \<le> budget (store be') \<and> stages L A plan (view (store be)) k x
    \<and> next_uuid be' \<le> next_uuid be + 1 \<and> unused uuid (next_uuid be') M (view (store be'))
    \<and> (\<forall>n. n \<notin> staging_names [x] \<longrightarrow> view (store be') n = view (store be) n)
    \<and> (\<forall>n \<in> staging_names [x]. view (store be) n = None)
    \<and> slot be' = Some c' \<and> set c' = set c \<union> staging_names [x]"
  using assms(2)
proof (cases rule: ready_cases)
  case (1 b)
  let ?e = "blob_table plan ! k"
  obtain opt where opt: "rewrite_blob L A (plan_schema plan) (plan_compression plan) (be_name ?e) (edits_of plan k) b = Ok opt"
    "rewritten L A plan (view (store be)) k = Ok opt" "\<forall>nb. opt = Some nb \<longrightarrow> length nb \<le> MAX_BLOB_BYTES"
    using 1(5) by blast
  have get: "get_body_if_match svc (be_name ?e) (be_etag ?e) (store be) = (Ok b, store be)"
    using get_body_if_match_answer[OF assms(1) 1(3,4)] .
  show ?thesis
  proof (cases opt)
    case None
    let ?x = "\<lparr> original_name = be_name ?e, scan_etag = be_etag ?e, staging_name = [], new_bytes_for_swap = [], empty_delete = True \<rparr>"
    have "stage_blob svc L A uuid plan k be = (Ok ?x, be)"
      using 1(1) get opt(1) None by (simp add: stage_blob_def stage_body_def Let_def on_store_def)
    moreover have "stages L A plan (view (store be)) k ?x" using opt(2) None by (simp add: stages_def)
    ultimately show ?thesis using assms(1,4,6) by auto
  next
    case (Some nb)
    let ?st = "make_staging_name (uuid (next_uuid be)) (be_name ?e)"
    let ?x = "\<lparr> original_name = be_name ?e, scan_etag = be_etag ?e, staging_name = ?st, new_bytes_for_swap = nb, empty_delete = False \<rparr>"
    have free: "view (store be) ?st = None" using assms(5,6) by (simp add: unused_def)
    have small: "length nb \<le> MAX_BLOB_BYTES" using opt(3) Some by simp
    obtain e s' where put: "put_if_none_match svc ?st nb (store be) = (Ok e, s')" "ok s'"
      "view s' = (view (store be))(?st \<mapsto> (nb, e))" "budget s' = budget (store be) - 1"
      using put_if_none_match_answer[OF assms(1,3) free small] by blast
    let ?be = "be \<lparr> store := s', slot := Some (register_staging ?st c), next_uuid := next_uuid be + 1 \<rparr>"
    have "stage_blob svc L A uuid plan k be = (Ok ?x, ?be)"
      using 1(1) get opt(1) Some put(1) assms(4)
      by (simp add: stage_blob_def stage_body_def Let_def on_store_def with_active_def)
    moreover have "stages L A plan (view (store be)) k ?x"
      using opt(2) small Some staging_name_is_staging by (simp add: stages_def)
    moreover have "unused uuid (next_uuid be + 1) M (view s')"
    proof -
      have "view s' (make_staging_name (uuid i) m) = None" if "next_uuid be + 1 \<le> i" "i < M" for i m
      proof -
        have "make_staging_name (uuid i) m \<noteq> ?st"
          using staging_name_inject[OF assms(6), of i "next_uuid be"] that by fastforce
        then show ?thesis using assms(6) that put(3) by (simp add: unused_def)
      qed
      moreover have "inj_on uuid {next_uuid be + 1..<M}"
        using assms(6) unfolding unused_def by (auto intro: inj_on_subset)
      ultimately show ?thesis using assms(6) by (simp add: unused_def)
    qed
    ultimately show ?thesis
      using put free by (intro exI[of _ ?x] exI[of _ ?be]) simp
  qed
qed

lemma stage_all_answer:
  assumes "ok (store be)" "\<forall>k \<in> set ks. ready L A plan (view (store be)) k" "length ks \<le> budget (store be)"
    "slot be = Some c" "next_uuid be + length ks \<le> M" "unused uuid (next_uuid be) M (view (store be))"
  shows "\<exists>xs be' c'. stage_all svc L A uuid plan ks be = (Ok xs, be') \<and> ok (store be')
    \<and> budget (store be) - length ks \<le> budget (store be') \<and> list_all2 (stages L A plan (view (store be))) ks xs
    \<and> (\<forall>n. n \<notin> staging_names xs \<longrightarrow> view (store be') n = view (store be) n)
    \<and> (\<forall>n \<in> staging_names xs. view (store be) n = None)
    \<and> slot be' = Some c' \<and> set c' = set c \<union> staging_names xs"
  using assms
proof (induction ks arbitrary: be c)
  case Nil
  then show ?case by simp
next
  case (Cons k ks)
  have b: "0 < budget (store be)" and r: "ready L A plan (view (store be)) k" and less: "next_uuid be < M"
    using Cons.prems(2,3,5) by auto
  obtain x be1 c1 where x: "stage_blob svc L A uuid plan k be = (Ok x, be1)" "ok (store be1)"
    "budget (store be) - 1 \<le> budget (store be1)" "stages L A plan (view (store be)) k x"
    "unused uuid (next_uuid be1) M (view (store be1))" "next_uuid be1 \<le> next_uuid be + 1"
    "\<forall>n. n \<notin> staging_names [x] \<longrightarrow> view (store be1) n = view (store be) n"
    "\<forall>n \<in> staging_names [x]. view (store be) n = None"
    "slot be1 = Some c1" "set c1 = set c \<union> staging_names [x]"
    using stage_blob_answer[OF Cons.prems(1) r b Cons.prems(4) less Cons.prems(6)] by blast
  have orig: "view (store be1) n = view (store be) n" if "\<not> is_staging_name n" for n
  proof -
    have "n \<notin> staging_names [x]" using x(4) that by (auto simp: stages_def)
    then show ?thesis using x(7) by blast
  qed
  have same: "view (store be1) (be_name (blob_table plan ! i)) = view (store be) (be_name (blob_table plan ! i))"
    if "i \<in> set ks" for i
    using orig[of "be_name (blob_table plan ! i)"] Cons.prems(2) that by (simp add: ready_def)
  have ready1: "\<forall>i \<in> set ks. ready L A plan (view (store be1)) i"
    using Cons.prems(2) ready_cong[of "view (store be1)" plan _ "view (store be)", OF same] by auto
  have len1: "length ks \<le> budget (store be1)" using Cons.prems(3) x(3) by simp
  obtain xs be2 c2 where xs: "stage_all svc L A uuid plan ks be1 = (Ok xs, be2)" "ok (store be2)"
    "budget (store be1) - length ks \<le> budget (store be2)" "list_all2 (stages L A plan (view (store be1))) ks xs"
    "\<forall>n. n \<notin> staging_names xs \<longrightarrow> view (store be2) n = view (store be1) n"
    "\<forall>n \<in> staging_names xs. view (store be1) n = None"
    "slot be2 = Some c2" "set c2 = set c1 \<union> staging_names xs"
    using Cons.IH[OF x(2) ready1 len1 x(9) _ x(5)] Cons.prems(5) x(6) by auto
  have "list_all2 (stages L A plan (view (store be))) ks xs"
    using xs(4) by (rule list.rel_mono_strong) (use stages_cong[of "view (store be1)" plan _ "view (store be)", OF same] in blast)
  moreover have "\<forall>n \<in> staging_names xs. view (store be) n = None"
    using x(7,8) xs(6) by metis
  ultimately show ?case
    using x xs by (intro exI[of _ "x # xs"] exI[of _ be2] exI[of _ c2]) auto
qed

text \<open>What swapping one item does to the bodies.\<close>

lemma swap_one_answer:
  assumes "ok (store be)" "view (store be) (original_name x) = Some (b, scan_etag x)" "0 < budget (store be)"
    "slot be = Some c" "\<not> empty_delete x \<longrightarrow> length (new_bytes_for_swap x) \<le> MAX_BLOB_BYTES"
    "\<not> empty_delete x \<longrightarrow> staging_name x \<noteq> original_name x"
  shows "\<exists>be' c' v. swap_one svc x be = (Ok (), be') \<and> ok (store be') \<and> budget (store be) - 1 \<le> budget (store be')
    \<and> view (store be') = (\<lambda>n. if n = original_name x then v
                               else if n \<in> staging_names [x] then None else view (store be) n)
    \<and> map_option fst v = (if empty_delete x then None else Some (new_bytes_for_swap x))
    \<and> slot be' = Some c' \<and> set c' = set c - staging_names [x]"
proof (cases "empty_delete x")
  case True
  obtain s' where d: "delete_if_match svc (original_name x) (scan_etag x) (store be) = (Ok (), s')" "ok s'"
    "view s' = (view (store be))(original_name x := None)" "budget s' = budget (store be)"
    using delete_if_match_answer[OF assms(1,2)] by blast
  have "swap_one svc x be = (Ok (), be \<lparr> store := s' \<rparr>)" using True d(1) by (simp add: swap_one_def on_store_def)
  then show ?thesis
    using True d assms(4)
    by (intro exI[of _ "be \<lparr> store := s' \<rparr>"] exI[of _ c] exI[of _ None]) (simp add: fun_eq_iff)
next
  case False
  obtain e s1 where p: "put_if_match svc (original_name x) (new_bytes_for_swap x) (scan_etag x) (store be) = (Ok e, s1)"
    "ok s1" "view s1 = (view (store be))(original_name x \<mapsto> (new_bytes_for_swap x, e))" "budget s1 = budget (store be) - 1"
    using put_if_match_answer[OF assms(1,3,2)] assms(5) False by blast
  obtain s2 where d: "delete_unconditional svc (staging_name x) s1 = (Ok (), s2)" "ok s2"
    "view s2 = (view s1)(staging_name x := None)" "budget s2 = budget s1"
    using delete_unconditional_answer[OF p(2)] by blast
  let ?be = "be \<lparr> store := s2, slot := Some (mark_committed (staging_name x) c) \<rparr>"
  have "swap_one svc x be = (Ok (), ?be)"
    using False p(1) d(1) assms(4) by (simp add: swap_one_def on_store_def with_active_def)
  then show ?thesis
    using False p d assms(6)
    by (intro exI[of _ ?be] exI[of _ "mark_committed (staging_name x) c"]
          exI[of _ "Some (new_bytes_for_swap x, e)"]) (auto simp: fun_eq_iff mark_committed_def)
qed

lemma swap_all_answer:
  assumes "ok (store be)" "\<forall>x \<in> set xs. swappable (view (store be)) x" "length xs \<le> budget (store be)"
    "slot be = Some c" "distinct (map original_name xs)"
  shows "\<exists>be' c'. swap_all svc xs be = (Ok (), be') \<and> ok (store be')
    \<and> (\<forall>n. map_option fst (view (store be') n) = swapped_body (view (store be)) xs n)
    \<and> slot be' = Some c' \<and> set c' = set c - staging_names xs"
  using assms
proof (induction xs arbitrary: be c)
  case Nil
  then show ?case by (simp add: swapped_body_def)
next
  case (Cons x xs)
  have sw: "swappable (view (store be)) x" and b: "0 < budget (store be)" using Cons.prems(2,3) by auto
  have ne: "\<not> empty_delete x \<longrightarrow> staging_name x \<noteq> original_name x" using sw by (metis swappable_def)
  obtain b where x: "view (store be) (original_name x) = Some (b, scan_etag x)"
    "\<not> empty_delete x \<longrightarrow> length (new_bytes_for_swap x) \<le> MAX_BLOB_BYTES"
    using sw unfolding swappable_def by blast
  obtain be1 c1 v where s: "swap_one svc x be = (Ok (), be1)" "ok (store be1)" "budget (store be) - 1 \<le> budget (store be1)"
    "view (store be1) = (\<lambda>n. if n = original_name x then v else if n \<in> staging_names [x] then None else view (store be) n)"
    "map_option fst v = (if empty_delete x then None else Some (new_bytes_for_swap x))"
    "slot be1 = Some c1" "set c1 = set c - staging_names [x]"
    using swap_one_answer[OF Cons.prems(1) x(1) b Cons.prems(4) x(2) ne] by blast
  have len: "length xs \<le> budget (store be1)" using Cons.prems(3) s(3) by simp
  have "swappable (view (store be1)) y" if "y \<in> set xs" for y
  proof -
    have "original_name y \<noteq> original_name x" using Cons.prems(5) that by (metis distinct.simps(2) image_eqI list.map(2) list.set_map)
    moreover have "original_name y \<notin> staging_names [x]" using Cons.prems(2) that by (auto simp: swappable_def)
    ultimately show ?thesis using Cons.prems(2) that s(4) by (auto simp: swappable_def)
  qed
  then obtain be' c' where t: "swap_all svc xs be1 = (Ok (), be')" "ok (store be')"
    "\<forall>n. map_option fst (view (store be') n) = swapped_body (view (store be1)) xs n"
    "slot be' = Some c'" "set c' = set c1 - staging_names xs"
    using Cons.IH[OF s(2) _ len s(6)] Cons.prems(5) by auto
  have "original_name x \<notin> staging_names xs" using Cons.prems(2) by (auto simp: swappable_def staging_names_def)
  moreover have "find (\<lambda>y. original_name y = original_name x) xs = None"
    using Cons.prems(5) by (force simp: find_None_iff image_iff)
  ultimately have "swapped_body (view (store be1)) xs n
    = swapped_body (view (store be)) (x # xs) n" for n
    using s(4,5) by (auto simp: swapped_body_def split: option.split)
  then show ?case using s t by auto
qed

end

context responsive_store
begin

lemma commit_plan_answer:
  assumes "ok (store be)" "slot be = Some []"
    "distinct (map fst (edits plan))" "\<forall>k \<in> fst ` set (edits plan). ready L A plan (view (store be)) k"
    "inj_on (\<lambda>k. be_name (blob_table plan ! k)) (fst ` set (edits plan))"
    "2 * length (edits plan) \<le> budget (store be)"
    "unused uuid (next_uuid be) (next_uuid be + length (edits plan)) (view (store be))"
  shows "\<exists>be'. commit_plan svc L A uuid plan be = (Ok (), be') \<and> slot be' = Some []
    \<and> (\<forall>k \<in> fst ` set (edits plan).
        rewritten L A plan (view (store be)) k = Ok (map_option fst (view (store be') (be_name (blob_table plan ! k)))))
    \<and> (\<forall>n. n \<notin> (\<lambda>k. be_name (blob_table plan ! k)) ` fst ` set (edits plan) \<longrightarrow>
        map_option fst (view (store be') n) = map_option fst (view (store be) n))"
proof -
  let ?ks = "sort (map fst (edits plan))" and ?nm = "\<lambda>k. be_name (blob_table plan ! k)"
  have pre: "\<forall>k \<in> set ?ks. ready L A plan (view (store be)) k" "length ?ks \<le> budget (store be)"
    "next_uuid be + length ?ks \<le> next_uuid be + length (edits plan)"
    using assms(4,6) by auto
  obtain xs be1 c1 where st: "stage_all svc L A uuid plan ?ks be = (Ok xs, be1)" "ok (store be1)"
    "budget (store be) - length ?ks \<le> budget (store be1)" "list_all2 (stages L A plan (view (store be))) ?ks xs"
    "\<forall>n. n \<notin> staging_names xs \<longrightarrow> view (store be1) n = view (store be) n"
    "\<forall>n \<in> staging_names xs. view (store be) n = None" "slot be1 = Some c1" "set c1 = staging_names xs"
    using stage_all_answer[OF assms(1) pre(1,2) assms(2) pre(3) assms(7)] by auto
  have len: "length xs \<le> budget (store be1)"
    using list_all2_lengthD[OF st(4)] st(3) assms(6) by simp
  have names: "map original_name xs = map ?nm ?ks"
    using st(4) by (intro nth_equalityI) (simp_all add: list_all2_conv_all_nth stages_def)
  have dist: "distinct (map original_name xs)"
    unfolding names using assms(3,5) by (simp add: distinct_map)
  have item: "\<exists>k \<in> set ?ks. stages L A plan (view (store be)) k x" if "x \<in> set xs" for x
    using st(4) that by (metis in_set_conv_nth list_all2_conv_all_nth)
  have orig: "view (store be1) (?nm k) = view (store be) (?nm k)" if "k \<in> set ?ks" for k
  proof -
    have "?nm k \<notin> staging_names xs" using pre(1) that st(6) by (auto simp: ready_def split: option.splits)
    then show ?thesis using st(5) by blast
  qed
  have sw: "\<forall>x \<in> set xs. swappable (view (store be1)) x"
    using item pre(1) orig stages_swappable by meson
  obtain be' c' where sa: "swap_all svc xs be1 = (Ok (), be')"
    "\<forall>n. map_option fst (view (store be') n) = swapped_body (view (store be1)) xs n"
    "slot be' = Some c'" "set c' = set c1 - staging_names xs"
    using swap_all_answer[OF st(2) sw len st(7) dist] by (elim exE conjE) (rule that)
  have "rewritten L A plan (view (store be)) k = Ok (map_option fst (view (store be') (?nm k)))" if "k \<in> set ?ks" for k
  proof -
    obtain i where i: "i < length ?ks" "?ks ! i = k" using \<open>k \<in> set ?ks\<close> unfolding in_set_conv_nth by (elim exE conjE) (rule that)
    then have x: "xs ! i \<in> set xs" "stages L A plan (view (store be)) k (xs ! i)"
      using list_all2_nthD[OF st(4) i(1)] list_all2_lengthD[OF st(4)] by simp_all
    then have "find (\<lambda>y. original_name y = ?nm k) xs = Some (xs ! i)"
      using find_distinct[OF dist x(1)] by (simp add: stages_def)
    then show ?thesis using sa(2) x(2) by (simp add: swapped_body_def stages_def)
  qed
  moreover have "map_option fst (view (store be') n) = map_option fst (view (store be) n)" if "n \<notin> ?nm ` set ?ks" for n
  proof -
    have "n \<notin> original_name ` set xs" using that names by (metis list.set_map)
    then have "find (\<lambda>x. original_name x = n) xs = None" by (auto simp: find_None_iff)
    then show ?thesis using sa(2) st(5,6) by (auto simp: swapped_body_def)
  qed
  moreover have "commit_plan svc L A uuid plan be = (Ok (), be')" using st(1) sa(1) by (simp add: commit_plan_def)
  ultimately show ?thesis using sa(3,4) st(8) by auto
qed

end

section \<open>The failed statement\<close>

text \<open>While nobody else writes, staging changes no blob but staging blobs, and each of those it may have
  changed is registered, also when its upload reported an error.\<close>

context quiet_store
begin

definition traced :: "(nat \<Rightarrow> string) \<Rightarrow> nat \<Rightarrow> 's backend \<Rightarrow> 's backend \<Rightarrow> bool" where
  "traced uuid k be be' \<longleftrightarrow> ok (store be') \<and> next_uuid be \<le> next_uuid be' \<and> next_uuid be' \<le> next_uuid be + k
    \<and> (\<forall>c. slot be = Some c \<longrightarrow> (\<exists>c'. slot be' = Some c' \<and> set c \<subseteq> set c'
        \<and> (\<forall>n \<in> set c' - set c. \<exists>i m. next_uuid be \<le> i \<and> i < next_uuid be' \<and> n = make_staging_name (uuid i) m)
        \<and> (\<forall>n. n \<notin> set c' \<longrightarrow> view (store be') n = view (store be) n)))"

lemma traced_same: "ok (store be') \<Longrightarrow> view (store be') = view (store be) \<Longrightarrow> slot be' = slot be \<Longrightarrow> next_uuid be' = next_uuid be \<Longrightarrow>
    traced uuid k be be'"
  by (auto simp: traced_def)

lemma traced_trans:
  assumes "traced uuid j a b" "traced uuid k b c"
  shows "traced uuid (j + k) a c"
proof -
  have "\<exists>c''. slot c = Some c'' \<and> set ca \<subseteq> set c''
      \<and> (\<forall>n \<in> set c'' - set ca. \<exists>i m. next_uuid a \<le> i \<and> i < next_uuid c \<and> n = make_staging_name (uuid i) m)
      \<and> (\<forall>n. n \<notin> set c'' \<longrightarrow> view (store c) n = view (store a) n)" if a: "slot a = Some ca" for ca
  proof -
    obtain cb where b: "slot b = Some cb" "set ca \<subseteq> set cb"
      "\<forall>n \<in> set cb - set ca. \<exists>i m. next_uuid a \<le> i \<and> i < next_uuid b \<and> n = make_staging_name (uuid i) m"
      "\<forall>n. n \<notin> set cb \<longrightarrow> view (store b) n = view (store a) n"
      using assms(1) a unfolding traced_def by auto
    obtain cc where c: "slot c = Some cc" "set cb \<subseteq> set cc"
      "\<forall>n \<in> set cc - set cb. \<exists>i m. next_uuid b \<le> i \<and> i < next_uuid c \<and> n = make_staging_name (uuid i) m"
      "\<forall>n. n \<notin> set cc \<longrightarrow> view (store c) n = view (store b) n"
      using assms(2) b(1) unfolding traced_def by auto
    have m: "next_uuid a \<le> next_uuid b" "next_uuid b \<le> next_uuid c" using assms by (auto simp: traced_def)
    have "\<exists>i m. next_uuid a \<le> i \<and> i < next_uuid c \<and> n = make_staging_name (uuid i) m" if n: "n \<in> set cc - set ca" for n
    proof (cases "n \<in> set cb")
      case True
      then show ?thesis using b(3) n m order_less_le_trans by (meson DiffD2 DiffI)
    next
      case False
      then show ?thesis using c(3) n m order_trans by (meson DiffD1 DiffI)
    qed
    moreover have "view (store c) n = view (store a) n" if "n \<notin> set cc" for n using b(2,4) c(2,4) that by auto
    ultimately show ?thesis using b(2) c(1,2) by blast
  qed
  then show ?thesis using assms unfolding traced_def by auto
qed

lemma stage_body_traced:
  assumes "ok (store be)" "stage_body svc L A uuid plan k body be = (r, be')"
  shows "traced uuid 1 be be'"
proof -
  let ?name = "be_name (blob_table plan ! k)"
  consider (same) "be' = be"
    | (put) nb be1 rp s2 where "be1 = be \<lparr> next_uuid := next_uuid be + 1,
          slot := with_active (register_staging (make_staging_name (uuid (next_uuid be)) ?name)) (slot be) \<rparr>"
        "put_if_none_match svc (make_staging_name (uuid (next_uuid be)) ?name) nb (store be) = (rp, s2)" "be' = be1 \<lparr> store := s2 \<rparr>"
    using assms(2)
    by (fastforce simp: stage_body_def Let_def on_store_eq elim!: st_then_cases split: sum.splits option.splits)
  then show ?thesis
  proof cases
    case same
    then show ?thesis using traced_same assms(1) by simp
  next
    case put
    let ?st = "make_staging_name (uuid (next_uuid be)) ?name"
    obtain sa sb where ab: "env (store be) sa" "later sa sb" "env sb s2"
      "wrote ?st nb None (view sa) (view sb) \<or> (\<exists>e. rp = Inl e) \<and> view sb = view sa"
      using conditional_put_store[OF assms(1) put(2)[unfolded put_if_none_match_def]] by blast
    have v: "view s2 n = view (store be) n" if "n \<noteq> ?st" for n
      using ab(4) that quiet[OF ab(1)] quiet[OF ab(3)] by (auto simp: wrote_def)
    have "ok s2" using later_ok[OF env_later[OF ab(3)]] by blast
    then show ?thesis using put(1,3) v by (auto simp: traced_def with_active_def)
  qed
qed

lemma stage_blob_traced:
  assumes "ok (store be)" "stage_blob svc L A uuid plan k be = (r, be')"
  shows "traced uuid 1 be be'"
proof (cases "k < length (blob_table plan)")
  case False
  then show ?thesis using assms traced_same by (auto simp: stage_blob_def)
next
  case True
  let ?name = "be_name (blob_table plan ! k)" and ?etag = "be_etag (blob_table plan ! k)"
  obtain rg s1 where s1: "get_body_if_match svc ?name ?etag (store be) = (rg, s1)" by fastforce
  have e: "env (store be) s1" using get_body_if_match_store[OF assms(1) s1] by blast
  then have ok1: "ok s1" using later_ok[OF env_later] by blast
  have t: "traced uuid 0 be (be \<lparr> store := s1 \<rparr>)" using traced_same ok1 quiet[OF e] by simp
  show ?thesis
  proof (cases rg)
    case (Inl e)
    then have "be' = be \<lparr> store := s1 \<rparr>" using assms(2) True s1 by (simp add: stage_blob_def Let_def on_store_def)
    then show ?thesis using t by (auto simp: traced_def)
  next
    case (Inr body)
    then have "stage_body svc L A uuid plan k body (be \<lparr> store := s1 \<rparr>) = (r, be')"
      using assms(2) True s1 by (simp add: stage_blob_def Let_def on_store_def)
    from traced_trans[OF t stage_body_traced[OF _ this]] show ?thesis using ok1 by simp
  qed
qed

lemma stage_all_traced:
  assumes "ok (store be)" "stage_all svc L A uuid plan ks be = (r, be')"
  shows "traced uuid (length ks) be be'"
  using assms
proof (induction ks arbitrary: be r)
  case Nil
  then show ?case using traced_same by simp
next
  case (Cons k ks)
  obtain r1 be1 where b: "stage_blob svc L A uuid plan k be = (r1, be1)" by fastforce
  note t1 = stage_blob_traced[OF Cons.prems(1) b]
  show ?case
  proof (cases r1)
    case (Inl e)
    then have "be' = be1" using Cons.prems(2) b by simp
    then show ?thesis using t1 by (auto simp: traced_def)
  next
    case (Inr x)
    obtain r2 be2 where c: "stage_all svc L A uuid plan ks be1 = (r2, be2)" by fastforce
    have "be' = be2" using Cons.prems(2) b c Inr by (cases r2) auto
    then have "traced uuid (length ks) be1 be'" using Cons.IH[of be1 r2] c t1 by (simp add: traced_def)
    from traced_trans[OF t1 this] show ?thesis by simp
  qed
qed

end

section \<open>Properties\<close>

text \<open>C1: concurrent clients are never overwritten.  On a store that honours its conditions, with other
  clients acting at any moment, whatever \<^verbatim>\<open>commit_plan\<close> does between its start and its
  return, success or error, is a sequence of actions of others and of steps of these kinds only: a
  staging blob is created or removed; an edited blob that still has its scan-time ETag is replaced
  by the rewrite of its content at that moment, or removed when that rewrite has no row left.\<close>

theorem commit_plan_safe:
  assumes "blob_store svc view ok env later" "later s0 (store be)"
    "\<forall>k \<in> fst ` set (edits plan). k < length (blob_table plan) \<longrightarrow>
      (\<exists>b. view s0 (be_name (blob_table plan ! k)) = Some (b, be_etag (blob_table plan ! k)))"
    "commit_plan svc L A uuid plan be = (r, be')"
  shows "commit_run view env later (commit_effect L A plan) (store be) (store be')"
proof -
  let ?ks = "sort (map fst (edits plan))"
  obtain r1 be1 where s: "stage_all svc L A uuid plan ?ks be = (r1, be1)" by fastforce
  note run1 = blob_store.stage_all_run[OF assms(1,2) s]
  show ?thesis
  proof (cases r1)
    case (Inl e)
    then show ?thesis using assms(4) s run1 by (auto simp: commit_plan_def)
  next
    case (Inr xs)
    have "ok (store be)" using blob_store.later_ok[OF assms(1,2)] by blast
    then have "later (store be) (store be1)" using blob_store.commit_run_later[OF assms(1) conjunct1[OF run1]] by blast
    then have ok1: "ok (store be1)" using blob_store.later_ok[OF assms(1)] by blast
    have st: "list_all2 (blob_store.staged_ok view later L A plan s0 (store be1)) ?ks xs" using run1 Inr by blast
    have "\<exists>b0. view s0 (original_name x) = Some (b0, scan_etag x)" if "x \<in> set xs" for x
    proof -
      obtain k where "k \<in> set ?ks" "blob_store.staged_ok view later L A plan s0 (store be1) k x"
        using st \<open>x \<in> set xs\<close> by (metis in_set_conv_nth list_all2_conv_all_nth)
      then show ?thesis using assms(3) by (auto simp: blob_store.staged_ok_def[OF assms(1)])
    qed
    moreover have "swap_all svc xs be1 = (r, be')" using assms(4) s Inr by (simp add: commit_plan_def)
    ultimately have "commit_run view env later (commit_effect L A plan) (store be1) (store be')"
      using blob_store.swap_all_run[OF assms(1) _ st _ ok1] by simp
    then show ?thesis using conjunct1[OF run1] by (rule commit_run_trans)
  qed
qed

text \<open>C2: without interference the statement succeeds and does what it says.  When every edited blob is
  current, can be rewritten, and the identifiers are fresh, \<^verbatim>\<open>commit_plan\<close> returns success; every
  edited blob then holds its rewrite, or is gone when no row was left; every other blob, staging
  blobs included, has the body it had; and no staging blob is left registered.\<close>

theorem commit_plan_succeeds:
  assumes "responsive_store svc view ok env later budget" "ok (store be)" "slot be = Some coord_new"
    "distinct (map fst (edits plan))" "\<forall>k \<in> fst ` set (edits plan). ready L A plan (view (store be)) k"
    "inj_on (\<lambda>k. be_name (blob_table plan ! k)) (fst ` set (edits plan))"
    "2 * length (edits plan) \<le> budget (store be)"
    "unused uuid (next_uuid be) (next_uuid be + length (edits plan)) (view (store be))"
  shows "\<exists>be'. commit_plan svc L A uuid plan be = (Ok (), be') \<and> slot be' = Some []
    \<and> (\<forall>k \<in> fst ` set (edits plan).
        rewritten L A plan (view (store be)) k = Ok (map_option fst (view (store be') (be_name (blob_table plan ! k)))))
    \<and> (\<forall>n. n \<notin> (\<lambda>k. be_name (blob_table plan ! k)) ` fst ` set (edits plan) \<longrightarrow>
        map_option fst (view (store be') n) = map_option fst (view (store be) n))"
  using responsive_store.commit_plan_answer[OF assms(1,2) assms(3)[unfolded coord_new_def] assms(4-8)] .

text \<open>C7: a statement that fails while staging leaves no trace.  Whatever makes staging fail (a blob that is
  no longer current, a download or an upload that fails, also an upload that took effect and lost its
  response, a rewrite that reports an error, a bad blob number), the statement returns that error with
  every original untouched, and the transaction callback of the abort that follows removes every
  staging blob that was uploaded: every blob has its old body and ETag again, and no warning is raised.
  Nobody else writes to the container meanwhile, the deletes of the sweep are answered, and the
  identifiers are fresh.\<close>

theorem commit_plan_rolls_back:
  assumes "quiet_store svc view ok env later" "ok (store be)" "slot be = Some coord_new"
    "unused uuid (next_uuid be) (next_uuid be + length (edits plan)) (view (store be))"
    "stage_all svc L A uuid plan (sort (map fst (edits plan))) be = (Err e, be')"
  shows "commit_plan svc L A uuid plan be = (Err e, be')
    \<and> (\<forall>n. \<not> is_staging_name n \<longrightarrow> view (store be') n = view (store be) n)
    \<and> (\<exists>s'. xact_cb svc XACT_EVENT_ABORT (slot be') (store be') = ([], None, s') \<and> view s' = view (store be))"
proof -
  have t: "ok (store be')" "next_uuid be' \<le> next_uuid be + length (edits plan)"
    using quiet_store.stage_all_traced[OF assms(1,2,5)] by (simp_all add: quiet_store.traced_def[OF assms(1)])
  obtain c where c: "slot be' = Some c"
    "\<forall>n \<in> set c. \<exists>i m. next_uuid be \<le> i \<and> i < next_uuid be' \<and> n = make_staging_name (uuid i) m"
    "\<forall>n. n \<notin> set c \<longrightarrow> view (store be') n = view (store be) n"
    using quiet_store.stage_all_traced[OF assms(1,2,5)] assms(3) by (auto simp: quiet_store.traced_def[OF assms(1)] coord_new_def)
  have fresh: "view (store be) n = None \<and> is_staging_name n" if "n \<in> set c" for n
    using c(2) that t(2) assms(4) staging_name_is_staging unfolding unused_def by fastforce
  obtain s' where s': "xact_cb svc XACT_EVENT_ABORT (Some c) (store be') = ([], None, s')"
    "view s' = (\<lambda>n. if n \<in> set c then None else view (store be') n)"
    using quiet_store.xact_abort_answer[OF assms(1) t(1)] by blast
  have "view s' = view (store be)" using s'(2) c(3) fresh by (auto simp: fun_eq_iff)
  moreover have "commit_plan svc L A uuid plan be = (Err e, be')" using assms(5) by (simp add: commit_plan_def)
  ultimately show ?thesis using c(1,3) fresh s'(1) by auto
qed

section \<open>A statement on the fake store\<close>

definition demo_plan :: "blob_edits \<Rightarrow> modify_plan" where
  "demo_plan ed = \<lparr> blob_table = [\<lparr> be_name = ''a.parquet'', chunk_base_row = 0, be_etag = etag_text 1 \<rparr>],
    edits = [(0, ed)], plan_schema = example_schema, pg_oids = [20], update_attnums = [1], plan_compression = Snappy,
    is_delete = False, ctid_attno = 2, edit_count = 2 \<rparr>"

definition demo_backend :: "fake_state backend" where
  "demo_backend = \<lparr> store = \<lparr> blobs = [(''c/a.parquet'', \<lparr> entry_body = ''abcd'', entry_etag = etag_text 1 \<rparr>)], next_etag_seq = 2 \<rparr>,
    slot = Some coord_new, next_uuid = 0 \<rparr>"

definition demo_uuid :: "nat \<Rightarrow> string" where
  "demo_uuid i = replicate 32 (CHR ''0'')"

lemma demo_name: "\<not> is_staging_name ''a.parquet''"
  by code_simp

lemma demo_view: "fake_view ''c'' (store demo_backend) n = (if n = ''a.parquet'' then Some (''abcd'', etag_text 1) else None)"
  by (simp add: fake_view_def blob_key_def demo_backend_def)

lemma demo_ok: "fake_ok (store demo_backend)" "fake_budget (store demo_backend) = u64_MAX - 2" "slot demo_backend = Some coord_new"
    "next_uuid demo_backend = 0"
  by (auto simp: demo_backend_def fake_ok_def fake_budget_def u64_MAX_def intro!: exI[of _ 1])

lemma demo_unused: "unused demo_uuid (next_uuid demo_backend) (next_uuid demo_backend + 1) (fake_view ''c'' (store demo_backend))"
proof -
  have "make_staging_name u m \<noteq> ''a.parquet''" for u m
    using staging_name_is_staging[of u m] demo_name by metis
  then have "fake_view ''c'' (store demo_backend) (make_staging_name u m) = None" for u m
    by (simp add: demo_view)
  then show ?thesis by (simp add: unused_def demo_uuid_def inj_on_def demo_ok)
qed

lemma demo_rewritten: "rewritten byte_lib list_arrow (demo_plan example_edits) (fake_view ''c'' (store demo_backend)) 0
    = Ok (Some [CHR ''a'', CHR 0x1E, CHR ''d''])"
  using byte_rewrite by (simp add: rewritten_def demo_view demo_plan_def edits_of_def)

theorem commit_plan_safe_witness:
  "commit_run (fake_view ''c'') others fake_later (commit_effect byte_lib list_arrow (demo_plan example_edits)) (store demo_backend)
    (store (snd (commit_plan (fake_service ''c'') byte_lib list_arrow demo_uuid (demo_plan example_edits) demo_backend)))"
  by (rule commit_plan_safe[OF fake.blob_store_axioms fake_later_refl[OF demo_ok(1)] _ prod.collapse[symmetric]])
    (simp add: demo_view demo_plan_def)

theorem commit_plan_succeeds_witness:
  "\<exists>be'. commit_plan (fake_service ''c'') byte_lib list_arrow demo_uuid (demo_plan example_edits) demo_backend = (Ok (), be')
    \<and> map_option fst (fake_view ''c'' (store be') ''a.parquet'') = Some [CHR ''a'', CHR 0x1E, CHR ''d'']
    \<and> fake_view ''c'' (store be') (make_staging_name (demo_uuid 0) ''a.parquet'') = None"
proof -
  let ?v = "fake_view ''c'' (store demo_backend)"
  have m: "make_staging_name (demo_uuid 0) ''a.parquet'' \<noteq> ''a.parquet''" using staging_name_is_staging demo_name by metis
  have e: "fst ` set (edits (demo_plan example_edits)) = {0}" "be_name (blob_table (demo_plan example_edits) ! 0) = ''a.parquet''"
    "length (edits (demo_plan example_edits)) = 1" "distinct (map fst (edits (demo_plan example_edits)))"
    by (simp_all add: demo_plan_def)
  have "ready byte_lib list_arrow (demo_plan example_edits) ?v 0"
    unfolding ready_def demo_rewritten using demo_name by (simp add: demo_view demo_plan_def MAX_BLOB_BYTES_def)
  then have r: "\<forall>k \<in> fst ` set (edits (demo_plan example_edits)). ready byte_lib list_arrow (demo_plan example_edits) ?v k"
    using e(1) by simp
  have i: "inj_on (\<lambda>k. be_name (blob_table (demo_plan example_edits) ! k)) (fst ` set (edits (demo_plan example_edits)))"
    unfolding e(1) by simp
  have b: "2 * length (edits (demo_plan example_edits)) \<le> fake_budget (store demo_backend)"
    using demo_ok(2) by (simp add: e(3) u64_MAX_def)
  obtain be' where c: "commit_plan (fake_service ''c'') byte_lib list_arrow demo_uuid (demo_plan example_edits) demo_backend = (Ok (), be')"
    "rewritten byte_lib list_arrow (demo_plan example_edits) ?v 0 = Ok (map_option fst (fake_view ''c'' (store be') ''a.parquet''))"
    "\<forall>n. n \<noteq> ''a.parquet'' \<longrightarrow> map_option fst (fake_view ''c'' (store be') n) = map_option fst (?v n)"
    using commit_plan_succeeds[OF fake.responsive_store_axioms demo_ok(1,3) e(4) r i b demo_unused[folded e(3)]]
    unfolding e(1) using e(2) by auto
  have "fake_view ''c'' (store be') (make_staging_name (demo_uuid 0) ''a.parquet'') = None"
    using spec[OF c(3), of "make_staging_name (demo_uuid 0) ''a.parquet''"] m by (simp add: demo_view)
  then show ?thesis using c(1,2) unfolding demo_rewritten by (intro exI[of _ be']) simp
qed

text \<open>A service that loses the responses of some uploads: they take effect and report an error.\<close>

definition lossy :: "(string \<Rightarrow> bool) \<Rightarrow> 's blob_service \<Rightarrow> 's blob_service" where
  "lossy lost svc = svc \<lparr> svc_upload := (\<lambda>n b if_match if_none_match s.
    case svc_upload svc n b if_match if_none_match s of (r, s') \<Rightarrow> (if lost n then Inl (SdkError None ''reset'') else r, s')) \<rparr>"

lemma lossy_calls: "svc_download (lossy lost svc) = svc_download svc" "svc_delete (lossy lost svc) = svc_delete svc"
  by (simp_all add: lossy_def)

lemma lossy_blob_store:
  assumes "blob_store svc view ok env later"
  shows "blob_store (lossy lost svc) view ok env later"
proof unfold_locales
  fix s n b im inm r s'
  assume s: "ok s" and u: "svc_upload (lossy lost svc) n b im inm s = (r, s')"
  obtain r0 where "svc_upload svc n b im inm s = (r0, s')" "(\<exists>err. r0 = Inl err) \<longrightarrow> (\<exists>err. r = Inl err)"
    using u by (auto simp: lossy_def split: prod.splits if_splits)
  then show "\<exists>s1 s2. env s s1 \<and> later s1 s2 \<and> env s2 s'
      \<and> (wrote n b im (view s1) (view s2) \<or> (\<exists>err. r = Inl err) \<and> view s2 = view s1)"
    using blob_store.upload[OF assms s] by blast
qed (unfold lossy_calls, (rule blob_store.env_refl[OF assms] blob_store.env_later[OF assms] blob_store.later_trans[OF assms]
    blob_store.later_ok[OF assms] blob_store.etag_stable[OF assms] blob_store.download[OF assms] blob_store.download_body[OF assms]
    blob_store.delete[OF assms]; assumption)+)

definition alone :: "fake_state \<Rightarrow> fake_state \<Rightarrow> bool" where
  "alone s s' \<longleftrightarrow> fake_ok s \<and> s' = s"

interpretation lossy_fake: quiet_store "lossy lost (fake_service cont)" "fake_view cont" fake_ok alone fake_later for lost cont
proof (rule quiet_store.intro)
  show "blob_store (lossy lost (fake_service cont)) (fake_view cont) fake_ok alone fake_later"
    by (rule lossy_blob_store[OF fake_blob_store]) (auto simp: alone_def intro: fake_later_refl)
  show "quiet_store_axioms (lossy lost (fake_service cont)) (fake_view cont) fake_ok alone"
  proof
    fix s n assume "fake_ok s"
    then show "\<exists>s'. delete_unconditional (lossy lost (fake_service cont)) n s = (Ok (), s') \<and> fake_ok s'
        \<and> fake_view cont s' = (fake_view cont s)(n := None)"
      using fake.delete_unconditional_answer[of s cont n] by (auto simp: delete_unconditional_def lossy_def)
  qed (simp add: alone_def)
qed

text \<open>Two blobs are edited; the staging upload of the second takes effect and loses its response.\<close>

definition pair_plan :: modify_plan where
  "pair_plan = (demo_plan example_edits) \<lparr> blob_table := [\<lparr> be_name = ''a.parquet'', chunk_base_row = 0, be_etag = etag_text 1 \<rparr>,
      \<lparr> be_name = ''b.parquet'', chunk_base_row = 0, be_etag = etag_text 1 \<rparr>],
    edits := [(0, example_edits), (1, example_edits)] \<rparr>"

definition two_backend :: "fake_state backend" where
  "two_backend = \<lparr> store = \<lparr> blobs = [(''c/a.parquet'', \<lparr> entry_body = ''abcd'', entry_etag = etag_text 1 \<rparr>),
      (''c/b.parquet'', \<lparr> entry_body = ''abcd'', entry_etag = etag_text 1 \<rparr>)], next_etag_seq = 2 \<rparr>,
    slot = Some coord_new, next_uuid = 0 \<rparr>"

definition two_uuid :: "nat \<Rightarrow> string" where
  "two_uuid i = replicate 32 (if i = 0 then CHR ''0'' else CHR ''1'')"

lemma lossy_get: "get_body_if_match (lossy lost svc) n e s = get_body_if_match svc n e s"
  by (simp add: get_body_if_match_def lossy_calls)

lemma lossy_put:
  "\<not> lost n \<Longrightarrow> put_if_none_match (lossy lost svc) n b s = put_if_none_match svc n b s"
  "lost n \<Longrightarrow> length b \<le> MAX_BLOB_BYTES \<Longrightarrow> put_if_none_match svc n b s = (r, s') \<Longrightarrow>
    put_if_none_match (lossy lost svc) n b s = (Err (azure_error ''reset''), s')"
  by (auto simp: put_if_none_match_def conditional_put_def lossy_def split: prod.splits sum.splits)

lemma two_view: "fake_view ''c'' (store two_backend) n
    = (if n = ''a.parquet'' \<or> n = ''b.parquet'' then Some (''abcd'', etag_text 1) else None)"
  by (simp add: fake_view_def blob_key_def two_backend_def)

lemma two_ok: "fake_ok (store two_backend)" "fake_budget (store two_backend) = u64_MAX - 2" "slot two_backend = Some coord_new"
    "next_uuid two_backend = 0"
  by (auto simp: two_backend_def fake_ok_def fake_budget_def u64_MAX_def intro!: exI[of _ 1])

lemma two_names: "\<not> is_staging_name ''a.parquet''" "\<not> is_staging_name ''b.parquet''"
  by code_simp+

lemma staging_not_original: "make_staging_name u m \<noteq> ''a.parquet''" "make_staging_name u m \<noteq> ''b.parquet''"
  using staging_name_is_staging[of u m] two_names by metis+

lemma two_unused: "unused two_uuid (next_uuid two_backend) (next_uuid two_backend + length (edits pair_plan)) (fake_view ''c'' (store two_backend))"
  using staging_not_original
  by (auto simp: unused_def two_uuid_def two_ok two_view pair_plan_def inj_on_def)

lemma two_staging:
  fixes n0 n1
  defines "n0 \<equiv> make_staging_name (two_uuid 0) ''a.parquet''" and "n1 \<equiv> make_staging_name (two_uuid 1) ''b.parquet''"
  shows "\<exists>be'. stage_all (lossy (\<lambda>n. n = n1) (fake_service ''c'')) byte_lib list_arrow two_uuid pair_plan (sort (map fst (edits pair_plan))) two_backend
      = (Err (azure_error ''reset''), be') \<and> fake_view ''c'' (store be') n0 \<noteq> None \<and> fake_view ''c'' (store be') n1 \<noteq> None"
proof -
  let ?nb = "[CHR ''a'', CHR 0x1E, CHR ''d'']" and ?f = "fake_service ''c''" and ?v = "fake_view ''c''"
  have ne: "n0 \<noteq> n1" "n0 \<noteq> ''b.parquet''"
    using staging_name_inject[OF two_unused, of 0 1] staging_not_original by (auto simp: n0_def n1_def two_ok pair_plan_def)
  have len: "length ?nb \<le> MAX_BLOB_BYTES" "length ''abcd'' \<le> MAX_BLOB_BYTES" by (simp_all add: MAX_BLOB_BYTES_def)
  have "?v (store two_backend) n0 = None" using staging_not_original by (simp add: two_view n0_def)
  from fake.put_if_none_match_answer[OF two_ok(1) _ this len(1)]
  obtain e0 s0 where p0: "put_if_none_match ?f n0 ?nb (store two_backend) = (Ok e0, s0)" "fake_ok s0"
    "?v s0 = (?v (store two_backend))(n0 \<mapsto> (?nb, e0))" "fake_budget s0 = fake_budget (store two_backend) - 1"
    using two_ok(2) by (auto simp: u64_MAX_def)
  have "?v s0 n1 = None" using p0(3) ne(1) staging_not_original by (simp add: two_view n1_def)
  from fake.put_if_none_match_answer[OF p0(2) _ this len(1)]
  obtain e1 s1 where p1: "put_if_none_match ?f n1 ?nb s0 = (Ok e1, s1)" "?v s1 = (?v s0)(n1 \<mapsto> (?nb, e1))"
    using p0(4) two_ok(2) by (auto simp: u64_MAX_def)
  have g0: "get_body_if_match ?f ''a.parquet'' (etag_text 1) (store two_backend) = (Ok ''abcd'', store two_backend)"
    using fake.get_body_if_match_answer[OF two_ok(1) _ len(2)] by (simp add: two_view)
  have g1: "get_body_if_match ?f ''b.parquet'' (etag_text 1) s0 = (Ok ''abcd'', s0)"
    using fake.get_body_if_match_answer[OF p0(2) _ len(2)] p0(3) ne(2) by (simp add: two_view)
  have n1: "make_staging_name (two_uuid (Suc 0)) ''b.parquet'' = n1" by (simp add: n1_def)
  have "stage_all (lossy (\<lambda>n. n = n1) ?f) byte_lib list_arrow two_uuid pair_plan [0, 1] two_backend
      = (Err (azure_error ''reset''), \<lparr> store = s1, slot = Some (register_staging n1 (register_staging n0 [])), next_uuid = 2 \<rparr>)"
    using g0 g1 p0(1) lossy_put(1)[where lost = "\<lambda>n. n = n1" and svc = ?f, OF ne(1)] lossy_put(2)[where lost = "\<lambda>n. n = n1", OF refl len(1) p1(1)]
    by (simp add: stage_blob_def stage_body_def Let_def on_store_def pair_plan_def demo_plan_def edits_of_def lossy_get byte_rewrite
        n0_def[symmetric] n1 two_backend_def with_active_def coord_new_def)
  moreover have "sort (map fst (edits pair_plan)) = [0, 1]" by (simp add: pair_plan_def)
  ultimately show ?thesis using p1(2) p0(3) ne(1) by simp
qed

theorem commit_plan_rolls_back_witness:
  "\<exists>be' s'. let n0 = make_staging_name (two_uuid 0) ''a.parquet''; n1 = make_staging_name (two_uuid 1) ''b.parquet'';
        svc = lossy (\<lambda>n. n = n1) (fake_service ''c'') in
      commit_plan svc byte_lib list_arrow two_uuid pair_plan two_backend = (Err (azure_error ''reset''), be')
    \<and> fake_view ''c'' (store be') n0 \<noteq> None \<and> fake_view ''c'' (store be') n1 \<noteq> None
    \<and> xact_cb svc XACT_EVENT_ABORT (slot be') (store be') = ([], None, s') \<and> fake_view ''c'' s' = fake_view ''c'' (store two_backend)"
proof -
  obtain be' where st: "stage_all (lossy (\<lambda>n. n = make_staging_name (two_uuid 1) ''b.parquet'') (fake_service ''c'')) byte_lib list_arrow
      two_uuid pair_plan (sort (map fst (edits pair_plan))) two_backend = (Err (azure_error ''reset''), be')"
    "fake_view ''c'' (store be') (make_staging_name (two_uuid 0) ''a.parquet'') \<noteq> None"
    "fake_view ''c'' (store be') (make_staging_name (two_uuid 1) ''b.parquet'') \<noteq> None"
    using two_staging by blast
  from commit_plan_rolls_back[OF lossy_fake.quiet_store_axioms two_ok(1,3) two_unused st(1)] st(2,3)
  show ?thesis unfolding Let_def by blast
qed


end
