(* ===== verification/Pushdown.thy ===== *)
theory Pushdown
  imports Multifile
begin

text \<open>
  Qual pushdown, \<^verbatim>\<open>src/fdw/pushdown.rs\<close> and \<^verbatim>\<open>src/fdw/pg_op_oids.rs\<close>: the pushed expressions, the row
  filter evaluated on a batch with arrow's kernels, the pruning of row groups by their statistics,
  the range that replaces a \<^verbatim>\<open>LIKE\<close> prefix, and the operator table.  The comparison and boolean
  kernels of the arrow crate are the record \<open>arrow_cmp\<close>; the locale \<open>arrow_kernels\<close> states what they
  are documented to do and is interpreted on \<open>list_kernels\<close>.

  The reference is \<open>sql_truth\<close>, SQL's three-valued logic.  PostgreSQL checks every qual again, so a
  filter or a pruning step may keep too much, but must not lose a row on which the quals are true.
\<close>

section \<open>Pushed expressions\<close>

datatype pushed_op = Eq | Ne | Lt | Le | Gt | Ge | IsNull | IsNotNull

fun inverse_op :: "pushed_op \<Rightarrow> pushed_op option" where
  "inverse_op Eq = Some Ne"
| "inverse_op Ne = Some Eq"
| "inverse_op Lt = Some Ge"
| "inverse_op Ge = Some Lt"
| "inverse_op Le = Some Gt"
| "inverse_op Gt = Some Le"
| "inverse_op IsNull = Some IsNotNull"
| "inverse_op IsNotNull = Some IsNull"

datatype scalar_value =
    SNull | SBool bool | I16 int | I32 int | I64 int | F32 "32 word" | F64 "64 word" | SUtf8 string
  | SDate32 int | TimestampMicros int | SDecimal128 int nat int

record pushed_qual =
  q_col :: nat
  q_op :: pushed_op
  q_value :: scalar_value

datatype pushed_expr = Leaf pushed_qual | And "pushed_expr list" | Or "pushed_expr list" | Negate pushed_expr

definition is_pushable :: "string \<Rightarrow> data_type \<Rightarrow> bool" where
  "is_pushable op ty \<longleftrightarrow>
    op \<in> {''='', ''<>'', ''<'', ''<='', ''>'', ''>='', ''IS NULL'', ''IS NOT NULL''}
    \<and> (case ty of
         Boolean \<Rightarrow> True | Int16 \<Rightarrow> True | Int32 \<Rightarrow> True | Int64 \<Rightarrow> True | Float32 \<Rightarrow> True | Float64 \<Rightarrow> True
       | Utf8 \<Rightarrow> True | LargeUtf8 \<Rightarrow> True | Date32 \<Rightarrow> True
       | Timestamp _ tz \<Rightarrow> tz = None
       | Decimal128 _ scale \<Rightarrow> scale \<le> 18 \<and> scale \<ge> 0
       | _ \<Rightarrow> False)"

section \<open>The row filter\<close>

text \<open>\<open>eq_k\<close> to \<open>gt_eq_k\<close> are arrow's \<^verbatim>\<open>cmp::eq\<close>, \<^verbatim>\<open>neq\<close>, \<^verbatim>\<open>lt\<close>, \<^verbatim>\<open>lt_eq\<close>, \<^verbatim>\<open>gt\<close> and \<^verbatim>\<open>gt_eq\<close> of an array
  and a scalar; \<open>decimal_k v p s\<close> builds the decimal literal.\<close>

type_synonym cmp_kernel = "arrow_array \<Rightarrow> arrow_array \<Rightarrow> string + bool option list"

record arrow_cmp =
  and_k :: "bool option list \<Rightarrow> bool option list \<Rightarrow> string + bool option list"
  or_k :: "bool option list \<Rightarrow> bool option list \<Rightarrow> string + bool option list"
  not_k :: "bool option list \<Rightarrow> string + bool option list"
  is_null_k :: "arrow_array \<Rightarrow> string + bool option list"
  is_not_null_k :: "arrow_array \<Rightarrow> string + bool option list"
  eq_k :: cmp_kernel
  neq_k :: cmp_kernel
  lt_k :: cmp_kernel
  lt_eq_k :: cmp_kernel
  gt_k :: cmp_kernel
  gt_eq_k :: cmp_kernel
  decimal_k :: "int \<Rightarrow> nat \<Rightarrow> int \<Rightarrow> string + arrow_array"

definition single :: "data_type \<Rightarrow> cell \<Rightarrow> arrow_array" where
  "single t c = \<lparr> data_type_of = t, cells = [Some c] \<rparr>"

fun scalar_to_array :: "arrow_cmp \<Rightarrow> scalar_value \<Rightarrow> data_type \<Rightarrow> arrow_array fdw_result" where
  "scalar_to_array K (SBool b) ty = Ok (single Boolean (CBool b))"
| "scalar_to_array K (I16 x) ty = Ok (single Int16 (CInt x))"
| "scalar_to_array K (I32 x) ty = Ok (single Int32 (CInt x))"
| "scalar_to_array K (I64 x) ty = Ok (single Int64 (CInt x))"
| "scalar_to_array K (F32 x) ty = Ok (single Float32 (CF32 x))"
| "scalar_to_array K (F64 x) ty = Ok (single Float64 (CF64 x))"
| "scalar_to_array K (SUtf8 s) ty = Ok (single (if ty = LargeUtf8 then LargeUtf8 else Utf8) (CStr s))"
| "scalar_to_array K (SDate32 d) ty = Ok (single Date32 (CInt d))"
| "scalar_to_array K (TimestampMicros t) ty = Ok (single (Timestamp Microsecond None) (CInt t))"
| "scalar_to_array K (SDecimal128 v p s) ty = arrow_result (decimal_k K v p s)"
| "scalar_to_array K SNull ty = Err (Arrow ''Null scalar in cmp'')"

definition unreachable :: "'a fdw_result" where
  "unreachable = Err (Panic ''internal error: entered unreachable code'')"

definition eval_leaf :: "arrow_cmp \<Rightarrow> pushed_qual \<Rightarrow> record_batch \<Rightarrow> (nat \<Rightarrow> nat option) \<Rightarrow> bool option list fdw_result" where
  "eval_leaf K q batch local_idx =
    and_then (ok_or (local_idx (q_col q))
      (Arrow (''column '' @ show_nat (q_col q) @ '' missing in predicate batch''))) (\<lambda>idx.
    if idx < length (columns batch) then
      (let col = columns batch ! idx in
       case q_op q of
         IsNull \<Rightarrow> arrow_result (is_null_k K col)
       | IsNotNull \<Rightarrow> arrow_result (is_not_null_k K col)
       | op \<Rightarrow> and_then (scalar_to_array K (q_value q) (data_type_of col)) (\<lambda>scalar.
           case op of
             Eq \<Rightarrow> arrow_result (eq_k K col scalar)
           | Ne \<Rightarrow> arrow_result (neq_k K col scalar)
           | Lt \<Rightarrow> arrow_result (lt_k K col scalar)
           | Le \<Rightarrow> arrow_result (lt_eq_k K col scalar)
           | Gt \<Rightarrow> arrow_result (gt_k K col scalar)
           | Ge \<Rightarrow> arrow_result (gt_eq_k K col scalar)
           | _ \<Rightarrow> unreachable))
    else Err (Panic ''index out of bounds''))"

text \<open>The loops over the operands of a conjunction and a disjunction, with their accumulator.\<close>

fun eval :: "arrow_cmp \<Rightarrow> record_batch \<Rightarrow> (nat \<Rightarrow> nat option) \<Rightarrow> pushed_expr \<Rightarrow> bool option list fdw_result"
  and eval_and :: "arrow_cmp \<Rightarrow> record_batch \<Rightarrow> (nat \<Rightarrow> nat option) \<Rightarrow> pushed_expr list \<Rightarrow> bool option list option
    \<Rightarrow> bool option list fdw_result"
  and eval_or :: "arrow_cmp \<Rightarrow> record_batch \<Rightarrow> (nat \<Rightarrow> nat option) \<Rightarrow> pushed_expr list \<Rightarrow> bool option list option
    \<Rightarrow> bool option list fdw_result" where
  "eval K batch li (Leaf q) = eval_leaf K q batch li"
| "eval K batch li (And xs) = eval_and K batch li xs None"
| "eval K batch li (Or xs) = eval_or K batch li xs None"
| "eval K batch li (Negate x) = and_then (eval K batch li x) (\<lambda>b. arrow_result (not_k K b))"
| "eval_and K batch li [] acc = Ok (case acc of None \<Rightarrow> replicate (num_rows batch) (Some True) | Some a \<Rightarrow> a)"
| "eval_and K batch li (x # xs) acc =
    and_then (eval K batch li x) (\<lambda>b.
    and_then (case acc of None \<Rightarrow> Ok b | Some a \<Rightarrow> arrow_result (and_k K a b)) (\<lambda>c.
    eval_and K batch li xs (Some c)))"
| "eval_or K batch li [] acc = Ok (case acc of None \<Rightarrow> replicate (num_rows batch) (Some False) | Some a \<Rightarrow> a)"
| "eval_or K batch li (x # xs) acc =
    and_then (eval K batch li x) (\<lambda>b.
    and_then (case acc of None \<Rightarrow> Ok b | Some a \<Rightarrow> arrow_result (or_k K a b)) (\<lambda>c.
    eval_or K batch li xs (Some c)))"

fun walk_cols :: "pushed_expr \<Rightarrow> nat list \<Rightarrow> nat list" where
  "walk_cols (Leaf q) out = (if q_col q \<in> set out then out else out @ [q_col q])"
| "walk_cols (And xs) out = fold walk_cols xs out"
| "walk_cols (Or xs) out = fold walk_cols xs out"
| "walk_cols (Negate x) out = walk_cols x out"

definition collect_cols :: "pushed_expr \<Rightarrow> nat list" where
  "collect_cols e = walk_cols e []"

fun position :: "('a \<Rightarrow> bool) \<Rightarrow> 'a list \<Rightarrow> nat option" where
  "position P [] = None"
| "position P (x # xs) = (if P x then Some 0 else map_option Suc (position P xs))"

text \<open>A predicate is the root columns of its projection mask and the function run on the projected
  batch.\<close>

record predicate =
  mask_roots :: "nat list"
  run_predicate :: "record_batch \<Rightarrow> bool option list fdw_result"

definition expr_predicate :: "arrow_cmp \<Rightarrow> pushed_expr \<Rightarrow> predicate" where
  "expr_predicate K e =
    (let cols = collect_cols e in
     \<lparr> mask_roots = cols, run_predicate = (\<lambda>batch. eval K batch (\<lambda>g. position (\<lambda>c. c = g) cols) e) \<rparr>)"

definition build_row_filter :: "arrow_cmp \<Rightarrow> pushed_expr list \<Rightarrow> predicate list option" where
  "build_row_filter K exprs = (if exprs = [] then None else Some (map (expr_predicate K) exprs))"

section \<open>Row-group pruning\<close>

record 'a typed_stats =
  min_opt :: "'a option"
  max_opt :: "'a option"

datatype pq_stats =
    StInt32 "int typed_stats" | StInt64 "int typed_stats" | StFloat "32 word typed_stats" | StDouble "64 word typed_stats"
  | StByteArray "string typed_stats" | StBoolean "bool typed_stats" | StOther

record column_stats =
  null_count_opt :: "nat option"
  typed :: pq_stats

record column_chunk =
  statistics :: "column_stats option"
  num_values :: nat

type_synonym row_group = "column_chunk list"

datatype rg_verdict = CannotMatch | CanMatch | Indeterminate

text \<open>\<^verbatim>\<open>PartialOrd\<close> as the three relations the code uses; for floats they are all false on a NaN and do
  not tell the two zeros apart.\<close>

record 'a partial_ord =
  lt_r :: "'a \<Rightarrow> 'a \<Rightarrow> bool"
  le_r :: "'a \<Rightarrow> 'a \<Rightarrow> bool"
  eq_r :: "'a \<Rightarrow> 'a \<Rightarrow> bool"

definition total_ord :: "'a::linorder partial_ord" where
  "total_ord = \<lparr> lt_r = (<), le_r = (\<le>), eq_r = (=) \<rparr>"

definition f64_nan :: "64 word \<Rightarrow> bool" where
  "f64_nan w \<longleftrightarrow> uint w mod 2 ^ 63 > 2047 * 2 ^ 52"

definition f64_value_key :: "64 word \<Rightarrow> int" where
  "f64_value_key w = (if uint w = 2 ^ 63 then 0 else total_key w)"

definition f64_ord :: "64 word partial_ord" where
  "f64_ord = \<lparr> lt_r = (\<lambda>a b. \<not> f64_nan a \<and> \<not> f64_nan b \<and> f64_value_key a < f64_value_key b),
    le_r = (\<lambda>a b. \<not> f64_nan a \<and> \<not> f64_nan b \<and> f64_value_key a \<le> f64_value_key b),
    eq_r = (\<lambda>a b. \<not> f64_nan a \<and> \<not> f64_nan b \<and> f64_value_key a = f64_value_key b) \<rparr>"

definition f32_ord :: "32 word partial_ord" where
  "f32_ord = \<lparr> lt_r = (\<lambda>a b. lt_r f64_ord (f32_to_f64 a) (f32_to_f64 b)),
    le_r = (\<lambda>a b. le_r f64_ord (f32_to_f64 a) (f32_to_f64 b)),
    eq_r = (\<lambda>a b. eq_r f64_ord (f32_to_f64 a) (f32_to_f64 b)) \<rparr>"

definition cannot_if :: "bool \<Rightarrow> rg_verdict fdw_result" where
  "cannot_if b = Ok (if b then CannotMatch else CanMatch)"

definition cmp_verdict :: "'a partial_ord \<Rightarrow> pushed_op \<Rightarrow> 'a \<Rightarrow> 'a option \<Rightarrow> 'a option \<Rightarrow> rg_verdict fdw_result" where
  "cmp_verdict R op lit mn mx =
    (case (mn, mx) of
       (Some mn, Some mx) \<Rightarrow>
         (case op of
            Eq \<Rightarrow> cannot_if (lt_r R lit mn \<or> lt_r R mx lit)
          | Ne \<Rightarrow> cannot_if (eq_r R mn mx \<and> eq_r R lit mn)
          | Lt \<Rightarrow> cannot_if (le_r R lit mn)
          | Le \<Rightarrow> cannot_if (lt_r R lit mn)
          | Gt \<Rightarrow> cannot_if (le_r R mx lit)
          | Ge \<Rightarrow> cannot_if (lt_r R mx lit)
          | IsNull \<Rightarrow> unreachable
          | IsNotNull \<Rightarrow> unreachable)
     | _ \<Rightarrow> Ok Indeterminate)"

definition cmp_verdict_bytes :: "pushed_op \<Rightarrow> string \<Rightarrow> string option \<Rightarrow> string option \<Rightarrow> rg_verdict fdw_result" where
  "cmp_verdict_bytes op lit mn mx =
    (case (mn, mx) of
       (Some mn, Some mx) \<Rightarrow>
         (case op of
            Eq \<Rightarrow> cannot_if (lit < mn \<or> lit > mx)
          | Ne \<Rightarrow> cannot_if (mn = mx \<and> lit = mn)
          | Lt \<Rightarrow> cannot_if (mn \<ge> lit)
          | Le \<Rightarrow> cannot_if (mn > lit)
          | Gt \<Rightarrow> cannot_if (mx \<le> lit)
          | Ge \<Rightarrow> cannot_if (mx < lit)
          | IsNull \<Rightarrow> unreachable
          | IsNotNull \<Rightarrow> unreachable)
     | _ \<Rightarrow> Ok Indeterminate)"

definition bool_verdict :: "pushed_op \<Rightarrow> bool \<Rightarrow> bool typed_stats \<Rightarrow> rg_verdict" where
  "bool_verdict op v s =
    (case (min_opt s, max_opt s) of
       (Some mn, Some mx) \<Rightarrow>
         (case op of
            Eq \<Rightarrow> if v = mn \<and> v = mx then CanMatch else if v \<noteq> mn \<and> v \<noteq> mx then CannotMatch else CanMatch
          | Ne \<Rightarrow> if v = mn \<and> v = mx then CannotMatch else CanMatch
          | _ \<Rightarrow> Indeterminate)
     | _ \<Rightarrow> Indeterminate)"

definition typed_verdict :: "pushed_qual \<Rightarrow> pq_stats \<Rightarrow> rg_verdict fdw_result" where
  "typed_verdict q st =
    (case (q_value q, st) of
       (I32 v, StInt32 s) \<Rightarrow> cmp_verdict total_ord (q_op q) v (min_opt s) (max_opt s)
     | (I64 v, StInt64 s) \<Rightarrow> cmp_verdict total_ord (q_op q) v (min_opt s) (max_opt s)
     | (I16 v, StInt32 s) \<Rightarrow> cmp_verdict total_ord (q_op q) v (min_opt s) (max_opt s)
     | (F32 v, StFloat s) \<Rightarrow> cmp_verdict f32_ord (q_op q) v (min_opt s) (max_opt s)
     | (F64 v, StDouble s) \<Rightarrow> cmp_verdict f64_ord (q_op q) v (min_opt s) (max_opt s)
     | (SDate32 v, StInt32 s) \<Rightarrow> cmp_verdict total_ord (q_op q) v (min_opt s) (max_opt s)
     | (TimestampMicros v, StInt64 s) \<Rightarrow> cmp_verdict total_ord (q_op q) v (min_opt s) (max_opt s)
     | (SUtf8 v, StByteArray s) \<Rightarrow> cmp_verdict_bytes (q_op q) v (min_opt s) (max_opt s)
     | (SBool v, StBoolean s) \<Rightarrow> Ok (bool_verdict (q_op q) v s)
     | _ \<Rightarrow> Ok Indeterminate)"

definition evaluate_leaf_against_rg :: "pushed_qual \<Rightarrow> row_group \<Rightarrow> schema \<Rightarrow> rg_verdict fdw_result" where
  "evaluate_leaf_against_rg q rg sch =
    (if q_col q \<ge> length sch then Ok Indeterminate
     else if q_col q \<ge> length rg then Ok Indeterminate
     else
      (let col = rg ! q_col q in
       case statistics col of
         None \<Rightarrow> Ok Indeterminate
       | Some stats \<Rightarrow>
           (case q_op q of
              IsNull \<Rightarrow> Ok (case null_count_opt stats of None \<Rightarrow> Indeterminate | Some n \<Rightarrow> if n = 0 then CannotMatch else CanMatch)
            | IsNotNull \<Rightarrow> Ok (case null_count_opt stats of None \<Rightarrow> Indeterminate
                | Some n \<Rightarrow> if n \<ge> num_values col then CannotMatch else CanMatch)
            | _ \<Rightarrow> typed_verdict q (typed stats))))"

text \<open>\<open>rg_and\<close> returns at the first operand that cannot match; \<open>rg_or\<close> looks at all of them.\<close>

fun evaluate_against_rg :: "row_group \<Rightarrow> schema \<Rightarrow> pushed_expr \<Rightarrow> rg_verdict fdw_result"
  and rg_and :: "row_group \<Rightarrow> schema \<Rightarrow> pushed_expr list \<Rightarrow> bool \<Rightarrow> rg_verdict fdw_result"
  and rg_or :: "row_group \<Rightarrow> schema \<Rightarrow> pushed_expr list \<Rightarrow> bool \<Rightarrow> bool \<Rightarrow> rg_verdict fdw_result" where
  "evaluate_against_rg rg sch (Leaf q) = evaluate_leaf_against_rg q rg sch"
| "evaluate_against_rg rg sch (And xs) = rg_and rg sch xs True"
| "evaluate_against_rg rg sch (Or xs) = rg_or rg sch xs True False"
| "evaluate_against_rg rg sch (Negate x) = Ok Indeterminate"
| "rg_and rg sch [] all_can = Ok (if all_can then CanMatch else Indeterminate)"
| "rg_and rg sch (x # xs) all_can =
    and_then (evaluate_against_rg rg sch x) (\<lambda>v. case v of
      CannotMatch \<Rightarrow> Ok CannotMatch
    | Indeterminate \<Rightarrow> rg_and rg sch xs False
    | CanMatch \<Rightarrow> rg_and rg sch xs all_can)"
| "rg_or rg sch [] all_cannot any_can =
    Ok (if any_can then CanMatch else if all_cannot then CannotMatch else Indeterminate)"
| "rg_or rg sch (x # xs) all_cannot any_can =
    and_then (evaluate_against_rg rg sch x) (\<lambda>v. case v of
      CanMatch \<Rightarrow> rg_or rg sch xs all_cannot True
    | CannotMatch \<Rightarrow> rg_or rg sch xs all_cannot any_can
    | Indeterminate \<Rightarrow> rg_or rg sch xs False any_can)"

text \<open>The inner loop over the expressions gives whether the group survives and whether some
  statistics were decisive; the outer loop collects the survivors.\<close>

fun rg_survives :: "row_group \<Rightarrow> schema \<Rightarrow> pushed_expr list \<Rightarrow> bool \<Rightarrow> (bool \<times> bool) fdw_result" where
  "rg_survives rg sch [] det = Ok (True, det)"
| "rg_survives rg sch (e # es) det =
    and_then (evaluate_against_rg rg sch e) (\<lambda>v. case v of
      CannotMatch \<Rightarrow> Ok (False, True)
    | CanMatch \<Rightarrow> rg_survives rg sch es True
    | Indeterminate \<Rightarrow> rg_survives rg sch es det)"

fun prune_loop :: "row_group list \<Rightarrow> nat \<Rightarrow> pushed_expr list \<Rightarrow> schema \<Rightarrow> bool \<Rightarrow> nat list \<Rightarrow> nat list option fdw_result" where
  "prune_loop [] i exprs sch det keep = Ok (if det then Some keep else None)"
| "prune_loop (rg # rgs) i exprs sch det keep =
    and_then (rg_survives rg sch exprs det) (\<lambda>(survives, det').
    prune_loop rgs (Suc i) exprs sch det' (if survives then keep @ [i] else keep))"

definition prune_row_groups :: "row_group list \<Rightarrow> pushed_expr list \<Rightarrow> schema \<Rightarrow> nat list option fdw_result" where
  "prune_row_groups meta exprs sch = (if exprs = [] then Ok None else prune_loop meta 0 exprs sch False [])"

section \<open>Ranges for prefixes, and column translation\<close>

text \<open>The loop pops the trailing bytes \<^verbatim>\<open>0xFF\<close>; it runs on the reversed bytes.\<close>

fun bump_last :: "string \<Rightarrow> string option" where
  "bump_last [] = None"
| "bump_last (c # cs) =
    (if byte_val c < 0xFF then Some (rev (char_of (byte_val c + 1) # cs)) else bump_last cs)"

definition next_lex_upper :: "string \<Rightarrow> string option" where
  "next_lex_upper pre =
    (case bump_last (rev pre) of
       None \<Rightarrow> None
     | Some b \<Rightarrow> if utf8_valid b then Some b else None)"

fun option_all :: "'a option list \<Rightarrow> 'a list option" where
  "option_all [] = Some []"
| "option_all (x # xs) = (case x of None \<Rightarrow> None | Some a \<Rightarrow> map_option (\<lambda>as. a # as) (option_all xs))"

fun translate_qual_to_parquet_idx :: "nat option list \<Rightarrow> pushed_expr \<Rightarrow> pushed_expr option" where
  "translate_qual_to_parquet_idx m (Leaf q) =
    (if q_col q < length m then map_option (\<lambda>p. Leaf (q \<lparr> q_col := p \<rparr>)) (m ! q_col q) else None)"
| "translate_qual_to_parquet_idx m (And xs) = map_option And (option_all (map (translate_qual_to_parquet_idx m) xs))"
| "translate_qual_to_parquet_idx m (Or xs) = map_option Or (option_all (map (translate_qual_to_parquet_idx m) xs))"
| "translate_qual_to_parquet_idx m (Negate x) = map_option Negate (translate_qual_to_parquet_idx m x)"

section \<open>The operator table\<close>

definition PUSHABLE_OPS :: "(nat \<times> pushed_op \<times> data_type \<times> data_type) list" where
  "PUSHABLE_OPS = [
    (94, Eq, Int16, Int16), (519, Ne, Int16, Int16), (95, Lt, Int16, Int16),
    (522, Le, Int16, Int16), (520, Gt, Int16, Int16), (524, Ge, Int16, Int16),
    (96, Eq, Int32, Int32), (518, Ne, Int32, Int32), (97, Lt, Int32, Int32),
    (523, Le, Int32, Int32), (521, Gt, Int32, Int32), (525, Ge, Int32, Int32),
    (410, Eq, Int64, Int64), (411, Ne, Int64, Int64), (412, Lt, Int64, Int64),
    (414, Le, Int64, Int64), (413, Gt, Int64, Int64), (415, Ge, Int64, Int64),
    (620, Eq, Float32, Float32), (621, Ne, Float32, Float32), (622, Lt, Float32, Float32),
    (624, Le, Float32, Float32), (623, Gt, Float32, Float32), (625, Ge, Float32, Float32),
    (670, Eq, Float64, Float64), (671, Ne, Float64, Float64), (672, Lt, Float64, Float64),
    (673, Le, Float64, Float64), (674, Gt, Float64, Float64), (675, Ge, Float64, Float64),
    (98, Eq, Utf8, Utf8), (531, Ne, Utf8, Utf8), (664, Lt, Utf8, Utf8),
    (665, Le, Utf8, Utf8), (666, Gt, Utf8, Utf8), (667, Ge, Utf8, Utf8),
    (1093, Eq, Date32, Date32), (1094, Ne, Date32, Date32), (1095, Lt, Date32, Date32),
    (1096, Le, Date32, Date32), (1097, Gt, Date32, Date32), (1098, Ge, Date32, Date32)]"

definition lookup_op :: "nat \<Rightarrow> (pushed_op \<times> data_type \<times> data_type) option" where
  "lookup_op opno = map_option snd (find (\<lambda>(oid, _). oid = opno) PUSHABLE_OPS)"

section \<open>SQL and arrow truth\<close>

text \<open>The order of values: arrow compares floats by \<^verbatim>\<open>totalOrder\<close>, PostgreSQL makes NaN the greatest
  value and the zeros equal.  Text is compared bytewise, as under the \<^verbatim>\<open>C\<close> collation.\<close>

definition total_key32 :: "32 word \<Rightarrow> int" where
  "total_key32 w = (if sint w < 0 then sint (w XOR 0x7FFFFFFF) else sint w)"

fun arrow_less :: "cell \<Rightarrow> cell \<Rightarrow> bool" where
  "arrow_less (CBool a) (CBool b) = (\<not> a \<and> b)"
| "arrow_less (CInt a) (CInt b) = (a < b)"
| "arrow_less (CF32 a) (CF32 b) = (total_key32 a < total_key32 b)"
| "arrow_less (CF64 a) (CF64 b) = (total_key a < total_key b)"
| "arrow_less (CStr a) (CStr b) = (a < b)"
| "arrow_less _ _ = False"

definition pg_float_less :: "64 word \<Rightarrow> 64 word \<Rightarrow> bool" where
  "pg_float_less a b \<longleftrightarrow> (if f64_nan b then \<not> f64_nan a else \<not> f64_nan a \<and> f64_value_key a < f64_value_key b)"

fun sql_less :: "cell \<Rightarrow> cell \<Rightarrow> bool" where
  "sql_less (CF32 a) (CF32 b) = pg_float_less (f32_to_f64 a) (f32_to_f64 b)"
| "sql_less (CF64 a) (CF64 b) = pg_float_less a b"
| "sql_less a b = arrow_less a b"

fun cell_cmp :: "(cell \<Rightarrow> cell \<Rightarrow> bool) \<Rightarrow> pushed_op \<Rightarrow> cell \<Rightarrow> cell \<Rightarrow> bool" where
  "cell_cmp lt Eq a b = (\<not> lt a b \<and> \<not> lt b a)"
| "cell_cmp lt Ne a b = (lt a b \<or> lt b a)"
| "cell_cmp lt Lt a b = lt a b"
| "cell_cmp lt Le a b = (\<not> lt b a)"
| "cell_cmp lt Gt a b = lt b a"
| "cell_cmp lt Ge a b = (\<not> lt a b)"
| "cell_cmp lt _ a b = False"

fun scalar_cell :: "scalar_value \<Rightarrow> cell option" where
  "scalar_cell SNull = None"
| "scalar_cell (SBool b) = Some (CBool b)"
| "scalar_cell (I16 i) = Some (CInt i)"
| "scalar_cell (I32 i) = Some (CInt i)"
| "scalar_cell (I64 i) = Some (CInt i)"
| "scalar_cell (F32 w) = Some (CF32 w)"
| "scalar_cell (F64 w) = Some (CF64 w)"
| "scalar_cell (SUtf8 s) = Some (CStr s)"
| "scalar_cell (SDate32 i) = Some (CInt i)"
| "scalar_cell (TimestampMicros i) = Some (CInt i)"
| "scalar_cell (SDecimal128 i p s) = Some (CInt i)"

definition qual_truth :: "(cell \<Rightarrow> cell \<Rightarrow> bool) \<Rightarrow> pushed_qual \<Rightarrow> cell option \<Rightarrow> bool option" where
  "qual_truth lt q c =
    (case q_op q of
       IsNull \<Rightarrow> Some (c = None)
     | IsNotNull \<Rightarrow> Some (c \<noteq> None)
     | op \<Rightarrow> (case (c, scalar_cell (q_value q)) of
         (Some v, Some l) \<Rightarrow> Some (cell_cmp lt op v l)
       | _ \<Rightarrow> None))"

fun kleene_and :: "bool option \<Rightarrow> bool option \<Rightarrow> bool option" where
  "kleene_and (Some False) b = Some False"
| "kleene_and (Some True) b = b"
| "kleene_and None b = (if b = Some False then Some False else None)"

fun kleene_or :: "bool option \<Rightarrow> bool option \<Rightarrow> bool option" where
  "kleene_or (Some True) b = Some True"
| "kleene_or (Some False) b = b"
| "kleene_or None b = (if b = Some True then Some True else None)"

text \<open>Arrow's \<^verbatim>\<open>and\<close> and \<^verbatim>\<open>or\<close> give null as soon as one side is null.\<close>

fun strict_and :: "bool option \<Rightarrow> bool option \<Rightarrow> bool option" where
  "strict_and (Some a) (Some b) = Some (a \<and> b)"
| "strict_and _ _ = None"

fun strict_or :: "bool option \<Rightarrow> bool option \<Rightarrow> bool option" where
  "strict_or (Some a) (Some b) = Some (a \<or> b)"
| "strict_or _ _ = None"

type_synonym row = "cell option list"

fun sql_truth :: "row \<Rightarrow> pushed_expr \<Rightarrow> bool option" where
  "sql_truth row (Leaf q) = qual_truth sql_less q (row ! q_col q)"
| "sql_truth row (And xs) = foldl kleene_and (Some True) (map (sql_truth row) xs)"
| "sql_truth row (Or xs) = foldl kleene_or (Some False) (map (sql_truth row) xs)"
| "sql_truth row (Negate x) = map_option Not (sql_truth row x)"

fun arrow_truth :: "row \<Rightarrow> pushed_expr \<Rightarrow> bool option" where
  "arrow_truth row (Leaf q) = qual_truth arrow_less q (row ! q_col q)"
| "arrow_truth row (And xs) = foldl strict_and (Some True) (map (arrow_truth row) xs)"
| "arrow_truth row (Or xs) = foldl strict_or (Some False) (map (arrow_truth row) xs)"
| "arrow_truth row (Negate x) = map_option Not (arrow_truth row x)"

lemma foldl_kleene_and: "foldl kleene_and (Some True) bs = Some True \<longleftrightarrow> (\<forall>b \<in> set bs. b = Some True)"
proof -
  have "foldl kleene_and a bs = Some True \<longleftrightarrow> a = Some True \<and> (\<forall>b \<in> set bs. b = Some True)" for a
  proof (induction bs arbitrary: a)
    case (Cons b bs)
    show ?case unfolding foldl_Cons Cons.IH by (cases "(a, b)" rule: kleene_and.cases) auto
  qed simp
  then show ?thesis by simp
qed

lemma foldl_kleene_or: "foldl kleene_or (Some False) bs = Some True \<longleftrightarrow> Some True \<in> set bs"
proof -
  have "foldl kleene_or a bs = Some True \<longleftrightarrow> a = Some True \<or> Some True \<in> set bs" for a
  proof (induction bs arbitrary: a)
    case (Cons b bs)
    show ?case unfolding foldl_Cons Cons.IH by (cases "(a, b)" rule: kleene_or.cases) auto
  qed simp
  then show ?thesis by simp
qed

lemma foldl_strict_and: "\<forall>b \<in> set bs. b = Some True \<Longrightarrow> foldl strict_and (Some True) bs = Some True"
  by (induction bs) auto

lemma kleene_Some [simp]: "kleene_and (Some a) (Some b) = Some (a \<and> b)" "kleene_or (Some a) (Some b) = Some (a \<or> b)"
  by (cases a; simp)+

lemma foldl_strict_kleene:
  assumes "\<forall>b \<in> set bs. b \<noteq> None"
  shows "foldl strict_and (Some a) bs = foldl kleene_and (Some a) bs \<and> foldl kleene_and (Some a) bs \<noteq> None"
    "foldl strict_or (Some a) bs = foldl kleene_or (Some a) bs \<and> foldl kleene_or (Some a) bs \<noteq> None"
  using assms by (induction bs arbitrary: a) auto

text \<open>Where arrow and SQL agree: literals that are not floats, and no null under a disjunction or a
  negation.\<close>

fun float_free :: "pushed_expr \<Rightarrow> bool" where
  "float_free (Leaf q) = (case q_value q of F32 _ \<Rightarrow> False | F64 _ \<Rightarrow> False | _ \<Rightarrow> True)"
| "float_free (And xs) = list_all float_free xs"
| "float_free (Or xs) = list_all float_free xs"
| "float_free (Negate x) = float_free x"

fun null_free :: "row \<Rightarrow> pushed_expr \<Rightarrow> bool" where
  "null_free row (Leaf q) = (qual_truth sql_less q (row ! q_col q) \<noteq> None)"
| "null_free row (And xs) = list_all (null_free row) xs"
| "null_free row (Or xs) = list_all (null_free row) xs"
| "null_free row (Negate x) = null_free row x"

fun or_safe :: "row \<Rightarrow> pushed_expr \<Rightarrow> bool" where
  "or_safe row (Leaf q) = True"
| "or_safe row (And xs) = list_all (or_safe row) xs"
| "or_safe row (Or xs) = list_all (null_free row) xs"
| "or_safe row (Negate x) = null_free row x"

lemma sql_arrow_less: "(case v of F32 _ \<Rightarrow> False | F64 _ \<Rightarrow> False | _ \<Rightarrow> True) \<Longrightarrow> scalar_cell v = Some l \<Longrightarrow>
    sql_less c l = arrow_less c l \<and> sql_less l c = arrow_less l c"
  by (cases v; cases c) auto

lemma qual_truth_agree: "float_free (Leaf q) \<Longrightarrow> qual_truth arrow_less q c = qual_truth sql_less q c"
  using sql_arrow_less[of "q_value q"]
  by (cases "q_op q"; cases c; cases "scalar_cell (q_value q)") (auto simp: qual_truth_def)

lemma null_free_agree: "float_free e \<Longrightarrow> null_free row e \<Longrightarrow> arrow_truth row e = sql_truth row e \<and> sql_truth row e \<noteq> None"
proof (induction e)
  case (And xs)
  then have m: "map (arrow_truth row) xs = map (sql_truth row) xs" and n: "\<forall>b \<in> set (map (sql_truth row) xs). b \<noteq> None"
    by (auto simp: list_all_iff)
  show ?case using foldl_strict_kleene(1)[OF n, of True] unfolding arrow_truth.simps sql_truth.simps m by simp
next
  case (Or xs)
  then have m: "map (arrow_truth row) xs = map (sql_truth row) xs" and n: "\<forall>b \<in> set (map (sql_truth row) xs). b \<noteq> None"
    by (auto simp: list_all_iff)
  show ?case using foldl_strict_kleene(2)[OF n, of False] unfolding arrow_truth.simps sql_truth.simps m by simp
qed (auto simp: qual_truth_agree)

lemma arrow_keeps: "float_free e \<Longrightarrow> or_safe row e \<Longrightarrow> sql_truth row e = Some True \<Longrightarrow> arrow_truth row e = Some True"
proof (induction e)
  case (And xs)
  then have "\<forall>b \<in> set (map (arrow_truth row) xs). b = Some True"
    by (auto simp: list_all_iff foldl_kleene_and)
  then show ?case by (simp add: foldl_strict_and)
next
  case (Or xs)
  then show ?case using null_free_agree[of "Or xs" row] by simp
next
  case (Negate x)
  then show ?case using null_free_agree[of "Negate x" row] by simp
qed (auto simp: qual_truth_agree)

section \<open>The row filter computes arrow truth\<close>

text \<open>The documented behaviour of the kernels.  Comparison wants an array and a scalar of one type, and is
  null where the array is.\<close>

definition kernel_compares :: "cmp_kernel \<Rightarrow> (cell \<Rightarrow> cell \<Rightarrow> bool) \<Rightarrow> bool" where
  "kernel_compares k R \<longleftrightarrow>
    (\<forall>arr l. (\<nexists>n. data_type_of arr = OtherType n) \<and> wf_array arr \<and> cell_ok (data_type_of arr) l \<longrightarrow>
      k arr (single (data_type_of arr) l) = Inr (map (map_option (\<lambda>v. R v l)) (cells arr)))
    \<and> (\<forall>arr t l. data_type_of arr \<noteq> t \<longrightarrow> (\<exists>e. k arr (single t l) = Inl e))"

locale arrow_kernels =
  fixes K :: arrow_cmp
  assumes and_k: "length a = length b \<Longrightarrow> and_k K a b = Inr (map2 strict_and a b)"
    and or_k: "length a = length b \<Longrightarrow> or_k K a b = Inr (map2 strict_or a b)"
    and not_k: "not_k K a = Inr (map (map_option Not) a)"
    and is_null_k: "is_null_k K arr = Inr (map (\<lambda>c. Some (c = None)) (cells arr))"
    and is_not_null_k: "is_not_null_k K arr = Inr (map (\<lambda>c. Some (c \<noteq> None)) (cells arr))"
    and eq_k: "kernel_compares (eq_k K) (\<lambda>v l. \<not> arrow_less v l \<and> \<not> arrow_less l v)"
    and neq_k: "kernel_compares (neq_k K) (\<lambda>v l. arrow_less v l \<or> arrow_less l v)"
    and lt_k: "kernel_compares (lt_k K) (\<lambda>v l. arrow_less v l)"
    and lt_eq_k: "kernel_compares (lt_eq_k K) (\<lambda>v l. \<not> arrow_less l v)"
    and gt_k: "kernel_compares (gt_k K) (\<lambda>v l. arrow_less l v)"
    and gt_eq_k: "kernel_compares (gt_eq_k K) (\<lambda>v l. \<not> arrow_less v l)"
    and decimal_k: "1 \<le> p \<Longrightarrow> p \<le> 38 \<Longrightarrow> s \<le> int p \<Longrightarrow> decimal_k K v p s = Inr (single (Decimal128 p s) (CInt v))"

definition list_compare :: "(cell \<Rightarrow> cell \<Rightarrow> bool) \<Rightarrow> cmp_kernel" where
  "list_compare R a s =
    (case cells s of
       [Some l] \<Rightarrow> if data_type_of a = data_type_of s then Inr (map (map_option (\<lambda>v. R v l)) (cells a)) else Inl ''type mismatch''
     | _ \<Rightarrow> Inl ''not a scalar'')"

lemma list_compare_compares: "kernel_compares (list_compare R) R"
  by (auto simp: kernel_compares_def list_compare_def single_def)

definition list_kernels :: arrow_cmp where
  "list_kernels = \<lparr>
    and_k = (\<lambda>a b. if length a = length b then Inr (map2 strict_and a b) else Inl ''length mismatch''),
    or_k = (\<lambda>a b. if length a = length b then Inr (map2 strict_or a b) else Inl ''length mismatch''),
    not_k = (\<lambda>a. Inr (map (map_option Not) a)),
    is_null_k = (\<lambda>a. Inr (map (\<lambda>c. Some (c = None)) (cells a))),
    is_not_null_k = (\<lambda>a. Inr (map (\<lambda>c. Some (c \<noteq> None)) (cells a))),
    eq_k = list_compare (\<lambda>v l. \<not> arrow_less v l \<and> \<not> arrow_less l v),
    neq_k = list_compare (\<lambda>v l. arrow_less v l \<or> arrow_less l v),
    lt_k = list_compare (\<lambda>v l. arrow_less v l),
    lt_eq_k = list_compare (\<lambda>v l. \<not> arrow_less l v),
    gt_k = list_compare (\<lambda>v l. arrow_less l v),
    gt_eq_k = list_compare (\<lambda>v l. \<not> arrow_less v l),
    decimal_k = (\<lambda>v p s. if 1 \<le> p \<and> p \<le> 38 \<and> s \<le> int p then Inr (single (Decimal128 p s) (CInt v)) else Inl ''precision'') \<rparr>"

interpretation lk: arrow_kernels list_kernels
  by unfold_locales (simp_all add: list_kernels_def list_compare_compares)

text \<open>The literal has the type of its column, as the operator table of the walker makes sure.\<close>

definition literal_fits :: "data_type \<Rightarrow> scalar_value \<Rightarrow> bool" where
  "literal_fits t v \<longleftrightarrow>
    (case v of
       SNull \<Rightarrow> False
     | SBool b \<Rightarrow> t = Boolean
     | I16 i \<Rightarrow> t = Int16 \<and> cell_ok Int16 (CInt i)
     | I32 i \<Rightarrow> t = Int32 \<and> cell_ok Int32 (CInt i)
     | I64 i \<Rightarrow> t = Int64 \<and> cell_ok Int64 (CInt i)
     | F32 w \<Rightarrow> t = Float32
     | F64 w \<Rightarrow> t = Float64
     | SUtf8 s \<Rightarrow> t = Utf8 \<or> t = LargeUtf8
     | SDate32 i \<Rightarrow> t = Date32 \<and> cell_ok Date32 (CInt i)
     | TimestampMicros i \<Rightarrow> t = Timestamp Microsecond None \<and> cell_ok Int64 (CInt i)
     | SDecimal128 i p s \<Rightarrow> t = Decimal128 p s \<and> 1 \<le> p \<and> p \<le> 38 \<and> s \<le> int p \<and> cell_ok t (CInt i))"

fun expr_fits :: "schema \<Rightarrow> pushed_expr \<Rightarrow> bool" where
  "expr_fits sch (Leaf q) = (q_col q < length sch
    \<and> (q_op q \<in> {IsNull, IsNotNull} \<or> literal_fits (field_type (sch ! q_col q)) (q_value q)))"
| "expr_fits sch (And xs) = list_all (expr_fits sch) xs"
| "expr_fits sch (Or xs) = list_all (expr_fits sch) xs"
| "expr_fits sch (Negate x) = expr_fits sch x"

fun expr_cols :: "pushed_expr \<Rightarrow> nat set" where
  "expr_cols (Leaf q) = {q_col q}"
| "expr_cols (And xs) = \<Union> (expr_cols ` set xs)"
| "expr_cols (Or xs) = \<Union> (expr_cols ` set xs)"
| "expr_cols (Negate x) = expr_cols x"

lemma walk_cols_set: "set (walk_cols e out) = set out \<union> expr_cols e \<and> (distinct out \<longrightarrow> distinct (walk_cols e out))"
proof (induction e arbitrary: out)
  case (And xs)
  then show ?case by (induction xs arbitrary: out) auto
next
  case (Or xs)
  then show ?case by (induction xs arbitrary: out) auto
qed auto

lemma collect_cols_set: "set (collect_cols e) = expr_cols e" "distinct (collect_cols e)"
  using walk_cols_set[of e "[]"] by (auto simp: collect_cols_def)

lemma position_distinct: "distinct xs \<Longrightarrow> i < length xs \<Longrightarrow> position (\<lambda>c. c = xs ! i) xs = Some i"
  by (induction xs arbitrary: i) (auto simp: nth_Cons split: nat.splits)

text \<open>A projected batch serves an expression when every column of the expression is found.\<close>

definition serves :: "record_batch \<Rightarrow> record_batch \<Rightarrow> (nat \<Rightarrow> nat option) \<Rightarrow> pushed_expr \<Rightarrow> bool" where
  "serves b p li e \<longleftrightarrow> num_rows p = num_rows b
    \<and> (\<forall>c \<in> expr_cols e. \<exists>i. li c = Some i \<and> i < length (columns p) \<and> columns p ! i = columns b ! c)"

lemma serves_sub:
  "serves b p li (And xs) \<Longrightarrow> x \<in> set xs \<Longrightarrow> serves b p li x"
  "serves b p li (Or xs) \<Longrightarrow> x \<in> set xs \<Longrightarrow> serves b p li x"
  "serves b p li (Negate y) \<Longrightarrow> serves b p li y"
  by (auto simp: serves_def)

lemma batch_column:
  assumes "wf_batch b" "c < length (batch_schema b)"
  shows "c < length (columns b)" "data_type_of (columns b ! c) = field_type (batch_schema b ! c)"
    "length (cells (columns b ! c)) = num_rows b"
proof -
  have l: "length (columns b) = length (batch_schema b)"
    and a: "list_all (\<lambda>c. array_len c = num_rows b) (columns b)"
    and t: "list_all2 (\<lambda>f c. data_type_of c = field_type f \<and> (nullable f \<or> None \<notin> set (cells c))) (batch_schema b) (columns b)"
    using assms(1) unfolding wf_batch_def fits_schema_def by blast+
  show "c < length (columns b)" using l assms(2) by simp
  show "data_type_of (columns b ! c) = field_type (batch_schema b ! c)" using list_all2_nthD[OF t assms(2)] by blast
  show "length (cells (columns b ! c)) = num_rows b"
    using a l assms(2) by (simp add: list_all_length array_len_def)
qed

lemma batch_rows_column:
  assumes "wf_batch b" "c < length (batch_schema b)"
  shows "map f (cells (columns b ! c)) = map (\<lambda>row. f (row ! c)) (batch_rows b)"
  using batch_column[OF assms] by (intro nth_equalityI) (simp_all add: batch_rows_def)

context arrow_kernels
begin

lemma literal_array:
  "literal_fits t v \<Longrightarrow> \<exists>l. scalar_to_array K v t = Ok (single t l) \<and> cell_ok t l \<and> scalar_cell v = Some l \<and> (\<nexists>n. t = OtherType n)"
  by (cases v) (auto simp: literal_fits_def decimal_k)

lemma kernel_result:
  "kernel_compares k R \<Longrightarrow> data_type_of arr = t \<Longrightarrow> (\<nexists>n. t = OtherType n) \<Longrightarrow> wf_array arr \<Longrightarrow> cell_ok t l \<Longrightarrow>
    k arr (single t l) = Inr (map (map_option (\<lambda>v. R v l)) (cells arr))"
  by (auto simp: kernel_compares_def)

lemmas kernel_results = kernel_result[OF eq_k] kernel_result[OF neq_k] kernel_result[OF lt_k] kernel_result[OF lt_eq_k]
  kernel_result[OF gt_k] kernel_result[OF gt_eq_k]

lemma eval_leaf_truth:
  assumes "wf_batch b" "\<forall>c \<in> set (columns b). wf_array c" "expr_fits (batch_schema b) (Leaf q)" "serves b p li (Leaf q)"
  shows "eval_leaf K q p li = Ok (map (\<lambda>row. arrow_truth row (Leaf q)) (batch_rows b))"
proof -
  let ?c = "q_col q" and ?t = "field_type (batch_schema b ! q_col q)"
  have c: "?c < length (batch_schema b)" using assms(3) by simp
  obtain i where i: "li ?c = Some i" "i < length (columns p)" "columns p ! i = columns b ! ?c"
    using assms(4) by (auto simp: serves_def)
  have col: "wf_array (columns b ! ?c)" "data_type_of (columns b ! ?c) = ?t"
    using assms(2) batch_column[OF assms(1) c] by auto
  have tr: "map (\<lambda>row. arrow_truth row (Leaf q)) (batch_rows b) = map (qual_truth arrow_less q) (cells (columns b ! ?c))"
    using batch_rows_column[OF assms(1) c, of "qual_truth arrow_less q"] by simp
  show ?thesis
  proof (cases "q_op q \<in> {IsNull, IsNotNull}")
    case True
    then show ?thesis unfolding tr using i is_null_k is_not_null_k
      by (auto simp: eval_leaf_def Let_def qual_truth_def)
  next
    case False
    then have fit: "literal_fits ?t (q_value q)" using assms(3) by auto
    obtain l where l: "scalar_to_array K (q_value q) ?t = Ok (single ?t l)" "cell_ok ?t l" "scalar_cell (q_value q) = Some l"
      "\<nexists>n. ?t = OtherType n"
      using literal_array[OF fit] by blast
    have "eval_leaf K q p li = Ok (map (map_option (\<lambda>v. cell_cmp arrow_less (q_op q) v l)) (cells (columns b ! ?c)))"
      using False i l col by (cases "q_op q") (simp_all add: eval_leaf_def Let_def kernel_results)
    also have "map (map_option (\<lambda>v. cell_cmp arrow_less (q_op q) v l)) (cells (columns b ! ?c))
        = map (qual_truth arrow_less q) (cells (columns b ! ?c))"
      using False l(3) by (intro map_cong refl) (cases "q_op q"; auto simp: qual_truth_def split: option.splits)
    finally show ?thesis unfolding tr .
  qed
qed

lemma eval_and_truth:
  assumes "\<forall>x \<in> set xs. eval K p li x = Ok (map (\<lambda>row. arrow_truth row x) rows)"
  shows "eval_and K p li xs (Some (map g rows)) = Ok (map (\<lambda>row. foldl strict_and (g row) (map (arrow_truth row) xs)) rows)"
  using assms
proof (induction xs arbitrary: g)
  case (Cons x xs)
  have "and_k K (map g rows) (map (\<lambda>row. arrow_truth row x) rows) = Inr (map (\<lambda>row. strict_and (g row) (arrow_truth row x)) rows)"
    using and_k[of "map g rows" "map (\<lambda>row. arrow_truth row x) rows"] by (simp add: map2_map_map)
  then show ?case using Cons by simp
qed simp

lemma eval_or_truth:
  assumes "\<forall>x \<in> set xs. eval K p li x = Ok (map (\<lambda>row. arrow_truth row x) rows)"
  shows "eval_or K p li xs (Some (map g rows)) = Ok (map (\<lambda>row. foldl strict_or (g row) (map (arrow_truth row) xs)) rows)"
  using assms
proof (induction xs arbitrary: g)
  case (Cons x xs)
  have "or_k K (map g rows) (map (\<lambda>row. arrow_truth row x) rows) = Inr (map (\<lambda>row. strict_or (g row) (arrow_truth row x)) rows)"
    using or_k[of "map g rows" "map (\<lambda>row. arrow_truth row x) rows"] by (simp add: map2_map_map)
  then show ?case using Cons by simp
qed simp

lemma eval_truth:
  assumes "wf_batch b" "\<forall>c \<in> set (columns b). wf_array c" "expr_fits (batch_schema b) e" "serves b p li e"
  shows "eval K p li e = Ok (map (\<lambda>row. arrow_truth row e) (batch_rows b))"
  using assms(3,4)
proof (induction e)
  case (Leaf q)
  then show ?case using eval_leaf_truth[OF assms(1,2)] by simp
next
  case (And xs)
  have xs: "\<forall>x \<in> set xs. eval K p li x = Ok (map (\<lambda>row. arrow_truth row x) (batch_rows b))"
    using And serves_sub(1)[OF And.prems(2)] by (simp add: list_all_iff)
  show ?case
  proof (cases xs)
    case Nil
    then show ?thesis using And.prems(2) by (simp add: serves_def map_replicate_const batch_rows_def)
  next
    case (Cons y ys)
    have t: "strict_and (Some True) c = c" for c by (cases c) auto
    show ?thesis using xs eval_and_truth[of ys p li "batch_rows b" "\<lambda>row. arrow_truth row y"] by (simp add: Cons t)
  qed
next
  case (Or xs)
  have xs: "\<forall>x \<in> set xs. eval K p li x = Ok (map (\<lambda>row. arrow_truth row x) (batch_rows b))"
    using Or serves_sub(2)[OF Or.prems(2)] by (simp add: list_all_iff)
  show ?case
  proof (cases xs)
    case Nil
    then show ?thesis using Or.prems(2) by (simp add: serves_def map_replicate_const batch_rows_def)
  next
    case (Cons y ys)
    have t: "strict_or (Some False) c = c" for c by (cases c) auto
    show ?thesis using xs eval_or_truth[of ys p li "batch_rows b" "\<lambda>row. arrow_truth row y"] by (simp add: Cons t)
  qed
next
  case (Negate x)
  then show ?case using serves_sub(3)[OF Negate.prems(2)] by (simp add: not_k)
qed

end

section \<open>Pruning\<close>

text \<open>What the parquet format promises of statistics: the null count is exact, and every value lies
  within the bounds that are given (they need not be attained, and a NaN is not counted).  The
  physical type of the statistics is that of the values.\<close>

definition within :: "'a partial_ord \<Rightarrow> 'a typed_stats \<Rightarrow> 'a \<Rightarrow> bool" where
  "within R s v \<longleftrightarrow> (case min_opt s of None \<Rightarrow> True | Some m \<Rightarrow> le_r R m v) \<and> (case max_opt s of None \<Rightarrow> True | Some m \<Rightarrow> le_r R v m)"

fun value_within :: "pq_stats \<Rightarrow> cell \<Rightarrow> bool" where
  "value_within (StInt32 s) c = (case c of CInt v \<Rightarrow> within total_ord s v | _ \<Rightarrow> False)"
| "value_within (StInt64 s) c = (case c of CInt v \<Rightarrow> within total_ord s v | _ \<Rightarrow> False)"
| "value_within (StFloat s) c = (case c of CF32 v \<Rightarrow> f64_nan (f32_to_f64 v) \<or> within f32_ord s v | _ \<Rightarrow> False)"
| "value_within (StDouble s) c = (case c of CF64 v \<Rightarrow> f64_nan v \<or> within f64_ord s v | _ \<Rightarrow> False)"
| "value_within (StByteArray s) c = (case c of CStr v \<Rightarrow> within total_ord s v | _ \<Rightarrow> False)"
| "value_within (StBoolean s) c = (case c of CBool v \<Rightarrow> within total_ord s v | _ \<Rightarrow> False)"
| "value_within StOther c = True"

definition chunk_valid :: "column_chunk \<Rightarrow> cell option list \<Rightarrow> bool" where
  "chunk_valid ch vs \<longleftrightarrow> num_values ch = length vs
    \<and> (case statistics ch of
         None \<Rightarrow> True
       | Some st \<Rightarrow> (case null_count_opt st of None \<Rightarrow> True | Some n \<Rightarrow> n = length (filter (\<lambda>v. v = None) vs))
           \<and> (\<forall>v. Some v \<in> set vs \<longrightarrow> value_within (typed st) v))"

definition group_valid :: "row_group \<Rightarrow> row list \<Rightarrow> bool" where
  "group_valid rg rows \<longleftrightarrow> (\<forall>c < length rg. chunk_valid (rg ! c) (map (\<lambda>r. r ! c) rows))"

lemma total_ord_simps [simp]: "lt_r total_ord = (<)" "le_r total_ord = (\<le>)" "eq_r total_ord = (=)"
  by (simp_all add: total_ord_def)

lemma cmp_verdict_bytes_eq: "cmp_verdict_bytes op lit mn mx = cmp_verdict total_ord op lit mn mx"
  by (simp add: cmp_verdict_bytes_def cmp_verdict_def split: option.split pushed_op.split)

lemma cmp_verdict_sound:
  assumes "cmp_verdict total_ord op lit (min_opt s) (max_opt s) = Ok CannotMatch" "within total_ord s v"
    and "\<And>x y. sql_less (f x) (f y) \<longleftrightarrow> x < y"
  shows "\<not> cell_cmp sql_less op (f v) (f lit)"
  using assms by (cases op) (auto simp: cmp_verdict_def within_def cannot_if_def unreachable_def split: option.splits if_splits)

lemma bool_verdict_sound:
  "bool_verdict op lit s = CannotMatch \<Longrightarrow> within total_ord s v \<Longrightarrow> \<not> cell_cmp sql_less op (CBool v) (CBool lit)"
  by (cases op; cases "min_opt s"; cases "max_opt s") (auto simp: bool_verdict_def within_def split: if_splits)

lemma typed_verdict_sound:
  assumes "typed_verdict q st = Ok CannotMatch" "value_within st v" "float_free (Leaf q)" "scalar_cell (q_value q) = Some l"
  shows "\<not> cell_cmp sql_less (q_op q) v l"
  using assms
  by (cases "q_value q"; cases st; cases v)
    (auto simp: typed_verdict_def cmp_verdict_bytes_eq
      dest: cmp_verdict_sound[where f = CInt] cmp_verdict_sound[where f = CStr] bool_verdict_sound)

lemma cmp_verdict_total:
  "op \<notin> {IsNull, IsNotNull} \<Longrightarrow> \<exists>v. cmp_verdict R op lit mn mx = Ok v"
  by (cases op; cases mn; cases mx) (auto simp: cmp_verdict_def cannot_if_def)

lemma leaf_verdict_total: "\<exists>v. evaluate_leaf_against_rg q rg sch = Ok v"
proof (cases "q_op q \<in> {IsNull, IsNotNull}")
  case True
  then show ?thesis by (auto simp: evaluate_leaf_against_rg_def Let_def split: option.split)
next
  case False
  then have "\<exists>v. typed_verdict q st = Ok v" for st
    using cmp_verdict_total[OF False]
    by (cases "q_value q"; cases st) (auto simp: typed_verdict_def cmp_verdict_bytes_eq)
  then show ?thesis using False
    by (cases "q_op q") (auto simp: evaluate_leaf_against_rg_def Let_def split: option.split)
qed

lemma verdict_total:
  "\<exists>v. evaluate_against_rg rg sch e = Ok v" "\<exists>v. rg_and rg sch xs b = Ok v" "\<exists>v. rg_or rg sch xs b c = Ok v"
proof (induction rg sch e and rg sch xs b and rg sch xs b c rule: evaluate_against_rg_rg_and_rg_or.induct)
  case (6 rg sch x xs all_can)
  then obtain v where "evaluate_against_rg rg sch x = Ok v" by blast
  then show ?case using 6 by (cases v) auto
next
  case (8 rg sch x xs all_cannot any_can)
  then obtain v where "evaluate_against_rg rg sch x = Ok v" by blast
  then show ?case using 8 by (cases v) auto
qed (auto simp: leaf_verdict_total)

lemma rg_and_cannot: "rg_and rg sch xs b = Ok CannotMatch \<Longrightarrow> \<exists>x \<in> set xs. evaluate_against_rg rg sch x = Ok CannotMatch"
proof (induction xs arbitrary: b)
  case (Cons x xs)
  obtain v where "evaluate_against_rg rg sch x = Ok v" using verdict_total by blast
  then show ?case using Cons by (cases v) auto
qed (auto split: if_splits)

lemma rg_or_cannot:
  "rg_or rg sch xs a b = Ok CannotMatch \<Longrightarrow> a \<and> \<not> b \<and> (\<forall>x \<in> set xs. evaluate_against_rg rg sch x = Ok CannotMatch)"
proof (induction xs arbitrary: a b)
  case (Cons x xs)
  obtain v where v: "evaluate_against_rg rg sch x = Ok v" using verdict_total by blast
  show ?case
  proof (cases v)
    case CannotMatch
    then show ?thesis using Cons.IH[of a b] Cons.prems v by auto
  next
    case CanMatch
    then show ?thesis using Cons.IH[of a True] Cons.prems v by auto
  next
    case Indeterminate
    then show ?thesis using Cons.IH[of False b] Cons.prems v by auto
  qed
qed (auto split: if_splits)

lemma leaf_verdict_sound:
  assumes "evaluate_leaf_against_rg q rg sch = Ok CannotMatch" "group_valid rg rows" "row \<in> set rows" "float_free (Leaf q)"
  shows "sql_truth row (Leaf q) \<noteq> Some True"
proof -
  have c: "q_col q < length rg" using assms(1) by (auto simp: evaluate_leaf_against_rg_def split: if_splits)
  then obtain st where st: "statistics (rg ! q_col q) = Some st"
    using assms(1) by (auto simp: evaluate_leaf_against_rg_def Let_def split: if_splits option.splits)
  have val: "chunk_valid (rg ! q_col q) (map (\<lambda>r. r ! q_col q) rows)" using assms(2) c by (simp add: group_valid_def)
  consider "q_op q = IsNull" | "q_op q = IsNotNull" | "q_op q \<notin> {IsNull, IsNotNull}" by blast
  then show ?thesis
  proof cases
    case 1
    then have "null_count_opt st = Some 0"
      using assms(1) st by (auto simp: evaluate_leaf_against_rg_def Let_def split: if_splits option.splits)
    then have "filter (\<lambda>v. v = None) (map (\<lambda>r. r ! q_col q) rows) = []" using val st by (simp add: chunk_valid_def filter_map)
    then have "row ! q_col q \<noteq> None" using assms(3) by (auto simp: filter_empty_conv)
    then show ?thesis using 1 by (simp add: qual_truth_def)
  next
    case 2
    then obtain n where "null_count_opt st = Some n" "n \<ge> num_values (rg ! q_col q)"
      using assms(1) st by (auto simp: evaluate_leaf_against_rg_def Let_def split: if_splits option.splits)
    then have "length (map (\<lambda>r. r ! q_col q) rows) \<le> length (filter (\<lambda>v. v = None) (map (\<lambda>r. r ! q_col q) rows))"
      using val st by (simp add: chunk_valid_def)
    then have "filter (\<lambda>v. v = None) (map (\<lambda>r. r ! q_col q) rows) = map (\<lambda>r. r ! q_col q) rows"
      by (metis length_filter_le le_antisym length_filter_conv_card filter_id_conv length_filter_less linorder_not_less)
    then have "row ! q_col q = None" using assms(3) by (auto simp: filter_id_conv)
    then show ?thesis using 2 by (simp add: qual_truth_def)
  next
    case 3
    then have t: "typed_verdict q (typed st) = Ok CannotMatch"
      using assms(1) c st by (cases "q_op q") (auto simp: evaluate_leaf_against_rg_def Let_def split: if_splits)
    show ?thesis
    proof
      assume tr: "sql_truth row (Leaf q) = Some True"
      then obtain v l where v: "row ! q_col q = Some v" "scalar_cell (q_value q) = Some l" "cell_cmp sql_less (q_op q) v l"
        using 3 by (cases "q_op q") (auto simp: qual_truth_def split: option.splits)
      have "Some v \<in> set (map (\<lambda>r. r ! q_col q) rows)" using v(1) assms(3) by (metis image_eqI list.set_map)
      then have "value_within (typed st) v" using val st by (simp add: chunk_valid_def)
      then show False using typed_verdict_sound[OF t _ assms(4) v(2)] v(3) by blast
    qed
  qed
qed

lemma verdict_sound:
  assumes "group_valid rg rows" "row \<in> set rows"
  shows "evaluate_against_rg rg sch e = Ok CannotMatch \<Longrightarrow> float_free e \<Longrightarrow> sql_truth row e \<noteq> Some True"
proof (induction e)
  case (Leaf q)
  then show ?case using leaf_verdict_sound[OF _ assms] by simp
next
  case (And xs)
  then obtain x where x: "x \<in> set xs" "evaluate_against_rg rg sch x = Ok CannotMatch"
    using rg_and_cannot[of rg sch xs True] by auto
  then have "sql_truth row x \<noteq> Some True" using And.IH[OF x(1)] And.prems(2) by (simp add: list_all_iff)
  then show ?case using x(1) unfolding sql_truth.simps foldl_kleene_and by auto
next
  case (Or xs)
  then have "\<forall>x \<in> set xs. evaluate_against_rg rg sch x = Ok CannotMatch" using rg_or_cannot by auto
  then have "\<forall>x \<in> set xs. sql_truth row x \<noteq> Some True" using Or.IH Or.prems(2) by (simp add: list_all_iff)
  then show ?case unfolding sql_truth.simps foldl_kleene_or by auto
qed simp

lemma rg_survives_result:
  "\<exists>s d. rg_survives rg sch es det = Ok (s, d) \<and> (\<not> s \<longrightarrow> d \<and> (\<exists>e \<in> set es. evaluate_against_rg rg sch e = Ok CannotMatch)) \<and> (det \<longrightarrow> d)"
proof (induction es arbitrary: det)
  case (Cons e es)
  obtain v where "evaluate_against_rg rg sch e = Ok v" using verdict_total by blast
  then show ?case using Cons[of True] Cons[of det] by (cases v) auto
qed auto

lemma prune_loop_result:
  assumes "\<forall>i \<in> set keep. i < i0"  "sorted_wrt (<) keep" "\<not> det \<longrightarrow> keep = [0..<i0]"
  shows "\<exists>r. prune_loop rgs i0 exprs sch det keep = Ok r \<and> (\<forall>ks. r = Some ks \<longrightarrow> sorted_wrt (<) ks
    \<and> set ks \<subseteq> {..<i0 + length rgs} \<and> set keep \<subseteq> set ks
    \<and> (\<forall>i < length rgs. i0 + i \<notin> set ks \<longrightarrow> (\<exists>e \<in> set exprs. evaluate_against_rg (rgs ! i) sch e = Ok CannotMatch)))"
  using assms
proof (induction rgs arbitrary: i0 det keep)
  case Nil
  then show ?case by auto
next
  case (Cons rg rgs)
  obtain s d where s: "rg_survives rg sch exprs det = Ok (s, d)"
    "\<not> s \<longrightarrow> d \<and> (\<exists>e \<in> set exprs. evaluate_against_rg rg sch e = Ok CannotMatch)" "det \<longrightarrow> d"
    using rg_survives_result by blast
  let ?keep = "if s then keep @ [i0] else keep"
  have k: "\<forall>i \<in> set ?keep. i < Suc i0" "sorted_wrt (<) ?keep" "\<not> d \<longrightarrow> ?keep = [0..<Suc i0]"
    using Cons.prems s by (auto simp: sorted_wrt_append)
  obtain r where r: "prune_loop rgs (Suc i0) exprs sch d ?keep = Ok r" "\<forall>ks. r = Some ks \<longrightarrow> sorted_wrt (<) ks
    \<and> set ks \<subseteq> {..<Suc i0 + length rgs} \<and> set ?keep \<subseteq> set ks
    \<and> (\<forall>i < length rgs. Suc i0 + i \<notin> set ks \<longrightarrow> (\<exists>e \<in> set exprs. evaluate_against_rg (rgs ! i) sch e = Ok CannotMatch))"
    using Cons.IH[OF k] by blast
  have "\<exists>e \<in> set exprs. evaluate_against_rg ((rg # rgs) ! i) sch e = Ok CannotMatch"
    if "r = Some ks" "i < length (rg # rgs)" "i0 + i \<notin> set ks" for ks i
    using that r(2) s(2) by (cases i) (auto split: if_splits)
  then show ?case using s(1) r by (intro exI[of _ r]) (auto split: if_splits)
qed

section \<open>Negation, translation, prefix ranges\<close>

lemma inverse_truth: "inverse_op (q_op q) = Some op \<Longrightarrow> qual_truth lt (q \<lparr> q_op := op \<rparr>) c = map_option Not (qual_truth lt q c)"
  by (cases "q_op q"; cases c; cases "scalar_cell (q_value q)") (auto simp: qual_truth_def)

lemma qual_truth_col [simp]: "qual_truth lt (q \<lparr> q_col := p \<rparr>) c = qual_truth lt q c"
  by (cases "q_op q") (simp_all add: qual_truth_def)

lemma option_all_Some: "option_all (map f xs) = Some ys \<longleftrightarrow> list_all2 (\<lambda>x y. f x = Some y) xs ys"
  by (induction xs arbitrary: ys) (auto simp: list_all2_Cons1 split: option.splits)

lemma list_all2_map_eq: "list_all2 (\<lambda>x y. g y = f x) xs ys \<Longrightarrow> map g ys = map f xs"
  by (induction rule: list_all2_induct) auto

lemma translate_truth:
  assumes "\<forall>c < length m. \<forall>p. m ! c = Some p \<longrightarrow> prow ! p = frow ! c"
  shows "translate_qual_to_parquet_idx m e = Some e' \<Longrightarrow> sql_truth prow e' = sql_truth frow e"
proof (induction e arbitrary: e')
  case (Leaf q)
  then obtain p where "q_col q < length m" "m ! q_col q = Some p" "e' = Leaf (q \<lparr> q_col := p \<rparr>)"
    by (auto split: if_splits)
  then show ?case using assms by simp
next
  case (And xs)
  then obtain ys where ys: "e' = And ys" "list_all2 (\<lambda>x y. translate_qual_to_parquet_idx m x = Some y) xs ys"
    by (auto simp: option_all_Some)
  have "list_all2 (\<lambda>x y. sql_truth prow y = sql_truth frow x) xs ys"
    using ys(2) And.IH by (rule list.rel_mono_strong)
  then show ?case using ys(1) list_all2_map_eq[of "sql_truth prow" "sql_truth frow" xs ys] by simp
next
  case (Or xs)
  then obtain ys where ys: "e' = Or ys" "list_all2 (\<lambda>x y. translate_qual_to_parquet_idx m x = Some y) xs ys"
    by (auto simp: option_all_Some)
  have "list_all2 (\<lambda>x y. sql_truth prow y = sql_truth frow x) xs ys"
    using ys(2) Or.IH by (rule list.rel_mono_strong)
  then show ?case using ys(1) list_all2_map_eq[of "sql_truth prow" "sql_truth frow" xs ys] by simp
qed auto

lemma less_byte: "c < d \<longleftrightarrow> byte_val c < byte_val d"
  by (simp add: less_char_def byte_val_def)

lemma bump_last_form:
  "bump_last cs = Some u \<Longrightarrow> \<exists>fs c r. cs = fs @ c # r \<and> (\<forall>f \<in> set fs. byte_val f = 255) \<and> byte_val c < 255
    \<and> u = rev r @ [char_of (byte_val c + 1)]"
proof (induction cs)
  case (Cons c cs)
  show ?case
  proof (cases "byte_val c < 255")
    case True
    then show ?thesis using Cons.prems by (intro exI[of _ "[]"] exI[of _ c] exI[of _ cs]) simp
  next
    case False
    then have "byte_val c = 255" using byte_val_less[of c] by linarith
    moreover obtain fs d r where "cs = fs @ d # r" "\<forall>f \<in> set fs. byte_val f = 255" "byte_val d < 255"
      "u = rev r @ [char_of (byte_val d + 1)]"
      using Cons False by auto
    ultimately show ?thesis by (intro exI[of _ "c # fs"] exI[of _ d] exI[of _ r]) simp
  qed
qed simp

lemma append_le_append: "(q @ a :: string) \<le> q @ b \<longleftrightarrow> a \<le> b" "(q @ a :: string) < q @ b \<longleftrightarrow> a < b"
  by (induction q) auto

lemma full_bytes_prefix: "\<forall>f \<in> set fs. byte_val f = 255 \<Longrightarrow> fs \<le> t \<Longrightarrow> \<exists>r. t = fs @ r"
proof (induction fs arbitrary: t)
  case (Cons f fs)
  then obtain c t' where t: "t = c # t'" by (cases t) auto
  have "\<not> f < c" using Cons.prems(1) byte_val_less[of c] unfolding less_byte by (auto simp del: byte_val_less)
  then show ?case using Cons t by auto
qed simp

lemma between_prefix: "(q @ a :: string) \<le> s \<Longrightarrow> s < q @ b \<Longrightarrow> \<exists>t. s = q @ t"
proof (induction q arbitrary: s)
  case (Cons c q)
  then obtain d s' where s: "s = d # s'" by (cases s) auto
  then have "d = c" using Cons.prems by auto
  then show ?case using Cons s by auto
qed simp

section \<open>Properties\<close>

text \<open>C16: pruning loses no row.  When the statistics of every row group hold of its rows, pruning never
  panics, and in a row group it drops no row makes all the pushed quals true (literals that are not
  floats).\<close>

theorem prune_sound:
  assumes "\<forall>i < length meta. group_valid (meta ! i) (rows i)" "\<forall>e \<in> set exprs. float_free e"
  shows "\<exists>r. prune_row_groups meta exprs sch = Ok r
    \<and> (\<forall>ks i row. r = Some ks \<and> i < length meta \<and> i \<notin> set ks \<and> row \<in> set (rows i) \<longrightarrow>
        (\<exists>e \<in> set exprs. sql_truth row e \<noteq> Some True))"
proof (cases "exprs = []")
  case True
  then show ?thesis by (simp add: prune_row_groups_def)
next
  case False
  obtain r where r: "prune_loop meta 0 exprs sch False [] = Ok r" "\<forall>ks. r = Some ks \<longrightarrow>
      (\<forall>i < length meta. i \<notin> set ks \<longrightarrow> (\<exists>e \<in> set exprs. evaluate_against_rg (meta ! i) sch e = Ok CannotMatch))"
    using prune_loop_result[of "[]" 0 False meta exprs sch] by auto
  have "\<exists>e \<in> set exprs. sql_truth row e \<noteq> Some True"
    if a: "r = Some ks" "i < length meta" "i \<notin> set ks" "row \<in> set (rows i)" for ks i row
  proof -
    obtain e where e: "e \<in> set exprs" "evaluate_against_rg (meta ! i) sch e = Ok CannotMatch" using r(2) a by blast
    then have "sql_truth row e \<noteq> Some True" using verdict_sound[of "meta ! i" "rows i" row sch e] assms a by blast
    then show ?thesis using e(1) by blast
  qed
  then show ?thesis using False r(1) by (auto simp: prune_row_groups_def)
qed

definition demo_group :: row_group where
  "demo_group = [\<lparr> statistics = Some \<lparr> null_count_opt = Some 0, typed = StInt64 \<lparr> min_opt = Some 3, max_opt = Some 5 \<rparr> \<rparr>, num_values = 2 \<rparr>]"

definition demo_qual :: "pushed_op \<Rightarrow> int \<Rightarrow> pushed_expr" where
  "demo_qual op i = Leaf \<lparr> q_col = 0, q_op = op, q_value = I64 i \<rparr>"

theorem prune_sound_witness:
  "prune_row_groups [demo_group, demo_group] [demo_qual Gt 7] [\<lparr> field_name = ''x'', field_type = Int64, nullable = True \<rparr>] = Ok (Some [])
    \<and> sql_truth [Some (CInt 4)] (demo_qual Gt 7) \<noteq> Some True"
proof -
  let ?sch = "[\<lparr> field_name = ''x'', field_type = Int64, nullable = True \<rparr>]"
  have v: "\<forall>i < length [demo_group, demo_group]. group_valid ([demo_group, demo_group] ! i) [[Some (CInt 4)], [Some (CInt 5)]]"
    by (auto simp: demo_group_def group_valid_def chunk_valid_def within_def less_Suc_eq)
  have p: "prune_row_groups [demo_group, demo_group] [demo_qual Gt 7] ?sch = Ok (Some [])"
    by (simp add: prune_row_groups_def demo_group_def demo_qual_def evaluate_leaf_against_rg_def typed_verdict_def
        cmp_verdict_def cannot_if_def)
  have "\<forall>e \<in> set [demo_qual Gt 7]. float_free e" by (simp add: demo_qual_def)
  from prune_sound[OF v this, of ?sch] p show ?thesis by auto
qed

lemma rg_survives_cannot:
  "e \<in> set es \<Longrightarrow> evaluate_against_rg rg sch e = Ok CannotMatch \<Longrightarrow> rg_survives rg sch es det = Ok (False, True)"
proof (induction es arbitrary: det)
  case (Cons a es)
  obtain v where v: "evaluate_against_rg rg sch a = Ok v" using verdict_total by blast
  show ?case
  proof (cases v)
    case CanMatch
    then show ?thesis using Cons.IH[of True] Cons.prems v by auto
  next
    case Indeterminate
    then show ?thesis using Cons.IH[of det] Cons.prems v by auto
  qed (use v in simp)
qed simp

lemma prune_loop_drops:
  "i < length rgs \<Longrightarrow> e \<in> set exprs \<Longrightarrow> evaluate_against_rg (rgs ! i) sch e = Ok CannotMatch \<Longrightarrow> \<forall>k \<in> set keep. k < i0 \<Longrightarrow>
    prune_loop rgs i0 exprs sch det keep = Ok r \<Longrightarrow> \<exists>ks. r = Some ks \<and> i0 + i \<notin> set ks"
proof (induction rgs arbitrary: i i0 det keep)
  case (Cons rg rgs)
  have mono: "prune_loop gs j exprs sch True ks = Ok q \<Longrightarrow> \<exists>t. q = Some (ks @ t) \<and> (\<forall>k \<in> set t. j \<le> k)" for gs j ks q
  proof (induction gs arbitrary: j ks)
    case (Cons g gs)
    obtain sv d where sv: "rg_survives g sch exprs True = Ok (sv, d)" "d" using rg_survives_result[of g sch exprs True] by auto
    from Cons.IH[of "Suc j" "if sv then ks @ [j] else ks"] Cons.prems sv
    obtain t where t: "q = Some ((if sv then ks @ [j] else ks) @ t)" "\<forall>k \<in> set t. Suc j \<le> k" by auto
    show ?case by (rule exI[of _ "(if sv then [j] else []) @ t"]) (use t in auto)
  qed auto
  obtain sv d where sv: "rg_survives rg sch exprs det = Ok (sv, d)" using rg_survives_result by blast
  show ?case
  proof (cases i)
    case 0
    then have "rg_survives rg sch exprs det = Ok (False, True)" using rg_survives_cannot Cons.prems(2,3) by simp
    then have "prune_loop rgs (Suc i0) exprs sch True keep = Ok r" using Cons.prems(5) by simp
    then obtain t where "r = Some (keep @ t)" "\<forall>k \<in> set t. Suc i0 \<le> k" using mono by blast
    then show ?thesis using Cons.prems(4) 0 by force
  next
    case (Suc k)
    have "prune_loop rgs (Suc i0) exprs sch d (if sv then keep @ [i0] else keep) = Ok r" using Cons.prems(5) sv by simp
    moreover have "\<forall>k \<in> set (if sv then keep @ [i0] else keep). k < Suc i0" using Cons.prems(4) by auto
    ultimately show ?thesis using Cons.IH[where i = k and ?i0.0 = "Suc i0"] Cons.prems(1-3) Suc by simp
  qed
qed simp

text \<open>C32: where the float exclusion is needed.  PostgreSQL puts NaN above every number, but the statistics of
  a double column do not count it: whenever the recorded maximum is below the literal of a \<^verbatim>\<open>>\<close> or
  \<^verbatim>\<open>>=\<close> qual, the row group is dropped, whatever the other quals and row groups are; and every row of
  it that holds a NaN, which valid statistics allow, makes that qual true.\<close>

theorem prune_loses_nan:
  assumes "i < length meta" "Leaf q \<in> set exprs" "q_op q \<in> {Gt, Ge}" "q_value q = F64 lit"
    "q_col q < length sch" "q_col q < length (meta ! i)" "statistics (meta ! i ! q_col q) = Some st"
    "typed st = StDouble s" "min_opt s = Some mn" "max_opt s = Some mx" "lt_r f64_ord mx lit"
    "row ! q_col q = Some (CF64 v)" "f64_nan v"
  shows "value_within (typed st) (CF64 v) \<and> sql_truth row (Leaf q) = Some True
    \<and> (\<exists>ks. prune_row_groups meta exprs sch = Ok (Some ks) \<and> i \<notin> set ks)"
proof -
  have lit: "\<not> f64_nan lit" "le_r f64_ord mx lit" using assms(11) by (auto simp: f64_ord_def)
  have "typed_verdict q (typed st) = Ok CannotMatch"
    using assms(3,4,8-11) lit(2) by (auto simp: typed_verdict_def cmp_verdict_def cannot_if_def)
  then have c: "evaluate_against_rg (meta ! i) sch (Leaf q) = Ok CannotMatch"
    using assms(3,5-7) by (auto simp: evaluate_leaf_against_rg_def Let_def)
  obtain r where r: "prune_loop meta 0 exprs sch False [] = Ok r" using prune_loop_result[of "[]" 0 False meta exprs sch] by auto
  have "sql_truth row (Leaf q) = Some True"
    using assms(3,4,12,13) lit(1) by (auto simp: qual_truth_def pg_float_less_def)
  moreover have "value_within (typed st) (CF64 v)" using assms(8,13) by simp
  moreover have "\<exists>ks. prune_row_groups meta exprs sch = Ok (Some ks) \<and> i \<notin> set ks"
    using prune_loop_drops[OF assms(1,2) c _ r] r assms(2) by (auto simp: prune_row_groups_def)
  ultimately show ?thesis by blast
qed

definition double_group :: row_group where
  "double_group = [\<lparr> statistics = Some \<lparr> null_count_opt = Some 0,
    typed = StDouble \<lparr> min_opt = Some 0x3FF0000000000000, max_opt = Some 0x4000000000000000 \<rparr> \<rparr>, num_values = 2 \<rparr>]"

theorem prune_loses_nan_witness:
  "\<exists>ks. prune_row_groups [demo_group, double_group] [Leaf \<lparr> q_col = 0, q_op = Gt, q_value = F64 0x4014000000000000 \<rparr>]
      [\<lparr> field_name = ''x'', field_type = Float64, nullable = True \<rparr>] = Ok (Some ks) \<and> 1 \<notin> set ks
    \<and> sql_truth [Some (CF64 0x7FF8000000000000)] (Leaf \<lparr> q_col = 0, q_op = Gt, q_value = F64 0x4014000000000000 \<rparr>) = Some True"
  using prune_loses_nan[of 1 "[demo_group, double_group]" "\<lparr> q_col = 0, q_op = Gt, q_value = F64 0x4014000000000000 \<rparr>"
      "[Leaf \<lparr> q_col = 0, q_op = Gt, q_value = F64 0x4014000000000000 \<rparr>]" "0x4014000000000000"
      "[\<lparr> field_name = ''x'', field_type = Float64, nullable = True \<rparr>]"
      "\<lparr> null_count_opt = Some 0, typed = StDouble \<lparr> min_opt = Some 0x3FF0000000000000, max_opt = Some 0x4000000000000000 \<rparr> \<rparr>"
      "\<lparr> min_opt = Some 0x3FF0000000000000, max_opt = Some 0x4000000000000000 \<rparr>" "0x3FF0000000000000" "0x4000000000000000"
      "[Some (CF64 0x7FF8000000000000)]" "0x7FF8000000000000"]
  by (auto simp: double_group_def f64_ord_def f64_nan_def f64_value_key_def total_key_def)

text \<open>The batch a predicate is run on: the root columns of its mask, in schema order.\<close>

definition projected :: "record_batch \<Rightarrow> nat list \<Rightarrow> record_batch \<Rightarrow> bool" where
  "projected b roots p \<longleftrightarrow> num_rows p = num_rows b \<and> columns p = map ((!) (columns b)) (sorted_list_of_set (set roots))"

lemma projected_serves:
  assumes "projected b (collect_cols e) p" "sorted (collect_cols e)"
  shows "serves b p (\<lambda>g. position (\<lambda>c. c = g) (collect_cols e)) e"
proof -
  have cols: "columns p = map ((!) (columns b)) (collect_cols e)"
    using assms sorted_list_of_set.idem_if_sorted_distinct[OF assms(2) collect_cols_set(2)] by (simp add: projected_def)
  have "\<exists>i. position (\<lambda>d. d = c) (collect_cols e) = Some i \<and> i < length (columns p) \<and> columns p ! i = columns b ! c"
    if c: "c \<in> expr_cols e" for c
  proof -
    obtain i where "i < length (collect_cols e)" "collect_cols e ! i = c"
      using c by (metis collect_cols_set(1) in_set_conv_nth)
    then show ?thesis using position_distinct[OF collect_cols_set(2)] cols by auto
  qed
  then show ?thesis using assms(1) by (auto simp: serves_def projected_def)
qed

lemma predicate_truth:
  assumes "arrow_kernels K" "wf_batch b" "\<forall>c \<in> set (columns b). wf_array c" "expr_fits (batch_schema b) e"
    "serves b p (\<lambda>g. position (\<lambda>c. c = g) (collect_cols e)) e"
  shows "run_predicate (expr_predicate K e) p = Ok (map (\<lambda>row. arrow_truth row e) (batch_rows b))"
  using arrow_kernels.eval_truth[OF assms] by (simp add: expr_predicate_def Let_def)

text \<open>C19: the row filter keeps every row PostgreSQL asks for.  For kernels that do what arrow documents, a
  well-formed batch and a pushed expression whose literals have the types of their columns, are not
  floats, and whose columns are first named in schema order, the predicate run on the projected
  batch succeeds, and every row that makes the expression true, with no null under a disjunction or
  a negation, is selected.\<close>

theorem row_filter_keeps:
  assumes "arrow_kernels K" "wf_batch b" "\<forall>c \<in> set (columns b). wf_array c" "expr_fits (batch_schema b) e" "float_free e"
    "sorted (collect_cols e)" "projected b (mask_roots (expr_predicate K e)) p"
  shows "\<exists>sel. run_predicate (expr_predicate K e) p = Ok sel \<and> length sel = num_rows b
    \<and> (\<forall>i < num_rows b. or_safe (batch_rows b ! i) e \<and> sql_truth (batch_rows b ! i) e = Some True \<longrightarrow> sel ! i = Some True)"
proof -
  have "serves b p (\<lambda>g. position (\<lambda>c. c = g) (collect_cols e)) e"
    using projected_serves[of b e p] assms(6,7) by (simp add: expr_predicate_def Let_def)
  from predicate_truth[OF assms(1-4) this]
  have "run_predicate (expr_predicate K e) p = Ok (map (\<lambda>row. arrow_truth row e) (batch_rows b))" .
  then show ?thesis using arrow_keeps[OF assms(5)] by (auto simp: batch_rows_def)
qed

definition demo_schema :: schema where
  "demo_schema = [\<lparr> field_name = ''a'', field_type = Int64, nullable = True \<rparr>, \<lparr> field_name = ''b'', field_type = Int64, nullable = True \<rparr>]"

definition demo_batch :: "int option \<Rightarrow> int option \<Rightarrow> record_batch" where
  "demo_batch a b = \<lparr> batch_schema = demo_schema, columns = [\<lparr> data_type_of = Int64, cells = [map_option CInt a] \<rparr>,
    \<lparr> data_type_of = Int64, cells = [map_option CInt b] \<rparr>], num_rows = 1 \<rparr>"

definition col_eq :: "nat \<Rightarrow> int \<Rightarrow> pushed_expr" where
  "col_eq c i = Leaf \<lparr> q_col = c, q_op = Eq, q_value = I64 i \<rparr>"

lemma demo_rows: "batch_rows (demo_batch a b) = [[map_option CInt a, map_option CInt b]]"
  by (simp add: batch_rows_def demo_batch_def)

lemma demo_projected: "set roots = {0, 1} \<Longrightarrow> projected (demo_batch a b) roots (demo_batch a b)"
  by (simp add: projected_def demo_batch_def)

theorem row_filter_keeps_witness:
  "\<exists>sel. run_predicate (expr_predicate list_kernels (Or [col_eq 0 1, col_eq 1 2])) (demo_batch (Some 1) (Some 5)) = Ok sel
    \<and> sel ! 0 = Some True"
proof -
  let ?e = "Or [col_eq 0 1, col_eq 1 2]" and ?b = "demo_batch (Some 1) (Some 5)"
  have c: "collect_cols ?e = [0, 1]" by (simp add: collect_cols_def col_eq_def)
  have w: "wf_batch ?b" "\<forall>c \<in> set (columns ?b). wf_array c" "num_rows ?b = 1"
    by (simp_all add: demo_batch_def wf_batch_def fits_schema_def demo_schema_def array_len_def wf_array_def)
  have f: "expr_fits (batch_schema ?b) ?e" "float_free ?e"
    by (simp_all add: demo_batch_def demo_schema_def col_eq_def literal_fits_def)
  have "projected ?b (mask_roots (expr_predicate list_kernels ?e)) ?b"
    unfolding expr_predicate_def Let_def predicate.simps c by (rule demo_projected) simp
  from row_filter_keeps[OF lk.arrow_kernels_axioms w(1,2) f _ this]
  obtain sel where "run_predicate (expr_predicate list_kernels ?e) ?b = Ok sel"
    "or_safe (batch_rows ?b ! 0) ?e \<and> sql_truth (batch_rows ?b ! 0) ?e = Some True \<longrightarrow> sel ! 0 = Some True"
    using c w(3) by auto
  then show ?thesis by (auto simp: demo_rows col_eq_def qual_truth_def)
qed

lemma strict_or_None: "None \<in> set bs \<Longrightarrow> foldl strict_or a bs = None"
proof -
  have n: "foldl strict_or None cs = None" for cs by (induction cs) simp_all
  show "None \<in> set bs \<Longrightarrow> foldl strict_or a bs = None"
  proof (induction bs arbitrary: a)
    case (Cons b bs)
    then show ?case by (cases a; cases b) (auto simp: n)
  qed simp
qed

text \<open>C30: where the condition on nulls is needed.  Under the same conditions the filter drops every row on
  which a direct operand of a disjunction compares a null column: arrow's \<^verbatim>\<open>or\<close> is null there, also
  when another operand, and so the disjunction of SQL, is true.\<close>

theorem row_filter_or_null:
  assumes "arrow_kernels K" "wf_batch b" "\<forall>c \<in> set (columns b). wf_array c" "expr_fits (batch_schema b) (Or xs)"
    "sorted (collect_cols (Or xs))" "projected b (mask_roots (expr_predicate K (Or xs))) p"
    "i < num_rows b" "Leaf q \<in> set xs" "q_op q \<notin> {IsNull, IsNotNull}" "batch_rows b ! i ! q_col q = None"
  shows "\<exists>sel. run_predicate (expr_predicate K (Or xs)) p = Ok sel \<and> sel ! i = None
    \<and> (\<forall>x \<in> set xs. sql_truth (batch_rows b ! i) x = Some True \<longrightarrow> sql_truth (batch_rows b ! i) (Or xs) = Some True)"
proof -
  have "serves b p (\<lambda>g. position (\<lambda>c. c = g) (collect_cols (Or xs))) (Or xs)"
    using projected_serves[of b "Or xs" p] assms(5,6) by (simp add: expr_predicate_def Let_def)
  from predicate_truth[OF assms(1-4) this]
  have r: "run_predicate (expr_predicate K (Or xs)) p = Ok (map (\<lambda>row. arrow_truth row (Or xs)) (batch_rows b))" .
  have "arrow_truth (batch_rows b ! i) (Leaf q) = None" using assms(9,10) by (cases "q_op q") (simp_all add: qual_truth_def)
  then have "None \<in> set (map (arrow_truth (batch_rows b ! i)) xs)" using assms(8) by (metis image_eqI list.set_map)
  then have "arrow_truth (batch_rows b ! i) (Or xs) = None" unfolding arrow_truth.simps by (rule strict_or_None)
  moreover have "sql_truth (batch_rows b ! i) (Or xs) = Some True" if "x \<in> set xs" "sql_truth (batch_rows b ! i) x = Some True" for x
    using that unfolding sql_truth.simps foldl_kleene_or by (metis image_eqI list.set_map)
  moreover have "i < length (batch_rows b)" using assms(7) by (simp add: batch_rows_def)
  ultimately show ?thesis using r by (intro exI[of _ "map (\<lambda>row. arrow_truth row (Or xs)) (batch_rows b)"]) auto
qed

lemma demo_wf: "wf_batch (demo_batch a b)" "num_rows (demo_batch a b) = 1" "batch_schema (demo_batch a b) = demo_schema"
  by (cases a; cases b; simp add: demo_batch_def wf_batch_def fits_schema_def demo_schema_def array_len_def)+

theorem row_filter_or_null_witness:
  "\<exists>sel. run_predicate (expr_predicate list_kernels (Or [col_eq 0 1, col_eq 1 2])) (demo_batch (Some 1) None) = Ok sel
    \<and> sel ! 0 = None \<and> sql_truth [Some (CInt 1), None] (Or [col_eq 0 1, col_eq 1 2]) = Some True"
proof -
  let ?e = "Or [col_eq 0 1, col_eq 1 2]" and ?b = "demo_batch (Some 1) None"
  have c: "collect_cols ?e = [0, 1]" by (simp add: collect_cols_def col_eq_def)
  have w: "\<forall>c \<in> set (columns ?b). wf_array c" by (simp add: demo_batch_def wf_array_def)
  have f: "expr_fits (batch_schema ?b) ?e" by (simp add: demo_wf demo_schema_def col_eq_def literal_fits_def)
  have p: "projected ?b (mask_roots (expr_predicate list_kernels ?e)) ?b"
    unfolding expr_predicate_def Let_def predicate.simps c by (rule demo_projected) simp
  have "sorted (collect_cols ?e)" using c by simp
  from row_filter_or_null[OF lk.arrow_kernels_axioms demo_wf(1) w f this p, of 0 "\<lparr> q_col = 1, q_op = Eq, q_value = I64 2 \<rparr>"]
  show ?thesis by (auto simp: demo_rows demo_wf col_eq_def qual_truth_def)
qed

text \<open>Which column of the file the predicate reads for a column of the expression: the projected batch has
  its columns in schema order, the lookup uses the order in which the expression names them first.\<close>

definition read_column :: "pushed_expr \<Rightarrow> nat \<Rightarrow> nat" where
  "read_column e c = (case position (\<lambda>d. d = c) (collect_cols e) of
     None \<Rightarrow> c | Some i \<Rightarrow> sorted_list_of_set (set (collect_cols e)) ! i)"

definition reordered :: "pushed_expr \<Rightarrow> record_batch \<Rightarrow> record_batch" where
  "reordered e b = b \<lparr> batch_schema := map (\<lambda>c. batch_schema b ! read_column e c) [0..<length (batch_schema b)],
    columns := map (\<lambda>c. columns b ! read_column e c) [0..<length (batch_schema b)] \<rparr>"

lemma position_Some: "position P xs = Some i \<Longrightarrow> i < length xs"
  by (induction xs arbitrary: i) (auto split: if_splits)

lemma expr_fits_cols: "expr_fits sch e \<Longrightarrow> expr_cols e \<subseteq> {..<length sch}"
  by (induction e) (auto simp: list_all_iff)

lemma read_column_bound:
  assumes "expr_cols e \<subseteq> {..<n}" "c < n"
  shows "read_column e c < n"
proof (cases "position (\<lambda>d. d = c) (collect_cols e)")
  case (Some i)
  have "i < length (sorted_list_of_set (set (collect_cols e)))"
    using position_Some[OF Some] distinct_card[OF collect_cols_set(2)] by simp
  then have "sorted_list_of_set (set (collect_cols e)) ! i \<in> expr_cols e"
    by (metis nth_mem set_sorted_list_of_set finite_set collect_cols_set(1))
  then show ?thesis using assms(1) Some by (auto simp: read_column_def)
qed (use assms(2) in \<open>simp add: read_column_def\<close>)

lemma reordered_wf:
  assumes "wf_batch b" "expr_cols e \<subseteq> {..<length (batch_schema b)}"
  shows "wf_batch (reordered e b)" "\<forall>c \<in> set (columns b). wf_array c \<Longrightarrow> \<forall>c \<in> set (columns (reordered e b)). wf_array c"
    "batch_rows (reordered e b) = map (\<lambda>row. map (\<lambda>c. row ! read_column e c) [0..<length (batch_schema b)]) (batch_rows b)"
proof -
  have l: "length (columns b) = length (batch_schema b)" "columns b \<noteq> []"
    and a: "list_all (\<lambda>c. array_len c = num_rows b) (columns b)"
    and t: "list_all2 (\<lambda>f c. data_type_of c = field_type f \<and> (nullable f \<or> None \<notin> set (cells c))) (batch_schema b) (columns b)"
    using assms(1) unfolding wf_batch_def fits_schema_def by blast+
  note bound = read_column_bound[OF assms(2)]
  show "wf_batch (reordered e b)"
    using l a list_all2_nthD[OF t bound] bound
    by (auto simp: wf_batch_def fits_schema_def reordered_def list_all_length list_all2_conv_all_nth)
  show "\<forall>c \<in> set (columns b). wf_array c \<Longrightarrow> \<forall>c \<in> set (columns (reordered e b)). wf_array c"
    using l bound by (auto simp: reordered_def)
  show "batch_rows (reordered e b) = map (\<lambda>row. map (\<lambda>c. row ! read_column e c) [0..<length (batch_schema b)]) (batch_rows b)"
    using l bound by (simp add: batch_rows_def reordered_def)
qed

lemma reordered_serves:
  assumes "projected b (collect_cols e) p" "expr_cols e \<subseteq> {..<length (batch_schema b)}"
  shows "serves (reordered e b) p (\<lambda>g. position (\<lambda>c. c = g) (collect_cols e)) e"
proof -
  have "\<exists>i. position (\<lambda>d. d = c) (collect_cols e) = Some i \<and> i < length (columns p) \<and> columns p ! i = columns (reordered e b) ! c"
    if c: "c \<in> expr_cols e" for c
  proof -
    obtain i where i: "i < length (collect_cols e)" "collect_cols e ! i = c"
      using c by (metis collect_cols_set(1) in_set_conv_nth)
    then have pos: "position (\<lambda>d. d = c) (collect_cols e) = Some i" using position_distinct[OF collect_cols_set(2)] by blast
    have "i < length (sorted_list_of_set (set (collect_cols e)))"
      using i(1) distinct_card[OF collect_cols_set(2)] by simp
    then show ?thesis using pos assms c by (auto simp: projected_def reordered_def read_column_def)
  qed
  then show ?thesis using assms(1) by (auto simp: serves_def projected_def reordered_def)
qed

text \<open>C31: what the row filter computes when the expression does not name its columns in schema order.  On the
  projected batch, whose columns are in schema order, the predicate evaluates the expression with the
  columns exchanged: for the column it names as its \<open>i\<close>-th it reads the \<open>i\<close>-th of its columns in schema
  order.  (Literals have the types of the columns read.)\<close>

theorem row_filter_column_order:
  assumes "arrow_kernels K" "wf_batch b" "\<forall>c \<in> set (columns b). wf_array c" "expr_fits (batch_schema (reordered e b)) e"
    "projected b (mask_roots (expr_predicate K e)) p"
  shows "run_predicate (expr_predicate K e) p
    = Ok (map (\<lambda>row. arrow_truth (map (\<lambda>c. row ! read_column e c) [0..<length (batch_schema b)]) e) (batch_rows b))"
proof -
  have b: "expr_cols e \<subseteq> {..<length (batch_schema b)}" using expr_fits_cols[OF assms(4)] by (simp add: reordered_def)
  have "projected b (collect_cols e) p" using assms(5) by (simp add: expr_predicate_def Let_def)
  from predicate_truth[OF assms(1) reordered_wf(1)[OF assms(2) b] reordered_wf(2)[OF assms(2) b assms(3)] assms(4)
      reordered_serves[OF this b]]
  show ?thesis unfolding reordered_wf(3)[OF assms(2) b] by simp
qed

theorem row_filter_column_order_witness:
  "run_predicate (expr_predicate list_kernels (Or [col_eq 1 5, col_eq 0 7])) (demo_batch (Some 1) (Some 5)) = Ok [Some False]
    \<and> sql_truth [Some (CInt 1), Some (CInt 5)] (Or [col_eq 1 5, col_eq 0 7]) = Some True"
proof -
  let ?e = "Or [col_eq 1 5, col_eq 0 7]" and ?b = "demo_batch (Some 1) (Some 5)"
  have c: "collect_cols ?e = [1, 0]" by (simp add: collect_cols_def col_eq_def)
  have s: "sorted_list_of_set {Suc 0, 0} = [0, 1]" by (simp add: insert_commute)
  have rc: "read_column ?e 0 = 1" "read_column ?e 1 = 0" unfolding read_column_def c using s by simp_all
  have w: "\<forall>c \<in> set (columns ?b). wf_array c" by (simp add: demo_batch_def wf_array_def)
  have f: "expr_fits (batch_schema (reordered ?e ?b)) ?e"
    using rc by (simp add: reordered_def demo_wf demo_schema_def col_eq_def literal_fits_def upt_rec)
  have "projected ?b (mask_roots (expr_predicate list_kernels ?e)) ?b"
    unfolding expr_predicate_def Let_def predicate.simps c by (rule demo_projected) auto
  from row_filter_column_order[OF lk.arrow_kernels_axioms demo_wf(1) w f this]
  show ?thesis using rc by (simp add: demo_rows demo_wf demo_schema_def upt_rec col_eq_def qual_truth_def)
qed

lemma prefix_interval:
  assumes "next_lex_upper pre = Some u"
  shows "(pre \<le> s \<and> s < u) \<longleftrightarrow> (\<exists>r. s = pre @ r)"
proof -
  have "bump_last (rev pre) = Some u" using assms by (auto simp: next_lex_upper_def split: option.splits if_splits)
  then obtain fs c q where "rev pre = fs @ c # q" and full: "\<forall>f \<in> set fs. byte_val f = 255" and c: "byte_val c < 255"
    and u: "u = rev q @ [char_of (byte_val c + 1)]"
    using bump_last_form by blast
  then have p: "pre = rev q @ c # rev fs" by (metis append_assoc append_Cons append_Nil rev_append rev_rev_ident rev.simps(2))
  have next_c: "byte_val (char_of (byte_val c + 1)) = byte_val c + 1" using c by simp
  show ?thesis
  proof
    assume r: "pre \<le> s \<and> s < u"
    have "\<exists>t. s = rev q @ t" using r between_prefix unfolding p u by blast
    then obtain t where t: "s = rev q @ t" by blast
    then have "c # rev fs \<le> t" "t < [char_of (byte_val c + 1)]"
      using r unfolding p u t append_le_append by blast+
    then obtain d t' where d: "t = d # t'" by (cases t) auto
    have "d < char_of (byte_val c + 1)" using \<open>t < _\<close> d by auto
    then have "byte_val d \<le> byte_val c" unfolding less_byte next_c by simp
    then have "d = c" "rev fs \<le> t'" using \<open>c # rev fs \<le> t\<close> d by (auto simp: less_byte)
    then obtain r where "t' = rev fs @ r" using full_bytes_prefix[of "rev fs" t'] full by auto
    then show "\<exists>r. s = pre @ r" using t d \<open>d = c\<close> p by auto
  next
    assume "\<exists>r. s = pre @ r"
    then obtain r where s: "s = rev q @ c # rev fs @ r" using p by auto
    have "[] \<le> r" by simp
    then have "rev fs \<le> rev fs @ r" using append_le_append(1)[of "rev fs" "[]" r] by simp
    moreover have "c < char_of (byte_val c + 1)" unfolding less_byte next_c by simp
    ultimately show "pre \<le> s \<and> s < u" unfolding s p u append_le_append by simp
  qed
qed

text \<open>C38: the range for a prefix is exact: when \<^verbatim>\<open>next_lex_upper\<close> gives an upper bound, the byte strings
  from the prefix up to the bound are those that start with the prefix.\<close>

theorem prefix_range:
  assumes "next_lex_upper pre = Some u"
  shows "(pre \<le> s \<and> s < u) \<longleftrightarrow> (\<exists>r. s = pre @ r)"
  using prefix_interval[OF assms] .

theorem prefix_range_witness:
  "next_lex_upper [CHR ''a'', CHR ''z'', CHR 0xFF] = Some ''a{''
    \<and> ([CHR ''a'', CHR ''z'', CHR 0xFF] \<le> [CHR ''a'', CHR ''z'', CHR 0xFF, CHR ''!'']
      \<and> [CHR ''a'', CHR ''z'', CHR 0xFF, CHR ''!''] < ''a{'')"
proof -
  have "next_lex_upper [CHR ''a'', CHR ''z'', CHR 0xFF] = Some ''a{''" by code_simp
  then show ?thesis using prefix_range[of "[CHR ''a'', CHR ''z'', CHR 0xFF]" "''a{''" "[CHR ''a'', CHR ''z'', CHR 0xFF, CHR ''!'']"]
    by simp
qed

text \<open>Moving a pushed expression from table columns to parquet columns keeps its meaning on every row,
  whenever the map sends each table column to the parquet column that holds it.\<close>

theorem translation_keeps_truth:
  assumes "\<forall>c < length m. \<forall>p. m ! c = Some p \<longrightarrow> prow ! p = frow ! c" "translate_qual_to_parquet_idx m e = Some e'"
  shows "sql_truth prow e' = sql_truth frow e"
  using translate_truth[OF assms] .

theorem translation_keeps_truth_witness:
  "sql_truth [Some (CInt 3)] (col_eq 0 3) = sql_truth [Some (CStr ''2024''), Some (CInt 3)] (col_eq 1 3)"
proof (rule translation_keeps_truth[of "[None, Some 0]"])
  show "\<forall>c < length [None, Some 0]. \<forall>p. [None, Some (0::nat)] ! c = Some p \<longrightarrow>
      [Some (CInt 3)] ! p = [Some (CStr ''2024''), Some (CInt 3)] ! c"
    by (simp add: less_Suc_eq all_conj_distrib)
  show "translate_qual_to_parquet_idx [None, Some 0] (col_eq 1 3) = Some (col_eq 0 3)"
    by (simp add: col_eq_def)
qed

end
