(* ===== verification/Pg_Types.thy ===== *)
theory Pg_Types
  imports Prelude
begin

text \<open>
  The values of PostgreSQL that cross the boundary: datums, and the object identifiers of the types
  the extension handles.  A datum is a machine word, with what it points to when its type is
  passed by reference: the payload of a \<^verbatim>\<open>varlena\<close> after detoasting, or an array's element type and
  elements.
\<close>

datatype pg_datum = Datum (datum_value: "64 word") (varlena: "string option") (array_of: "(nat \<times> pg_datum option list) option")

definition BOOLOID :: nat where "BOOLOID = 16"
definition BYTEAOID :: nat where "BYTEAOID = 17"
definition INT8OID :: nat where "INT8OID = 20"
definition INT2OID :: nat where "INT2OID = 21"
definition INT4OID :: nat where "INT4OID = 23"
definition TEXTOID :: nat where "TEXTOID = 25"
definition FLOAT4OID :: nat where "FLOAT4OID = 700"
definition FLOAT8OID :: nat where "FLOAT8OID = 701"
definition VARCHAROID :: nat where "VARCHAROID = 1043"
definition DATEOID :: nat where "DATEOID = 1082"
definition TIMESTAMPOID :: nat where "TIMESTAMPOID = 1114"
definition TIMESTAMPTZOID :: nat where "TIMESTAMPTZOID = 1184"
definition NUMERICOID :: nat where "NUMERICOID = 1700"
definition JSONBOID :: nat where "JSONBOID = 3802"

lemmas oid_defs = BOOLOID_def BYTEAOID_def INT8OID_def INT2OID_def INT4OID_def TEXTOID_def FLOAT4OID_def
  FLOAT8OID_def VARCHAROID_def DATEOID_def TIMESTAMPOID_def TIMESTAMPTZOID_def NUMERICOID_def JSONBOID_def

text \<open>Days and microseconds between the UNIX epoch and the PostgreSQL epoch, 2000-01-01.\<close>

definition UNIX_TO_PG_EPOCH_DAYS :: int where "UNIX_TO_PG_EPOCH_DAYS = 10957"

definition UNIX_TO_PG_EPOCH_MICROS :: int where "UNIX_TO_PG_EPOCH_MICROS = 946684800000000"

text \<open>\<^verbatim>\<open>text_to_cstring\<close> followed by \<^verbatim>\<open>CStr::from_ptr\<close> stops at a zero byte.\<close>

definition c_string :: "string \<Rightarrow> string" where
  "c_string s = takeWhile (\<lambda>c. byte_val c \<noteq> 0) s"

text \<open>The signed machine integers.\<close>

definition fits_signed :: "nat \<Rightarrow> int \<Rightarrow> bool" where
  "fits_signed w i \<longleftrightarrow> - (2 ^ (w - 1)) \<le> i \<and> i < 2 ^ (w - 1)"

end
