(* ===== verification/Pushdown_Walk.thy ===== *)
theory Pushdown_Walk
  imports Pushdown Pg_Types
begin

text \<open>
  \<^verbatim>\<open>src/fdw/pushdown_walk.rs\<close>: translating the quals of a plan into pushed expressions.  The expression
  trees of PostgreSQL are the datatype \<open>pg_node\<close> (the node kinds the walker looks at; a null pointer is
  \<open>NullNode\<close>, a null list is \<open>None\<close>), constants carry a \<open>pg_datum\<close>: a word, and what it points to when
  the type is passed by reference.

  The reference is \<open>pg_truth\<close>, the value of a qual on a row, in which nodes the walker does not know
  have a value given from outside, text is ordered by the collation of the operator, and an operator
  means what its row of the catalogue \<^verbatim>\<open>pg_operator\<close> says: the catalogue is a parameter, of which
  \<open>documented_operators\<close> states the rows PostgreSQL documents, apart from the table of the code.  The
  walker promises that a qual that is true makes its pushed expression true.
\<close>

section \<open>Expression trees\<close>

datatype bool_op = AND_EXPR | OR_EXPR | NOT_EXPR

datatype null_test = IS_NULL | IS_NOT_NULL

datatype bool_test = IS_TRUE | IS_NOT_TRUE | IS_FALSE | IS_NOT_FALSE | IS_UNKNOWN | IS_NOT_UNKNOWN

datatype pg_node =
    NullNode
  | RelabelType pg_node
  | Var (vartype: nat) (varattno: int) (varcollid: nat)
  | Const (consttype: nat) (constisnull: bool) (constvalue: pg_datum)
  | OpExpr (opno: nat) (inputcollid: nat) (op_args: "pg_node list option")
  | BoolExpr bool_op "pg_node list option"
  | NullTest pg_node null_test
  | BooleanTest pg_node bool_test
  | ScalarArrayOpExpr (sa_opno: nat) (use_or: bool) (sa_collid: nat) (sa_args: "pg_node list option")
  | OtherNode nat

definition DEFAULT_COLLATION_OID :: nat where "DEFAULT_COLLATION_OID = 100"

definition C_COLLATION_OID :: nat where "C_COLLATION_OID = 950"

definition InvalidOid :: nat where "InvalidOid = 0"

section \<open>The walker\<close>

definition pg_to_unix_days :: "int \<Rightarrow> int option" where
  "pg_to_unix_days d = (if d + UNIX_TO_PG_EPOCH_DAYS < 2 ^ 31 \<and> - (2 ^ 31) \<le> d + UNIX_TO_PG_EPOCH_DAYS
    then Some (d + UNIX_TO_PG_EPOCH_DAYS) else None)"

fun peel_relabel :: "pg_node \<Rightarrow> pg_node" where
  "peel_relabel (RelabelType arg) = peel_relabel arg"
| "peel_relabel n = n"

text \<open>The C string must be UTF-8.\<close>

definition text_datum_to_string :: "pg_datum \<Rightarrow> string option" where
  "text_datum_to_string d =
    (case varlena d of
       None \<Rightarrow> None
     | Some s \<Rightarrow> if utf8_valid (c_string s) then Some (c_string s) else None)"

definition const_text_arg :: "pg_node \<Rightarrow> string option" where
  "const_text_arg arg =
    (case peel_relabel arg of
       Const ty isnull d \<Rightarrow> if isnull then None else if ty = 25 \<or> ty = 1043 then text_datum_to_string d else None
     | _ \<Rightarrow> None)"

definition try_var :: "pg_node \<Rightarrow> nat option" where
  "try_var node = (case peel_relabel node of Var t attno c \<Rightarrow> if attno < 1 then None else Some (nat (attno - 1)) | _ \<Rightarrow> None)"

definition var_collation_ok :: "pg_node \<Rightarrow> bool" where
  "var_collation_ok node =
    (case peel_relabel node of
       Var t attno coll \<Rightarrow> coll = DEFAULT_COLLATION_OID \<or> coll = C_COLLATION_OID \<or> coll = InvalidOid
     | _ \<Rightarrow> False)"

text \<open>The lowering of a non-null constant of a known type, in the scalar and the array case.\<close>

definition lower_datum :: "nat \<Rightarrow> pg_datum \<Rightarrow> scalar_value option" where
  "lower_datum ty d =
    (if ty = 21 then Some (I16 (sint (ucast (datum_value d) :: 16 word)))
     else if ty = 23 then Some (I32 (sint (ucast (datum_value d) :: 32 word)))
     else if ty = 20 then Some (I64 (sint (datum_value d)))
     else if ty = 700 then Some (F32 (ucast (datum_value d)))
     else if ty = 701 then Some (F64 (datum_value d))
     else if ty = 25 \<or> ty = 1043 then map_option SUtf8 (text_datum_to_string d)
     else if ty = 1082 then map_option SDate32 (pg_to_unix_days (sint (ucast (datum_value d) :: 32 word)))
     else None)"

definition try_const :: "pg_node \<Rightarrow> scalar_value option" where
  "try_const node =
    (case peel_relabel node of
       Const ty isnull d \<Rightarrow> if isnull then None else lower_datum ty d
     | _ \<Rightarrow> None)"

definition try_array_const :: "pg_node \<Rightarrow> scalar_value list option" where
  "try_array_const node =
    (case node of
       Const ty isnull d \<Rightarrow>
         if isnull then None
         else (case array_of d of
             None \<Rightarrow> None
           | Some (elem_ty, vs) \<Rightarrow> option_all (map (\<lambda>v. case v of None \<Rightarrow> None | Some e \<Rightarrow> lower_datum elem_ty e) vs))
     | _ \<Rightarrow> None)"

definition TEXT_LIKE_OPNO :: nat where "TEXT_LIKE_OPNO = 1209"

definition like_prefix_literal :: "string \<Rightarrow> string option" where
  "like_prefix_literal pat =
    (if \<not> ends_with pat ''%'' then None
     else let pre = butlast pat in
      if CHR ''%'' \<in> set pre \<or> CHR ''_'' \<in> set pre \<or> CHR 0x5C \<in> set pre then None
      else if pre = [] then None else Some pre)"

definition flip_op :: "pushed_op \<Rightarrow> pushed_op" where
  "flip_op op = (case op of Lt \<Rightarrow> Gt | Gt \<Rightarrow> Lt | Le \<Rightarrow> Ge | Ge \<Rightarrow> Le | other \<Rightarrow> other)"

definition leaf :: "nat \<Rightarrow> pushed_op \<Rightarrow> scalar_value \<Rightarrow> pushed_expr" where
  "leaf c op v = Leaf \<lparr> q_col = c, q_op = op, q_value = v \<rparr>"

definition walk_like :: "pg_node list option \<Rightarrow> pushed_expr option" where
  "walk_like args =
    (case args of
       Some [lhs, rhs] \<Rightarrow>
         Option.bind (try_var lhs) (\<lambda>col.
         if \<not> var_collation_ok lhs then None
         else
          Option.bind (const_text_arg rhs) (\<lambda>pattern.
          Option.bind (like_prefix_literal pattern) (\<lambda>pre.
          Option.bind (next_lex_upper pre) (\<lambda>upper.
          Some (And [leaf col Ge (SUtf8 pre), leaf col Lt (SUtf8 upper)])))))
     | _ \<Rightarrow> None)"

definition walk_op_expr :: "nat \<Rightarrow> pg_node list option \<Rightarrow> pushed_expr option" where
  "walk_op_expr op_no args =
    (if op_no = TEXT_LIKE_OPNO then walk_like args
     else
      Option.bind (lookup_op op_no) (\<lambda>(pop, _, _).
      case args of
        Some [lhs, rhs] \<Rightarrow>
          (case (try_var lhs, try_const rhs) of
             (Some col, Some v) \<Rightarrow> if \<not> var_collation_ok lhs then None else Some (leaf col pop v)
           | _ \<Rightarrow>
             (case (try_const lhs, try_var rhs) of
                (Some v, Some col) \<Rightarrow> if \<not> var_collation_ok rhs then None else Some (leaf col (flip_op pop) v)
              | _ \<Rightarrow> None))
      | _ \<Rightarrow> None))"

fun invert_pushed :: "pushed_expr \<Rightarrow> pushed_expr option" where
  "invert_pushed (Leaf q) = map_option (\<lambda>op. Leaf (q \<lparr> q_op := op \<rparr>)) (inverse_op (q_op q))"
| "invert_pushed (And xs) = map_option Or (option_all (map invert_pushed xs))"
| "invert_pushed (Or xs) = map_option And (option_all (map invert_pushed xs))"
| "invert_pushed (Negate inner) = Some inner"

text \<open>\<open>n\<close> is the number of arguments, \<open>children\<close> the translations of those that have one.\<close>

definition walk_bool_expr :: "bool_op \<Rightarrow> nat \<Rightarrow> pushed_expr list \<Rightarrow> pushed_expr option" where
  "walk_bool_expr op n children =
    (case op of
       AND_EXPR \<Rightarrow> if children = [] then None else Some (if length children = 1 then last children else And children)
     | OR_EXPR \<Rightarrow> if length children = n then Some (if length children = 1 then last children else Or children) else None
     | NOT_EXPR \<Rightarrow> if length children = 1 then invert_pushed (last children) else None)"

definition walk_null_test :: "pg_node \<Rightarrow> null_test \<Rightarrow> pushed_expr option" where
  "walk_null_test arg kind =
    Option.bind (try_var arg) (\<lambda>col. Some (leaf col (case kind of IS_NULL \<Rightarrow> IsNull | IS_NOT_NULL \<Rightarrow> IsNotNull) SNull))"

definition walk_boolean_test :: "pg_node \<Rightarrow> bool_test \<Rightarrow> pushed_expr option" where
  "walk_boolean_test arg kind =
    Option.bind (try_var arg) (\<lambda>col.
    case kind of
      IS_TRUE \<Rightarrow> Some (leaf col Eq (SBool True))
    | IS_FALSE \<Rightarrow> Some (leaf col Eq (SBool False))
    | _ \<Rightarrow> None)"

definition walk_scalar_array_op :: "nat \<Rightarrow> bool \<Rightarrow> pg_node list option \<Rightarrow> pushed_expr option" where
  "walk_scalar_array_op op_no useOr args =
    Option.bind (lookup_op op_no) (\<lambda>(op, _, _).
    let is_in = (useOr \<and> op = Eq); is_not_in = (\<not> useOr \<and> op = Ne) in
    if \<not> (is_in \<or> is_not_in) then None
    else
     (case args of
        Some [var_node, arr_node] \<Rightarrow>
          Option.bind (try_var var_node) (\<lambda>col.
          Option.bind (try_array_const arr_node) (\<lambda>scalars.
          if scalars = [] then None
          else
           (let leaves = map (leaf col op) scalars in
            Some (if length leaves = 1 then hd leaves else if is_in then Or leaves else And leaves))))
      | _ \<Rightarrow> None))"

text \<open>A relabelling is peeled off before the node is looked at.\<close>

fun walk_node :: "pg_node \<Rightarrow> pushed_expr option"
  and walk_children :: "pg_node list \<Rightarrow> pushed_expr list" where
  "walk_node NullNode = None"
| "walk_node (RelabelType arg) = walk_node arg"
| "walk_node (Var ty attno coll) =
    (if ty \<noteq> BOOLOID then None else if attno < 1 then None
     else Some (leaf (nat (attno - 1)) Eq (SBool True)))"
| "walk_node (Const ty isnull d) = None"
| "walk_node (OpExpr op_no coll args) = walk_op_expr op_no args"
| "walk_node (BoolExpr op args) =
    (case args of None \<Rightarrow> None | Some xs \<Rightarrow> walk_bool_expr op (length xs) (walk_children xs))"
| "walk_node (NullTest arg kind) = walk_null_test arg kind"
| "walk_node (BooleanTest arg kind) = walk_boolean_test arg kind"
| "walk_node (ScalarArrayOpExpr op_no useOr coll args) = walk_scalar_array_op op_no useOr args"
| "walk_node (OtherNode tag) = None"
| "walk_children [] = []"
| "walk_children (x # xs) = (case walk_node x of None \<Rightarrow> walk_children xs | Some e \<Rightarrow> e # walk_children xs)"

definition walk_quals :: "pg_node list option \<Rightarrow> pushed_expr list" where
  "walk_quals quals = (case quals of None \<Rightarrow> [] | Some xs \<Rightarrow> walk_children xs)"

section \<open>The meaning of quals\<close>

text \<open>The value of a constant in arrow's terms.\<close>

definition const_cell :: "nat \<Rightarrow> pg_datum \<Rightarrow> cell option" where
  "const_cell ty d =
    (if ty = 21 then Some (CInt (sint (ucast (datum_value d) :: 16 word)))
     else if ty = 23 then Some (CInt (sint (ucast (datum_value d) :: 32 word)))
     else if ty = 20 then Some (CInt (sint (datum_value d)))
     else if ty = 700 then Some (CF32 (ucast (datum_value d)))
     else if ty = 701 then Some (CF64 (datum_value d))
     else if ty = 25 \<or> ty = 1043 then map_option (\<lambda>s. CStr (c_string s)) (varlena d)
     else if ty = 1082 then Some (CInt (sint (ucast (datum_value d) :: 32 word) + UNIX_TO_PG_EPOCH_DAYS))
     else None)"

definition pg_operand :: "row \<Rightarrow> pg_node \<Rightarrow> cell option option" where
  "pg_operand row n =
    (case peel_relabel n of
       Var t a c \<Rightarrow> if a < 1 then None else Some (row ! nat (a - 1))
     | Const ty isnull d \<Rightarrow> if isnull then Some None else map_option Some (const_cell ty d)
     | _ \<Rightarrow> None)"

type_synonym collations = "nat \<Rightarrow> string \<Rightarrow> string \<Rightarrow> bool"

definition pg_less :: "collations \<Rightarrow> nat \<Rightarrow> cell \<Rightarrow> cell \<Rightarrow> bool" where
  "pg_less coll c a b = (case (a, b) of (CStr x, CStr y) \<Rightarrow> coll c x y | _ \<Rightarrow> sql_less a b)"

text \<open>The rows of \<^verbatim>\<open>pg_operator\<close> for the operators on the built-in types, by OID: the name and the types
  of the operands.  They are fixed by \<^verbatim>\<open>initdb\<close> from PostgreSQL's \<^verbatim>\<open>pg_operator.dat\<close>.\<close>

type_synonym pg_operators = "nat \<Rightarrow> (string \<times> nat \<times> nat) option"

definition pg_operator_rows :: "(nat \<times> string \<times> nat \<times> nat) list" where
  "pg_operator_rows = [
    (94, ''='', 21, 21), (95, ''<'', 21, 21), (519, ''<>'', 21, 21), (520, ''>'', 21, 21), (522, ''<='', 21, 21), (524, ''>='', 21, 21),
    (96, ''='', 23, 23), (97, ''<'', 23, 23), (518, ''<>'', 23, 23), (521, ''>'', 23, 23), (523, ''<='', 23, 23), (525, ''>='', 23, 23),
    (410, ''='', 20, 20), (411, ''<>'', 20, 20), (412, ''<'', 20, 20), (413, ''>'', 20, 20), (414, ''<='', 20, 20), (415, ''>='', 20, 20),
    (620, ''='', 700, 700), (621, ''<>'', 700, 700), (622, ''<'', 700, 700), (623, ''>'', 700, 700), (624, ''<='', 700, 700), (625, ''>='', 700, 700),
    (670, ''='', 701, 701), (671, ''<>'', 701, 701), (672, ''<'', 701, 701), (673, ''<='', 701, 701), (674, ''>'', 701, 701), (675, ''>='', 701, 701),
    (98, ''='', 25, 25), (531, ''<>'', 25, 25), (664, ''<'', 25, 25), (665, ''<='', 25, 25), (666, ''>'', 25, 25), (667, ''>='', 25, 25),
    (1093, ''='', 1082, 1082), (1094, ''<>'', 1082, 1082), (1095, ''<'', 1082, 1082), (1096, ''<='', 1082, 1082), (1097, ''>'', 1082, 1082), (1098, ''>='', 1082, 1082),
    (1209, ''~~'', 25, 25)]"

definition documented_operators :: "pg_operators \<Rightarrow> bool" where
  "documented_operators opers \<longleftrightarrow> list_all (\<lambda>(oid, r). opers oid = Some r) pg_operator_rows"

definition name_cmp :: "string \<Rightarrow> (cell \<Rightarrow> cell \<Rightarrow> bool) \<Rightarrow> cell \<Rightarrow> cell \<Rightarrow> bool option" where
  "name_cmp n lt a b =
    (if n = ''='' then Some (\<not> lt a b \<and> \<not> lt b a)
     else if n = ''<>'' then Some (lt a b \<or> lt b a)
     else if n = ''<'' then Some (lt a b)
     else if n = ''<='' then Some (\<not> lt b a)
     else if n = ''>'' then Some (lt b a)
     else if n = ''>='' then Some (\<not> lt a b)
     else None)"

definition is_comparison :: "string \<times> nat \<times> nat \<Rightarrow> bool" where
  "is_comparison r = (case r of (n, lt, rt) \<Rightarrow>
    n \<in> set [''='', ''<>'', ''<'', ''<='', ''>'', ''>=''] \<and> lt = rt \<and> lt \<in> set [21, 23, 20, 700, 701, 25, 1082])"

text \<open>\<^verbatim>\<open>LIKE\<close>: a percent sign matches any bytes, an underscore one character, a backslash quotes.\<close>

fun like_match :: "string \<Rightarrow> string \<Rightarrow> bool" where
  "like_match [] s = (s = [])"
| "like_match (c # p) s =
    (if c = CHR ''%'' then (\<exists>k \<le> length s. like_match p (drop k s))
     else if c = CHR ''_'' then (case chars s of [] \<Rightarrow> False | d # _ \<Rightarrow> like_match p (drop (length d) s))
     else if c = CHR 0x5C then (case (p, s) of (q # p', x # s') \<Rightarrow> x = q \<and> like_match p' s' | _ \<Rightarrow> False)
     else (case s of [] \<Rightarrow> False | x # s' \<Rightarrow> x = c \<and> like_match p s'))"

definition like_truth :: "cell option \<Rightarrow> cell option \<Rightarrow> bool option" where
  "like_truth a b = (case (a, b) of (Some (CStr s), Some (CStr p)) \<Rightarrow> Some (like_match p s) | _ \<Rightarrow> None)"

text \<open>The comparison operators of the built-in types, null when an operand is, and \<^verbatim>\<open>LIKE\<close>; the others are
  not known.\<close>

definition opr_truth :: "collations \<Rightarrow> pg_operators \<Rightarrow> bool option \<Rightarrow> nat \<Rightarrow> nat \<Rightarrow> cell option \<Rightarrow> cell option \<Rightarrow> bool option" where
  "opr_truth coll opers unknown op_no c a b =
    (case opers op_no of
       None \<Rightarrow> unknown
     | Some (n, lt, rt) \<Rightarrow>
         if is_comparison (n, lt, rt) then (case (a, b) of (Some x, Some y) \<Rightarrow> name_cmp n (pg_less coll c) x y | _ \<Rightarrow> None)
         else if (n, lt, rt) = (''~~'', 25, 25) then like_truth a b
         else unknown)"

definition op_truth :: "collations \<Rightarrow> pg_operators \<Rightarrow> bool option \<Rightarrow> row \<Rightarrow> nat \<Rightarrow> nat \<Rightarrow> pg_node list option \<Rightarrow> bool option" where
  "op_truth coll opers unknown row op_no c args =
    (case args of
       Some [l, r] \<Rightarrow>
         (case (pg_operand row l, pg_operand row r) of
            (Some a, Some b) \<Rightarrow> opr_truth coll opers unknown op_no c a b
          | _ \<Rightarrow> unknown)
     | _ \<Rightarrow> unknown)"

text \<open>\<open>= ANY\<close> and \<open>\<noteq> ALL\<close> over the elements of an array constant.\<close>

definition element_truth ::
  "collations \<Rightarrow> pg_operators \<Rightarrow> bool option \<Rightarrow> nat \<Rightarrow> nat \<Rightarrow> cell option \<Rightarrow> nat \<Rightarrow> pg_datum option \<Rightarrow> bool option" where
  "element_truth coll opers unknown op_no c a elem_ty v =
    (case v of
       None \<Rightarrow> opr_truth coll opers unknown op_no c a None
     | Some e \<Rightarrow>
         (case const_cell elem_ty e of
            None \<Rightarrow> unknown
          | Some k \<Rightarrow> opr_truth coll opers unknown op_no c a (Some k)))"

definition array_truth :: "collations \<Rightarrow> pg_operators \<Rightarrow> bool option \<Rightarrow> row \<Rightarrow> nat \<Rightarrow> bool \<Rightarrow> nat \<Rightarrow> pg_node list option \<Rightarrow> bool option" where
  "array_truth coll opers unknown row op_no useOr c args =
    (case args of
       Some [l, Const ty False d] \<Rightarrow>
         (case (pg_operand row l, array_of d) of
            (Some a, Some (elem_ty, vs)) \<Rightarrow>
              (let rs = map (element_truth coll opers unknown op_no c a elem_ty) vs in
               if useOr then foldl kleene_or (Some False) rs else foldl kleene_and (Some True) rs)
          | _ \<Rightarrow> unknown)
     | _ \<Rightarrow> unknown)"

fun pg_truth :: "collations \<Rightarrow> pg_operators \<Rightarrow> (pg_node \<Rightarrow> bool option) \<Rightarrow> row \<Rightarrow> pg_node \<Rightarrow> bool option"
  and pg_truths :: "collations \<Rightarrow> pg_operators \<Rightarrow> (pg_node \<Rightarrow> bool option) \<Rightarrow> row \<Rightarrow> pg_node list \<Rightarrow> bool option list" where
  "pg_truth coll opers U row NullNode = U NullNode"
| "pg_truth coll opers U row (RelabelType arg) = pg_truth coll opers U row arg"
| "pg_truth coll opers U row (Var ty attno c) =
    (if ty = BOOLOID \<and> attno \<ge> 1 then map_option (\<lambda>v. cell_cmp sql_less Eq v (CBool True)) (row ! nat (attno - 1)) else U (Var ty attno c))"
| "pg_truth coll opers U row (Const ty isnull d) = U (Const ty isnull d)"
| "pg_truth coll opers U row (OpExpr op_no c args) = op_truth coll opers (U (OpExpr op_no c args)) row op_no c args"
| "pg_truth coll opers U row (BoolExpr op args) =
    (case args of
       None \<Rightarrow> U (BoolExpr op args)
     | Some xs \<Rightarrow>
        (case op of
           AND_EXPR \<Rightarrow> foldl kleene_and (Some True) (pg_truths coll opers U row xs)
         | OR_EXPR \<Rightarrow> foldl kleene_or (Some False) (pg_truths coll opers U row xs)
         | NOT_EXPR \<Rightarrow> (case pg_truths coll opers U row xs of [t] \<Rightarrow> map_option Not t | _ \<Rightarrow> U (BoolExpr op args))))"
| "pg_truth coll opers U row (NullTest arg kind) =
    (case pg_operand row arg of
       None \<Rightarrow> U (NullTest arg kind)
     | Some v \<Rightarrow> Some (case kind of IS_NULL \<Rightarrow> v = None | IS_NOT_NULL \<Rightarrow> v \<noteq> None))"
| "pg_truth coll opers U row (BooleanTest arg kind) =
    (case pg_operand row arg of
       None \<Rightarrow> U (BooleanTest arg kind)
     | Some v \<Rightarrow> Some (case kind of
           IS_TRUE \<Rightarrow> v = Some (CBool True) | IS_NOT_TRUE \<Rightarrow> v \<noteq> Some (CBool True)
         | IS_FALSE \<Rightarrow> v = Some (CBool False) | IS_NOT_FALSE \<Rightarrow> v \<noteq> Some (CBool False)
         | IS_UNKNOWN \<Rightarrow> v = None | IS_NOT_UNKNOWN \<Rightarrow> v \<noteq> None))"
| "pg_truth coll opers U row (ScalarArrayOpExpr op_no useOr c args) =
    array_truth coll opers (U (ScalarArrayOpExpr op_no useOr c args)) row op_no useOr c args"
| "pg_truth coll opers U row (OtherNode tag) = U (OtherNode tag)"
| "pg_truths coll opers U row [] = []"
| "pg_truths coll opers U row (x # xs) = pg_truth coll opers U row x # pg_truths coll opers U row xs"

section \<open>Where the walker is exact\<close>

text \<open>Exact: the translation has the same value, null included.  The walker loses conjuncts, and the
  false of \<^verbatim>\<open>IS TRUE\<close> on null; below a \<^verbatim>\<open>NOT\<close> neither is allowed.\<close>

fun exact :: "pg_node \<Rightarrow> bool" where
  "exact (RelabelType n) = exact n"
| "exact (OpExpr op_no c args) = (op_no \<noteq> TEXT_LIKE_OPNO)"
| "exact (BoolExpr op args) = (case args of None \<Rightarrow> True | Some xs \<Rightarrow> list_all (\<lambda>x. exact x \<and> walk_node x \<noteq> None) xs)"
| "exact (BooleanTest arg kind) = False"
| "exact _ = True"

fun nots_exact :: "pg_node \<Rightarrow> bool" where
  "nots_exact (RelabelType n) = nots_exact n"
| "nots_exact (BoolExpr op args) =
    (case args of
       None \<Rightarrow> True
     | Some xs \<Rightarrow> if op = NOT_EXPR then length xs = 1 \<and> list_all exact xs else list_all nots_exact xs)"
| "nots_exact _ = True"

text \<open>No explicit \<^verbatim>\<open>COLLATE\<close>: the operator uses the collation of its column.  The walker does not look at the
  collation of an \<^verbatim>\<open>IN\<close> list, whose equality is that of bytes only under a deterministic collation.\<close>

definition column_collation :: "nat \<Rightarrow> pg_node \<Rightarrow> bool" where
  "column_collation c n = (case peel_relabel n of Var t a vc \<Rightarrow> vc = c | _ \<Rightarrow> True)"

definition deterministic :: "collations \<Rightarrow> nat \<Rightarrow> bool" where
  "deterministic coll c \<longleftrightarrow> (\<forall>a b. (\<not> coll c a b \<and> \<not> coll c b a) = (a = b))"

fun collation_safe :: "collations \<Rightarrow> pg_node \<Rightarrow> bool" where
  "collation_safe coll (RelabelType n) = collation_safe coll n"
| "collation_safe coll (OpExpr op_no c args) = (case args of None \<Rightarrow> True | Some xs \<Rightarrow> list_all (column_collation c) xs)"
| "collation_safe coll (BoolExpr op args) = (case args of None \<Rightarrow> True | Some xs \<Rightarrow> list_all (collation_safe coll) xs)"
| "collation_safe coll (ScalarArrayOpExpr op_no useOr c args) = deterministic coll c"
| "collation_safe coll _ = True"

text \<open>What is assumed of the collations: the three the walker accepts compare bytes.\<close>

definition bytewise :: "collations \<Rightarrow> bool" where
  "bytewise coll \<longleftrightarrow> (\<forall>c \<in> {DEFAULT_COLLATION_OID, C_COLLATION_OID, InvalidOid}. coll c = (<))"

section \<open>Soundness\<close>

lemma pg_less_bytewise: "coll c = (<) \<Longrightarrow> pg_less coll c = sql_less"
proof (intro ext)
  fix a b
  assume "coll c = (<)"
  then show "pg_less coll c a b = sql_less a b" by (cases a; cases b) (simp_all add: pg_less_def)
qed

lemma pg_equal: "deterministic coll c \<Longrightarrow> op \<in> {Eq, Ne} \<Longrightarrow> cell_cmp (pg_less coll c) op a b = cell_cmp sql_less op a b"
proof -
  assume b: "deterministic coll c" and op: "op \<in> {Eq, Ne}"
  have "(\<not> pg_less coll c a b \<and> \<not> pg_less coll c b a) = (\<not> sql_less a b \<and> \<not> sql_less b a)"
  proof (cases "\<exists>x y. a = CStr x \<and> b = CStr y")
    case True
    then obtain x y where xy: "a = CStr x" "b = CStr y" by blast
    have "(\<not> coll c x y \<and> \<not> coll c y x) = (x = y)" using b by (simp add: deterministic_def)
    then show ?thesis unfolding xy by (auto simp: pg_less_def)
  next
    case False
    then show ?thesis by (cases a; cases b) (auto simp: pg_less_def)
  qed
  then show ?thesis using op by auto
qed

lemma try_var_operand: "try_var n = Some c \<Longrightarrow> pg_operand row n = Some (row ! c)"
  by (auto simp: try_var_def pg_operand_def split: pg_node.splits if_splits)

lemma lower_datum_cell: "lower_datum ty d = Some v \<Longrightarrow> const_cell ty d = scalar_cell v \<and> scalar_cell v \<noteq> None"
  by (auto simp: lower_datum_def const_cell_def text_datum_to_string_def pg_to_unix_days_def split: if_splits option.splits)

lemma try_const_operand: "try_const n = Some v \<Longrightarrow> pg_operand row n = Some (scalar_cell v) \<and> scalar_cell v \<noteq> None"
  using lower_datum_cell by (fastforce simp: try_const_def pg_operand_def split: pg_node.splits if_splits)

fun op_name :: "pushed_op \<Rightarrow> string" where
  "op_name Eq = ''=''" | "op_name Ne = ''<>''" | "op_name Lt = ''<''" | "op_name Le = ''<=''" | "op_name Gt = ''>''"
| "op_name Ge = ''>=''" | "op_name IsNull = ''IS NULL''" | "op_name IsNotNull = ''IS NOT NULL''"

fun pg_type_oid :: "data_type \<Rightarrow> nat" where
  "pg_type_oid Int16 = 21" | "pg_type_oid Int32 = 23" | "pg_type_oid Int64 = 20" | "pg_type_oid Float32 = 700"
| "pg_type_oid Float64 = 701" | "pg_type_oid Utf8 = 25" | "pg_type_oid Date32 = 1082" | "pg_type_oid _ = 0"

text \<open>Every entry of the operator table is the documented row of its OID.\<close>

lemma lookup_op_documented:
  assumes "lookup_op k = Some (op, l, r)"
  shows "(k, op_name op, pg_type_oid l, pg_type_oid r) \<in> set pg_operator_rows" "op \<notin> {IsNull, IsNotNull}"
    "is_comparison (op_name op, pg_type_oid l, pg_type_oid r)"
proof -
  have k: "(k, op, l, r) \<in> set PUSHABLE_OPS" using assms by (auto simp: lookup_op_def find_Some_iff in_set_conv_nth)
  have "list_all (\<lambda>(k, op, l, r). (k, op_name op, pg_type_oid l, pg_type_oid r) \<in> set pg_operator_rows \<and> op \<notin> {IsNull, IsNotNull}
      \<and> is_comparison (op_name op, pg_type_oid l, pg_type_oid r)) PUSHABLE_OPS"
    by (simp add: PUSHABLE_OPS_def pg_operator_rows_def is_comparison_def)
  then show "(k, op_name op, pg_type_oid l, pg_type_oid r) \<in> set pg_operator_rows" "op \<notin> {IsNull, IsNotNull}"
    "is_comparison (op_name op, pg_type_oid l, pg_type_oid r)"
    using k by (auto simp: list_all_iff)
qed

lemma name_cmp_op: "op \<notin> {IsNull, IsNotNull} \<Longrightarrow> name_cmp (op_name op) lt a b = Some (cell_cmp lt op a b)"
  by (cases op) (simp_all add: name_cmp_def)

lemma opr_truth_lookup:
  assumes "documented_operators opers" "lookup_op k = Some (op, l, r)"
  shows "opr_truth coll opers u k c a b = (case (a, b) of (Some x, Some y) \<Rightarrow> Some (cell_cmp (pg_less coll c) op x y) | _ \<Rightarrow> None)"
proof -
  note d = lookup_op_documented[OF assms(2)]
  have "opers k = Some (op_name op, pg_type_oid l, pg_type_oid r)"
    using assms(1) d(1) by (force simp: documented_operators_def list_all_iff)
  then show ?thesis using d(3) name_cmp_op[OF d(2)] by (simp add: opr_truth_def split: option.split)
qed

lemma opr_truth_like: "documented_operators opers \<Longrightarrow> opr_truth coll opers u TEXT_LIKE_OPNO c a b = like_truth a b"
  by (simp add: documented_operators_def pg_operator_rows_def opr_truth_def TEXT_LIKE_OPNO_def is_comparison_def)

lemma leaf_truth:
  assumes "op \<notin> {IsNull, IsNotNull}" "scalar_cell v = Some l"
  shows "sql_truth row (leaf c op v) = (case row ! c of None \<Rightarrow> None | Some x \<Rightarrow> Some (cell_cmp sql_less op x l))"
  using assms by (cases op) (auto simp: leaf_def qual_truth_def split: option.splits)

lemma flip_op_truth: "op \<notin> {IsNull, IsNotNull} \<Longrightarrow> cell_cmp lt (flip_op op) a b = cell_cmp lt op b a \<and> flip_op op \<notin> {IsNull, IsNotNull}"
  by (cases op) (auto simp: flip_op_def)

lemma collation_guard: "bytewise coll \<Longrightarrow> var_collation_ok n \<Longrightarrow> column_collation c n \<Longrightarrow> pg_less coll c = sql_less"
  by (auto simp: var_collation_ok_def column_collation_def bytewise_def intro!: pg_less_bytewise split: pg_node.splits)

lemma walk_op_exact:
  assumes "bytewise coll" "collation_safe coll (OpExpr op_no c args)" "op_no \<noteq> TEXT_LIKE_OPNO" "walk_op_expr op_no args = Some e"
    "documented_operators opers"
  shows "op_truth coll opers u row op_no c args = sql_truth row e"
proof -
  obtain op t1 t2 where op: "lookup_op op_no = Some (op, t1, t2)"
    using assms(3,4) by (cases "lookup_op op_no") (auto simp: walk_op_expr_def)
  obtain l r where args: "args = Some [l, r]"
    using assms(3,4) op by (auto simp: walk_op_expr_def split: option.splits list.splits)
  have coll: "column_collation c l" "column_collation c r" using assms(2) args by simp_all
  note cmp = lookup_op_documented(2)[OF op]
  consider (vc) col v where "try_var l = Some col" "try_const r = Some v" "var_collation_ok l" "e = leaf col op v"
    | (cv) col v where "try_const l = Some v" "try_var r = Some col" "var_collation_ok r" "e = leaf col (flip_op op) v"
    using assms(3,4) op args by (auto simp: walk_op_expr_def split: option.splits if_splits)
  then show ?thesis
  proof cases
    case vc
    obtain k where k: "scalar_cell v = Some k" "pg_operand row r = Some (Some k)"
      using try_const_operand[OF vc(2), of row] by auto
    show ?thesis
      using args op assms(3) try_var_operand[OF vc(1), of row] k leaf_truth[OF cmp k(1), of row col]
        collation_guard[OF assms(1) vc(3) coll(1)] vc(4)
      by (simp add: op_truth_def opr_truth_lookup[OF assms(5) op] split: option.split)
  next
    case cv
    obtain k where k: "scalar_cell v = Some k" "pg_operand row l = Some (Some k)"
      using try_const_operand[OF cv(1), of row] by auto
    show ?thesis
      using args op assms(3) try_var_operand[OF cv(2), of row] k leaf_truth[OF conjunct2[OF flip_op_truth[OF cmp]] k(1), of row col]
        flip_op_truth[OF cmp] collation_guard[OF assms(1) cv(3) coll(2)] cv(4)
      by (simp add: op_truth_def opr_truth_lookup[OF assms(5) op] split: option.split)
  qed
qed

lemma like_percent: "like_match ''%'' s"
  by (auto intro: exI[of _ "length s"])

lemma like_prefix: "CHR ''%'' \<notin> set p \<Longrightarrow> CHR ''_'' \<notin> set p \<Longrightarrow> CHR 0x5C \<notin> set p \<Longrightarrow>
    like_match (p @ ''%'') s \<Longrightarrow> \<exists>r. s = p @ r"
proof (induction p arbitrary: s)
  case (Cons c p)
  then obtain x s' where "s = x # s'" "x = c" "like_match (p @ ''%'') s'" by (cases s) auto
  then show ?case using Cons by auto
qed simp

lemma walk_like_sound:
  assumes "walk_like args = Some e" "op_truth coll opers u row TEXT_LIKE_OPNO c args = Some True" "documented_operators opers"
  shows "sql_truth row e = Some True"
proof -
  obtain l r where args: "args = Some [l, r]" using assms(1) by (auto simp: walk_like_def split: option.splits list.splits)
  obtain col pat pre u where w: "try_var l = Some col" "const_text_arg r = Some pat" "like_prefix_literal pat = Some pre"
    "next_lex_upper pre = Some u" "e = And [leaf col Ge (SUtf8 pre), leaf col Lt (SUtf8 u)]"
    using assms(1) args by (auto simp: walk_like_def Option.bind_eq_Some_conv split: if_splits)
  have r: "pg_operand row r = Some (Some (CStr pat))"
    using w(2) by (auto simp: const_text_arg_def pg_operand_def const_cell_def text_datum_to_string_def
        split: pg_node.splits if_splits option.splits)
  have pat: "pat = pre @ ''%''" "CHR ''%'' \<notin> set pre" "CHR ''_'' \<notin> set pre" "CHR 0x5C \<notin> set pre"
    using w(3) by (cases pat rule: rev_cases; auto simp: like_prefix_literal_def Let_def ends_with_def starts_with_def split: if_splits)+
  have "like_truth (row ! col) (Some (CStr pat)) = Some True"
    using assms(2) args r try_var_operand[OF w(1), of row] opr_truth_like[OF assms(3)] by (simp add: op_truth_def)
  then obtain s where s: "row ! col = Some (CStr s)" "like_match pat s"
    by (auto simp: like_truth_def split: option.splits cell.splits)
  then obtain t where "s = pre @ t" using like_prefix[of pre s] pat by blast
  then have "pre \<le> s" "s < u" using prefix_interval[OF w(4)] by auto
  then show ?thesis unfolding w(5) using s(1) by (simp add: leaf_def qual_truth_def)
qed

lemma array_form:
  assumes "walk_scalar_array_op op_no useOr args = Some e"
  obtains op t1 t2 l col ss ty d elem_ty vs where "lookup_op op_no = Some (op, t1, t2)" "op \<in> {Eq, Ne}" "useOr \<longleftrightarrow> op = Eq"
    "args = Some [l, Const ty False d]" "try_var l = Some col" "array_of d = Some (elem_ty, vs)"
    "list_all2 (\<lambda>v s. \<exists>e. v = Some e \<and> lower_datum elem_ty e = Some s) vs ss"
    "\<forall>row. sql_truth row e = (let ts = map (\<lambda>s. sql_truth row (leaf col op s)) ss in
      if useOr then foldl kleene_or (Some False) ts else foldl kleene_and (Some True) ts)"
proof -
  obtain op t1 t2 where op: "lookup_op op_no = Some (op, t1, t2)"
    using assms by (cases "lookup_op op_no") (auto simp: walk_scalar_array_op_def)
  have eq: "op \<in> {Eq, Ne}" "useOr \<longleftrightarrow> op = Eq"
    using assms op by (auto simp: walk_scalar_array_op_def Let_def split: if_splits)
  obtain l a where args: "args = Some [l, a]"
    using assms op by (auto simp: walk_scalar_array_op_def Let_def split: if_splits option.splits list.splits)
  obtain col ss where w: "try_var l = Some col" "try_array_const a = Some ss"
    "e = (if length ss = 1 then hd (map (leaf col op) ss) else if op = Eq then Or (map (leaf col op) ss) else And (map (leaf col op) ss))"
    using assms op args eq by (auto simp: walk_scalar_array_op_def Let_def Option.bind_eq_Some_conv split: if_splits)
  obtain ty d elem_ty vs where a: "a = Const ty False d" "array_of d = Some (elem_ty, vs)"
    "option_all (map (\<lambda>v. case v of None \<Rightarrow> None | Some e \<Rightarrow> lower_datum elem_ty e) vs) = Some ss"
    using w(2) by (auto simp: try_array_const_def split: pg_node.splits if_splits option.splits)
  have low: "list_all2 (\<lambda>v s. \<exists>e. v = Some e \<and> lower_datum elem_ty e = Some s) vs ss"
    using a(3)[unfolded option_all_Some] by (rule list.rel_mono_strong) (auto split: option.splits)
  have "sql_truth row e = (let ts = map (\<lambda>s. sql_truth row (leaf col op s)) ss in
      if useOr then foldl kleene_or (Some False) ts else foldl kleene_and (Some True) ts)" for row
    unfolding w(3) by (cases ss rule: remdups_adj.cases) (use eq(2) in \<open>auto simp: comp_def Let_def\<close>)
  from that[OF op eq args[unfolded a(1)] w(1) a(2) low allI[OF this]] show thesis .
qed

lemma array_exact:
  assumes "deterministic coll c" "walk_scalar_array_op op_no useOr args = Some e" "documented_operators opers"
  shows "array_truth coll opers u row op_no useOr c args = sql_truth row e"
proof -
  obtain op t1 t2 l col ss ty d elem_ty vs where op: "lookup_op op_no = Some (op, t1, t2)" "op \<in> {Eq, Ne}" "useOr \<longleftrightarrow> op = Eq"
    and args: "args = Some [l, Const ty False d]" "try_var l = Some col" "array_of d = Some (elem_ty, vs)"
    and low: "list_all2 (\<lambda>v s. \<exists>e. v = Some e \<and> lower_datum elem_ty e = Some s) vs ss"
    and e: "\<forall>row. sql_truth row e = (let ts = map (\<lambda>s. sql_truth row (leaf col op s)) ss in
      if useOr then foldl kleene_or (Some False) ts else foldl kleene_and (Some True) ts)"
    by (rule array_form[OF assms(2)])
  have "list_all2 (\<lambda>v s. sql_truth row (leaf col op s) = element_truth coll opers u op_no c (row ! col) elem_ty v) vs ss"
    using low
  proof (rule list.rel_mono_strong)
    fix v s assume "\<exists>e. v = Some e \<and> lower_datum elem_ty e = Some s"
    then obtain e where e: "v = Some e" "lower_datum elem_ty e = Some s" by blast
    then obtain k where k: "scalar_cell s = Some k" "const_cell elem_ty e = Some k" using lower_datum_cell by fastforce
    show "sql_truth row (leaf col op s) = element_truth coll opers u op_no c (row ! col) elem_ty v"
      using leaf_truth[OF _ k(1), of op row col] op(2) e k pg_equal[OF assms(1) op(2)]
      by (auto simp: element_truth_def opr_truth_lookup[OF assms(3) op(1)] split: option.split)
  qed
  from list_all2_map_eq[OF this]
  have "map (element_truth coll opers u op_no c (row ! col) elem_ty) vs = map (\<lambda>s. sql_truth row (leaf col op s)) ss" by (rule sym)
  then show ?thesis using args try_var_operand[OF args(2), of row] using e by (simp add: array_truth_def Let_def)
qed

lemma kleene_de_morgan:
  "map_option Not (foldl kleene_and a bs) = foldl kleene_or (map_option Not a) (map (map_option Not) bs)"
  "map_option Not (foldl kleene_or a bs) = foldl kleene_and (map_option Not a) (map (map_option Not) bs)"
proof -
  have "map_option Not (kleene_and a b) = kleene_or (map_option Not a) (map_option Not b)"
    "map_option Not (kleene_or a b) = kleene_and (map_option Not a) (map_option Not b)" for a b
    by (cases "(a, b)" rule: kleene_and.cases; cases b; auto)+
  then show "map_option Not (foldl kleene_and a bs) = foldl kleene_or (map_option Not a) (map (map_option Not) bs)"
    "map_option Not (foldl kleene_or a bs) = foldl kleene_and (map_option Not a) (map (map_option Not) bs)"
    by (induction bs arbitrary: a) auto
qed

lemma invert_truth: "invert_pushed e = Some e' \<Longrightarrow> sql_truth row e' = map_option Not (sql_truth row e)"
proof (induction e arbitrary: e')
  case (Leaf q)
  then obtain op where "inverse_op (q_op q) = Some op" "e' = Leaf (q \<lparr> q_op := op \<rparr>)" by auto
  then show ?case using inverse_truth[of q op] by simp
next
  case (And xs)
  then obtain ys where ys: "e' = Or ys" "list_all2 (\<lambda>x y. invert_pushed x = Some y) xs ys" by (auto simp: option_all_Some)
  have "list_all2 (\<lambda>x y. sql_truth row y = map_option Not (sql_truth row x)) xs ys"
    using ys(2) And.IH by (rule list.rel_mono_strong)
  then show ?case unfolding ys(1) using list_all2_map_eq[of "sql_truth row" "\<lambda>x. map_option Not (sql_truth row x)" xs ys]
    by (simp add: kleene_de_morgan comp_def)
next
  case (Or xs)
  then obtain ys where ys: "e' = And ys" "list_all2 (\<lambda>x y. invert_pushed x = Some y) xs ys" by (auto simp: option_all_Some)
  have "list_all2 (\<lambda>x y. sql_truth row y = map_option Not (sql_truth row x)) xs ys"
    using ys(2) Or.IH by (rule list.rel_mono_strong)
  then show ?case unfolding ys(1) using list_all2_map_eq[of "sql_truth row" "\<lambda>x. map_option Not (sql_truth row x)" xs ys]
    by (simp add: kleene_de_morgan comp_def)
next
  case (Negate x)
  then show ?case by (cases "sql_truth row x") auto
qed

lemma pg_truths_map: "pg_truths coll opers U row xs = map (pg_truth coll opers U row) xs"
  by (induction xs) auto

lemma walk_children_full: "list_all (\<lambda>x. walk_node x \<noteq> None) xs \<Longrightarrow> walk_children xs = map (\<lambda>x. the (walk_node x)) xs"
  by (induction xs) auto

lemma walk_children_length: "length (walk_children xs) \<le> length xs \<and>
    (length (walk_children xs) = length xs \<longrightarrow> list_all (\<lambda>x. walk_node x \<noteq> None) xs)"
  by (induction xs) (auto split: option.splits)

lemma walk_children_mem: "e \<in> set (walk_children xs) \<Longrightarrow> \<exists>x \<in> set xs. walk_node x = Some e"
  by (induction xs) (auto split: option.splits if_splits)

lemma kleene_single: "foldl kleene_and (Some True) [t] = t" "foldl kleene_or (Some False) [t] = t"
  by simp_all

lemma bool_expr_exact:
  assumes "walk_bool_expr op (length xs) (map f xs) = Some e" "\<forall>x \<in> set xs. t x = sql_truth row (f x)"
    "pg_truths coll opers U row xs = map t xs"
  shows "pg_truth coll opers U row (BoolExpr op (Some xs)) = sql_truth row e"
proof -
  have m: "map t xs = map (sql_truth row) (map f xs)" using assms(2) by simp
  have l: "length xs = 1 \<Longrightarrow> \<exists>x. xs = [x]" by (auto simp: length_Suc_conv)
  show ?thesis
  proof (cases op)
    case AND_EXPR
    then show ?thesis using assms(1,3) m l by (auto simp: walk_bool_expr_def split: if_splits)
  next
    case OR_EXPR
    then show ?thesis using assms(1,3) m l by (auto simp: walk_bool_expr_def split: if_splits)
  next
    case NOT_EXPR
    then obtain x where x: "xs = [x]" "invert_pushed (f x) = Some e"
      using assms(1) l by (auto simp: walk_bool_expr_def split: if_splits)
    then show ?thesis using NOT_EXPR assms(3) m invert_truth[OF x(2)] by simp
  qed
qed

lemma walk_exact:
  "bytewise coll \<Longrightarrow> documented_operators opers \<Longrightarrow> collation_safe coll n \<Longrightarrow> exact n \<Longrightarrow> walk_node n = Some e \<Longrightarrow> pg_truth coll opers U row n = sql_truth row e"
proof (induction n arbitrary: e)
  case (Var ty a c)
  then have "e = leaf (nat (a - 1)) Eq (SBool True)" "ty = BOOLOID" "a \<ge> 1" by (auto split: if_splits)
  then show ?case using leaf_truth[of Eq "SBool True" "CBool True" row "nat (a - 1)"] 
    by (auto split: option.split)
next
  case (OpExpr op_no c args)
  then show ?case using walk_op_exact[of coll op_no c args e opers] by simp
next
  case (BoolExpr op args)
  then obtain xs where xs: "args = Some xs" by (cases args) auto
  have full: "list_all (\<lambda>x. walk_node x \<noteq> None) xs" using BoolExpr.prems(4) xs by (auto simp: list_all_iff)
  have "walk_bool_expr op (length xs) (map (\<lambda>x. the (walk_node x)) xs) = Some e"
    using BoolExpr.prems(5) xs walk_children_full[OF full] by simp
  moreover have "\<forall>x \<in> set xs. pg_truth coll opers U row x = sql_truth row (the (walk_node x))"
  proof
    fix x assume x: "x \<in> set xs"
    then have "collation_safe coll x" "exact x" "walk_node x = Some (the (walk_node x))"
      using BoolExpr.prems(3,4) xs by (auto simp: list_all_iff)
    then show "pg_truth coll opers U row x = sql_truth row (the (walk_node x))"
      using BoolExpr.IH[of xs x] BoolExpr.prems(1,2) x xs by simp
  qed
  ultimately show ?case unfolding xs using bool_expr_exact pg_truths_map by blast
next
  case (NullTest arg kind)
  then obtain col where "try_var arg = Some col" "e = leaf col (case kind of IS_NULL \<Rightarrow> IsNull | IS_NOT_NULL \<Rightarrow> IsNotNull) SNull"
    by (auto simp: walk_null_test_def Option.bind_eq_Some_conv)
  then show ?case using try_var_operand[of arg col row] by (cases kind) (simp_all add: leaf_def qual_truth_def)
next
  case (ScalarArrayOpExpr op_no useOr c args)
  then show ?case using array_exact[of coll c op_no useOr args e opers] by simp
qed auto

lemma walk_sound:
  "bytewise coll \<Longrightarrow> documented_operators opers \<Longrightarrow> collation_safe coll n \<Longrightarrow> nots_exact n \<Longrightarrow> walk_node n = Some e \<Longrightarrow> pg_truth coll opers U row n = Some True \<Longrightarrow>
    sql_truth row e = Some True"
proof (induction n arbitrary: e)
  case (OpExpr op_no c args)
  show ?case
  proof (cases "op_no = TEXT_LIKE_OPNO")
    case True
    then show ?thesis using OpExpr.prems walk_like_sound[of args e coll opers "U (OpExpr op_no c args)" row c]
      by (simp add: walk_op_expr_def)
  next
    case False
    then show ?thesis using OpExpr.prems walk_exact[of coll opers "OpExpr op_no c args" e U row] by simp
  qed
next
  case (BoolExpr op args)
  then obtain xs where xs: "args = Some xs" by (cases args) auto
  have w: "walk_bool_expr op (length xs) (walk_children xs) = Some e" using BoolExpr.prems(5) xs by simp
  have IH: "sql_truth row e' = Some True" if "op \<noteq> NOT_EXPR" "x \<in> set xs" "walk_node x = Some e'" "pg_truth coll opers U row x = Some True" for x e'
    using BoolExpr.IH[of xs x e'] BoolExpr.prems(1-4) xs that by (simp add: list_all_iff)
  show ?case
  proof (cases op)
    case AND_EXPR
    have all: "\<forall>x \<in> set xs. pg_truth coll opers U row x = Some True"
      using BoolExpr.prems(6) xs AND_EXPR by (simp add: pg_truths_map foldl_kleene_and)
    have "\<forall>c \<in> set (walk_children xs). sql_truth row c = Some True"
      using walk_children_mem IH all AND_EXPR by blast
    then show ?thesis using w AND_EXPR
      by (auto simp: walk_bool_expr_def foldl_kleene_and split: if_splits)
  next
    case OR_EXPR
    then have full: "list_all (\<lambda>x. walk_node x \<noteq> None) xs" using w walk_children_length[of xs]
      by (auto simp: walk_bool_expr_def split: if_splits)
    obtain x where x: "x \<in> set xs" "pg_truth coll opers U row x = Some True"
      using BoolExpr.prems(6) xs OR_EXPR by (auto simp: pg_truths_map foldl_kleene_or)
    obtain c where c: "walk_node x = Some c" using full x(1) by (auto simp: list_all_iff)
    then have "sql_truth row c = Some True" "c \<in> set (walk_children xs)"
      using IH x OR_EXPR walk_children_full[OF full] by (force intro: image_eqI[of _ _ x])+
    then show ?thesis using w OR_EXPR by (auto simp: walk_bool_expr_def foldl_kleene_or length_Suc_conv image_iff intro!: bexI[of _ c] split: if_splits)
  next
    case NOT_EXPR
    then have "exact (BoolExpr op args)" using BoolExpr.prems(4) xs w
      by (auto simp: length_Suc_conv walk_bool_expr_def split: if_splits option.splits)
    then show ?thesis using walk_exact[OF BoolExpr.prems(1-3) _ BoolExpr.prems(5)] BoolExpr.prems(6) by simp
  qed
next
  case (BooleanTest arg kind)
  then have "walk_boolean_test arg kind = Some e" by simp
  then obtain col where c: "try_var arg = Some col" "(kind = IS_TRUE \<and> e = leaf col Eq (SBool True)) \<or> (kind = IS_FALSE \<and> e = leaf col Eq (SBool False))"
    by (cases kind) (auto simp: walk_boolean_test_def Option.bind_eq_Some_conv)
  then show ?case using BooleanTest.prems(6) try_var_operand[OF c(1), of row] by (auto simp: leaf_def qual_truth_def)
next
  case (Var ty a c)
  then show ?case using walk_exact[of coll opers "Var ty a c" e U row] by simp
next
  case (NullTest arg kind)
  then show ?case using walk_exact[of coll opers "NullTest arg kind" e U row] by simp
next
  case (ScalarArrayOpExpr op_no useOr c args)
  then show ?case using walk_exact[of coll opers "ScalarArrayOpExpr op_no useOr c args" e U row] by simp
qed auto

section \<open>Properties\<close>

text \<open>C17: what the walker pushes is implied by the quals.  Whatever the nodes and operators it does not know
  evaluate to, on a row where all quals of the plan are true every pushed expression is true, so
  filtering by the pushed expressions keeps the row.  The operators mean what the documented catalogue
  of PostgreSQL says of their OIDs.  This needs that the default, the \<^verbatim>\<open>C\<close> and the invalid collation
  compare bytes, that comparisons use the collation of their column (no explicit \<^verbatim>\<open>COLLATE\<close>), that
  \<^verbatim>\<open>IN\<close> lists use a deterministic collation, and that below a \<^verbatim>\<open>NOT\<close> stands only what is translated
  without loss.\<close>

theorem walk_quals_sound:
  assumes "bytewise coll" "documented_operators opers" "\<forall>n \<in> set xs. collation_safe coll n \<and> nots_exact n"
    "\<forall>n \<in> set xs. pg_truth coll opers U row n = Some True" "e \<in> set (walk_quals (Some xs))"
  shows "sql_truth row e = Some True"
proof -
  obtain n where n: "n \<in> set xs" "walk_node n = Some e" using assms(5) walk_children_mem by (auto simp: walk_quals_def)
  then show ?thesis using walk_sound[OF assms(1,2) _ _ n(2)] assms(3,4) by blast
qed

definition int4 :: "nat \<Rightarrow> pg_node" where
  "int4 i = Const 23 False (Datum (of_nat i) None None)"


definition int4_eq :: nat where "int4_eq = 96"

definition text_lt :: nat where "text_lt = 664"

definition catalogue :: pg_operators where
  "catalogue = map_of pg_operator_rows"

lemma catalogue_documented: "documented_operators catalogue"
  by (simp add: documented_operators_def catalogue_def pg_operator_rows_def)

lemma catalogue_int4_eq: "opr_truth coll catalogue u int4_eq c (Some x) (Some y) = Some (cell_cmp (pg_less coll c) Eq x y)"
  by (simp add: opr_truth_def catalogue_def pg_operator_rows_def int4_eq_def is_comparison_def name_cmp_def)

lemma lookup_examples:
  "lookup_op int4_eq = Some (Eq, Int32, Int32)" "int4_eq \<noteq> 1209" "lookup_op text_lt = Some (Lt, Utf8, Utf8)" "text_lt \<noteq> 1209"
  by (simp_all add: int4_eq_def text_lt_def lookup_op_def PUSHABLE_OPS_def)

lemmas walk_eval = walk_op_expr_def lookup_examples TEXT_LIKE_OPNO_def int4_def try_var_def try_const_def lower_datum_def
  var_collation_ok_def InvalidOid_def column_collation_def walk_null_test_def walk_bool_expr_def

lemmas truth_eval = op_truth_def catalogue_int4_eq pg_operand_def const_cell_def pg_less_def int4_def

theorem walk_quals_sound_witness:
  "sql_truth [Some (CInt 7), Some (CStr ''abc'')] (leaf 0 Eq (I32 7)) = Some True"
proof (rule walk_quals_sound[where coll = "\<lambda>_. (<)" and opers = catalogue and U = "\<lambda>_. None"
      and xs = "[BoolExpr AND_EXPR (Some [OpExpr int4_eq 0 (Some [int4 7, RelabelType (Var 23 1 0)]), NullTest (Var 25 2 100) IS_NOT_NULL]),
        OpExpr int4_eq 0 (Some [Var 23 1 0, int4 7])]"])
  show "bytewise (\<lambda>_. (<))" by (auto simp: bytewise_def)
  show "documented_operators catalogue" by (rule catalogue_documented)
qed (auto simp: walk_quals_def walk_eval truth_eval)

text \<open>C33: below a \<^verbatim>\<open>NOT\<close> the walker is not sound.  From the negation of a conjunction it drops the conjuncts it
  cannot translate and pushes the negation of the rest: for every conjunct \<open>a\<close> it translates exactly and
  every \<open>f\<close> it does not translate, a row on which \<open>a\<close> is true and \<open>f\<close> is false makes
  \<^verbatim>\<open>NOT (a AND f)\<close> true and what is pushed for it false.\<close>

theorem walk_not_unsound:
  assumes "bytewise coll" "documented_operators opers" "collation_safe coll a" "exact a" "walk_node a = Some e" "walk_node f = None"
    "invert_pushed e = Some e'" "pg_truth coll opers U row a = Some True" "pg_truth coll opers U row f = Some False"
  shows "walk_node (BoolExpr NOT_EXPR (Some [BoolExpr AND_EXPR (Some [a, f])])) = Some e'
    \<and> pg_truth coll opers U row (BoolExpr NOT_EXPR (Some [BoolExpr AND_EXPR (Some [a, f])])) = Some True
    \<and> sql_truth row e' = Some False"
  using assms(5-9) invert_truth[OF assms(7), of row] walk_exact[OF assms(1-5), of U row] by (simp add: walk_bool_expr_def)

theorem walk_not_unsound_witness:
  "walk_node (BoolExpr NOT_EXPR (Some [BoolExpr AND_EXPR (Some [OpExpr int4_eq 0 (Some [Var 23 1 0, int4 1]), OtherNode 0])]))
      = Some (leaf 0 Ne (I32 1))
    \<and> sql_truth [Some (CInt 1)] (leaf 0 Ne (I32 1)) = Some False"
proof -
  have b: "bytewise (\<lambda>_. (<))" by (simp add: bytewise_def)
  show ?thesis
    using walk_not_unsound[OF b catalogue_documented, of "OpExpr int4_eq 0 (Some [Var 23 1 0, int4 1])" "leaf 0 Eq (I32 1)"
        "OtherNode 0" "leaf 0 Ne (I32 1)" "\<lambda>_. Some False" "[Some (CInt 1)]"]
    by (simp add: walk_eval truth_eval leaf_def)
qed

text \<open>The same with \<^verbatim>\<open>NOT (b IS TRUE)\<close>, for which \<^verbatim>\<open>b <> true\<close> is pushed: a null \<^verbatim>\<open>b\<close> is lost.\<close>

lemma walk_not_is_true:
  assumes "try_var b = Some col" "row ! col = None"
  shows "walk_node (BoolExpr NOT_EXPR (Some [BooleanTest b IS_TRUE])) = Some (leaf col Ne (SBool True))
    \<and> pg_truth coll opers U row (BoolExpr NOT_EXPR (Some [BooleanTest b IS_TRUE])) = Some True
    \<and> sql_truth row (leaf col Ne (SBool True)) = None"
  using assms try_var_operand[OF assms(1), of row]
  by (simp add: walk_bool_expr_def walk_boolean_test_def leaf_def qual_truth_def)



text \<open>The \<^verbatim>\<open>IN\<close> list has no collation guard at all: on a text column under a nondeterministic collation the
  pushed list compares bytes, and every row whose value equals an element under the collation, but is
  none of the elements, is lost.\<close>

theorem walk_in_list_unsound:
  assumes "documented_operators opers" "walk_scalar_array_op k True (Some [Var 25 attno c, Const ty False d]) = Some e"
    "array_of d = Some (25, vs)" "row ! nat (attno - 1) = Some (CStr x)" "Some v \<in> set vs" "const_cell 25 v = Some (CStr s)"
    "\<not> coll c x s" "\<not> coll c s x" "\<forall>w. Some w \<in> set vs \<longrightarrow> const_cell 25 w \<noteq> Some (CStr x)"
  shows "walk_node (ScalarArrayOpExpr k True c (Some [Var 25 attno c, Const ty False d])) = Some e
    \<and> pg_truth coll opers U row (ScalarArrayOpExpr k True c (Some [Var 25 attno c, Const ty False d])) = Some True
    \<and> sql_truth row e \<noteq> Some True"
proof -
  let ?u = "U (ScalarArrayOpExpr k True c (Some [Var 25 attno c, Const ty False d]))"
  obtain op t1 t2 col ss where op: "lookup_op k = Some (op, t1, t2)" "op = Eq" and col: "try_var (Var 25 attno c) = Some col"
    and low: "list_all2 (\<lambda>v s. \<exists>e. v = Some e \<and> lower_datum 25 e = Some s) vs ss"
    and e: "sql_truth row e = foldl kleene_or (Some False) (map (\<lambda>s. sql_truth row (leaf col op s)) ss)"
    by (rule array_form[OF assms(2)]) (use assms(3) in \<open>auto simp: Let_def\<close>)
  have x: "row ! col = Some (CStr x)" using col assms(4) by (auto simp: try_var_def split: if_splits)
  have "element_truth coll opers ?u k c (row ! col) 25 (Some v) = Some True"
    using assms(6-8) x op(2) by (simp add: element_truth_def opr_truth_lookup[OF assms(1) op(1)] pg_less_def)
  then have "Some True \<in> element_truth coll opers ?u k c (row ! col) 25 ` set vs" using assms(5) by (metis image_eqI)
  then have "pg_truth coll opers U row (ScalarArrayOpExpr k True c (Some [Var 25 attno c, Const ty False d])) = Some True"
    using assms(3) try_var_operand[OF col, of row] by (simp add: array_truth_def Let_def foldl_kleene_or)
  moreover have "sql_truth row (leaf col op s') \<noteq> Some True" if s': "s' \<in> set ss" for s'
  proof -
    obtain w where w: "Some w \<in> set vs" "lower_datum 25 w = Some s'"
      using low s' by (auto simp: list_all2_conv_all_nth in_set_conv_nth) (metis nth_mem)
    then obtain t where t: "s' = SUtf8 t" by (auto simp: lower_datum_def)
    then have "t \<noteq> x" using lower_datum_cell[OF w(2)] assms(9) w(1) by auto
    then show ?thesis using t x op(2) by (auto simp: leaf_def qual_truth_def)
  qed
  then have "Some True \<notin> set (map (\<lambda>s. sql_truth row (leaf col op s)) ss)" by force
  ultimately show ?thesis using assms(2) unfolding e foldl_kleene_or by simp
qed

definition text_eq :: nat where "text_eq = 98"

definition text_array :: "string list \<Rightarrow> pg_node" where
  "text_array ss = Const 1009 False (Datum 0 None (Some (25, map (\<lambda>s. Some (Datum 0 (Some s) None)) ss)))"

theorem walk_in_list_unsound_witness:
  "walk_node (ScalarArrayOpExpr text_eq True 16385 (Some [Var 25 1 16385, text_array [''b'', ''cc'']]))
      = Some (Or [leaf 0 Eq (SUtf8 ''b''), leaf 0 Eq (SUtf8 ''cc'')])
    \<and> pg_truth (\<lambda>c a b. if c = 16385 then length a < length b else a < b) catalogue (\<lambda>_. None) [Some (CStr ''a'')]
        (ScalarArrayOpExpr text_eq True 16385 (Some [Var 25 1 16385, text_array [''b'', ''cc'']])) = Some True
    \<and> sql_truth [Some (CStr ''a'')] (Or [leaf 0 Eq (SUtf8 ''b''), leaf 0 Eq (SUtf8 ''cc'')]) \<noteq> Some True"
proof -
  let ?d = "Datum 0 None (Some (25, map (\<lambda>s. Some (Datum 0 (Some s) None)) [''b'', ''cc'']))"
  have c: "c_string ''b'' = ''b''" "utf8_valid ''b''" "c_string ''cc'' = ''cc''" "utf8_valid ''cc''" by code_simp+
  have "lookup_op text_eq = Some (Eq, Utf8, Utf8)" by (simp add: text_eq_def lookup_op_def PUSHABLE_OPS_def)
  then have w: "walk_scalar_array_op text_eq True (Some [Var 25 1 16385, Const 1009 False ?d])
      = Some (Or [leaf 0 Eq (SUtf8 ''b''), leaf 0 Eq (SUtf8 ''cc'')])"
    using c by (simp add: walk_scalar_array_op_def try_var_def try_array_const_def lower_datum_def text_datum_to_string_def)
  show ?thesis
    using walk_in_list_unsound[OF catalogue_documented w, of _ "[Some (CStr ''a'')]" "''a''" "Datum 0 (Some ''b'') None" "''b''"
        "\<lambda>c a b. if c = 16385 then length a < length b else a < b" "\<lambda>_. None"] c
    by (auto simp: text_array_def const_cell_def)
qed

end
