(* ===== verification/Convert.thy ===== *)
theory Convert
  imports Arrow_Data Pg_Types Options "HOL-Library.List_Lexorder" "HOL-Library.Char_ord"
begin

text \<open>
  \<^verbatim>\<open>src/convert/\<close>: from an arrow value to a datum (\<^verbatim>\<open>arrow_to_pg.rs\<close>), from a row of datums to the
  columns of a record batch (\<^verbatim>\<open>pg_to_arrow.rs\<close>), and from a partition value to its path segment
  (\<^verbatim>\<open>partition_datum.rs\<close>).

  What pgrx, chrono, serde_json and the formatting of arrow's types do is the record
  \<open>convert_lib\<close>: \<open>x_into\<close> is \<^verbatim>\<open>into_datum\<close> on a value of that type, \<open>x_try\<close> the checked constructor
  of pgrx followed by \<^verbatim>\<open>into_datum\<close>, \<open>parse_ymd\<close> and \<open>format_ymd\<close> are chrono's \<^verbatim>\<open>%Y-%m-%d\<close> on days
  since the UNIX epoch (\<open>format_ymd\<close> is nothing outside chrono's range).  Errors of those libraries are
  their text.
\<close>

section \<open>The libraries\<close>

record convert_lib =
  bool_into :: "bool \<Rightarrow> pg_datum"
  i16_into :: "int \<Rightarrow> pg_datum"
  i32_into :: "int \<Rightarrow> pg_datum"
  i64_into :: "int \<Rightarrow> pg_datum"
  f32_into :: "32 word \<Rightarrow> pg_datum"
  f64_into :: "64 word \<Rightarrow> pg_datum"
  text_into :: "string \<Rightarrow> pg_datum"
  bytes_into :: "string \<Rightarrow> pg_datum"
  date_try :: "int \<Rightarrow> string + pg_datum"
  timestamp_try :: "int \<Rightarrow> string + pg_datum"
  timestamptz_try :: "int \<Rightarrow> string + pg_datum"
  numeric_try :: "string \<Rightarrow> string + pg_datum"
  json_from_str :: "string \<Rightarrow> string + pg_datum"
  parse_ymd :: "string \<Rightarrow> string + int"
  format_ymd :: "int \<Rightarrow> string option"
  type_debug :: "data_type \<Rightarrow> string"
  rust_type_name :: "string \<Rightarrow> string"
  strings_debug :: "string list \<Rightarrow> string"
  decimal_check :: "nat \<Rightarrow> int \<Rightarrow> string + unit"

section \<open>Arrow values to datums\<close>

fun as_bool :: "cell \<Rightarrow> bool option" where
  "as_bool (CBool b) = Some b"
| "as_bool _ = None"

fun as_int :: "cell \<Rightarrow> int option" where
  "as_int (CInt i) = Some i"
| "as_int _ = None"

fun as_f32 :: "cell \<Rightarrow> 32 word option" where
  "as_f32 (CF32 w) = Some w"
| "as_f32 _ = None"

fun as_f64 :: "cell \<Rightarrow> 64 word option" where
  "as_f64 (CF64 w) = Some w"
| "as_f64 _ = None"

fun as_str :: "cell \<Rightarrow> string option" where
  "as_str (CStr s) = Some s"
| "as_str _ = None"

text \<open>The typed view of an array's value.  An array of the model has values of any constructor;
  the views of the wrong one are what a failed downcast reports.\<close>

definition downcast :: "convert_lib \<Rightarrow> string \<Rightarrow> (cell \<Rightarrow> 'a option) \<Rightarrow> data_type \<Rightarrow> cell \<Rightarrow> 'a fdw_result" where
  "downcast C ty view dt c = ok_or (view c) (SchemaMismatch
     (''downcast to '' @ rust_type_name C ty @ '' failed for arrow type '' @ type_debug C dt))"

definition json_value_to_datum :: "convert_lib \<Rightarrow> string \<Rightarrow> pg_datum option fdw_result" where
  "json_value_to_datum C s =
    (case json_from_str C s of
       Inl e \<Rightarrow> Err (SchemaMismatch (''invalid jsonb text: '' @ e))
     | Inr d \<Rightarrow> Ok (Some d))"

definition date_out_of_range :: "int \<Rightarrow> fdw_error" where
  "date_out_of_range unix_days = SchemaMismatch (''date out of range: unix-days='' @ show_int unix_days)"

definition ts_out_of_range :: "int \<Rightarrow> fdw_error" where
  "ts_out_of_range unix_us = SchemaMismatch (''timestamp out of range: unix-micros='' @ show_int unix_us)"

definition date_conv_err :: "string \<Rightarrow> fdw_error" where
  "date_conv_err detail = SchemaMismatch detail"

definition checked_sub :: "nat \<Rightarrow> int \<Rightarrow> int \<Rightarrow> int option" where
  "checked_sub w a b = (if fits_signed w (a - b) then Some (a - b) else None)"

text \<open>\<^verbatim>\<open>-s\<close> on the smallest \<^verbatim>\<open>i8\<close> has no value: the negation, or the allocation after it, panics.\<close>

definition format_decimal128 :: "int \<Rightarrow> int \<Rightarrow> string fdw_result" where
  "format_decimal128 value scale =
    (if value = 0 then
       Ok (if scale > 0 then ''0.'' @ replicate (nat scale) (CHR ''0'') else ''0'')
     else
       let digits = show_nat (nat \<bar>value\<bar>);
           sign = (\<lambda>s. if value < 0 then CHR ''-'' # s else s) in
       if scale > 0 then
         (let sc = nat scale in
          if length digits \<le> sc then Ok (sign (''0.'' @ replicate (sc - length digits) (CHR ''0'') @ digits))
          else let split = length digits - sc in Ok (sign (take split digits @ ''.'' @ drop split digits)))
       else if scale = 0 then Ok (sign digits)
       else if scale = - 128 then Err (Panic ''attempt to negate with overflow'')
       else Ok (sign (digits @ replicate (nat (- scale)) (CHR ''0''))))"

definition unsupported :: "convert_lib \<Rightarrow> data_type \<Rightarrow> nat \<Rightarrow> 'a fdw_result" where
  "unsupported C dt oid = Err (UnsupportedType (''oid='' @ show_nat oid) (type_debug C dt))"

definition timestamp_to_datum :: "(int \<Rightarrow> string + pg_datum) \<Rightarrow> string \<Rightarrow> int \<Rightarrow> pg_datum option fdw_result" where
  "timestamp_to_datum try what unix_us =
    and_then (ok_or (checked_sub 64 unix_us UNIX_TO_PG_EPOCH_MICROS) (ts_out_of_range unix_us)) (\<lambda>pg_us.
    (case try pg_us of
       Inl e \<Rightarrow> Err (date_conv_err (what @ '' out of range: '' @ e))
     | Inr d \<Rightarrow> Ok (Some d)))"

definition value_to_datum :: "convert_lib \<Rightarrow> data_type \<Rightarrow> cell \<Rightarrow> nat \<Rightarrow> pg_datum option fdw_result" where
  "value_to_datum C dt c oid =
    (case dt of
       Boolean \<Rightarrow>
         if oid = BOOLOID then and_then (downcast C ''BooleanArray'' as_bool dt c) (\<lambda>v. Ok (Some (bool_into C v)))
         else unsupported C dt oid
     | Int16 \<Rightarrow>
         if oid = INT2OID then and_then (downcast C ''Int16Array'' as_int dt c) (\<lambda>v. Ok (Some (i16_into C v)))
         else unsupported C dt oid
     | Int32 \<Rightarrow>
         if oid = INT4OID then and_then (downcast C ''Int32Array'' as_int dt c) (\<lambda>v. Ok (Some (i32_into C v)))
         else unsupported C dt oid
     | Int64 \<Rightarrow>
         if oid = INT8OID then and_then (downcast C ''Int64Array'' as_int dt c) (\<lambda>v. Ok (Some (i64_into C v)))
         else unsupported C dt oid
     | Float32 \<Rightarrow>
         if oid = FLOAT4OID then and_then (downcast C ''Float32Array'' as_f32 dt c) (\<lambda>v. Ok (Some (f32_into C v)))
         else unsupported C dt oid
     | Float64 \<Rightarrow>
         if oid = FLOAT8OID then and_then (downcast C ''Float64Array'' as_f64 dt c) (\<lambda>v. Ok (Some (f64_into C v)))
         else unsupported C dt oid
     | Utf8 \<Rightarrow>
         if oid = TEXTOID \<or> oid = VARCHAROID then
           and_then (downcast C ''StringArray'' as_str dt c) (\<lambda>s. Ok (Some (text_into C s)))
         else if oid = JSONBOID then and_then (downcast C ''StringArray'' as_str dt c) (json_value_to_datum C)
         else unsupported C dt oid
     | LargeUtf8 \<Rightarrow>
         if oid = TEXTOID \<or> oid = VARCHAROID then
           and_then (downcast C ''LargeStringArray'' as_str dt c) (\<lambda>s. Ok (Some (text_into C s)))
         else if oid = JSONBOID then and_then (downcast C ''LargeStringArray'' as_str dt c) (json_value_to_datum C)
         else unsupported C dt oid
     | Binary \<Rightarrow>
         if oid = BYTEAOID then and_then (downcast C ''BinaryArray'' as_str dt c) (\<lambda>s. Ok (Some (bytes_into C s)))
         else unsupported C dt oid
     | LargeBinary \<Rightarrow>
         if oid = BYTEAOID then and_then (downcast C ''LargeBinaryArray'' as_str dt c) (\<lambda>s. Ok (Some (bytes_into C s)))
         else unsupported C dt oid
     | Date32 \<Rightarrow>
         if oid = DATEOID then
           and_then (downcast C ''Date32Array'' as_int dt c) (\<lambda>unix_days.
           and_then (ok_or (checked_sub 32 unix_days UNIX_TO_PG_EPOCH_DAYS) (date_out_of_range unix_days)) (\<lambda>pg_days.
           (case date_try C pg_days of Inl e \<Rightarrow> Err (date_conv_err e) | Inr d \<Rightarrow> Ok (Some d))))
         else unsupported C dt oid
     | Timestamp u tz \<Rightarrow>
         if u = Microsecond \<and> tz = None \<and> oid = TIMESTAMPOID then
           and_then (downcast C ''TimestampMicrosecondArray'' as_int dt c) (timestamp_to_datum (timestamp_try C) ''timestamp'')
         else if u = Microsecond \<and> tz \<noteq> None \<and> oid = TIMESTAMPTZOID then
           and_then (downcast C ''TimestampMicrosecondArray'' as_int dt c) (timestamp_to_datum (timestamptz_try C) ''timestamptz'')
         else unsupported C dt oid
     | Decimal128 p scale \<Rightarrow>
         if oid = NUMERICOID then
           and_then (downcast C ''Decimal128Array'' as_int dt c) (\<lambda>v.
           and_then (format_decimal128 v scale) (\<lambda>s.
           (case numeric_try C s of
              Inl e \<Rightarrow> Err (SchemaMismatch (''invalid numeric '' @ [CHR 0x22] @ s @ [CHR 0x22] @ '': '' @ e))
            | Inr d \<Rightarrow> Ok (Some d))))
         else unsupported C dt oid
     | OtherType n \<Rightarrow> unsupported C dt oid)"

definition arrow_value_to_datum :: "convert_lib \<Rightarrow> arrow_array \<Rightarrow> nat \<Rightarrow> nat \<Rightarrow> pg_datum option fdw_result" where
  "arrow_value_to_datum C arr row oid =
    (if row \<ge> array_len arr then Err (Panic ''index out of bounds'')
     else (case cells arr ! row of
             None \<Rightarrow> Ok None
           | Some c \<Rightarrow> value_to_datum C (data_type_of arr) c oid))"

text \<open>The type names of the DDL that \<^verbatim>\<open>IMPORT FOREIGN SCHEMA\<close> emits.\<close>

definition arrow_type_to_pg_typename :: "convert_lib \<Rightarrow> data_type \<Rightarrow> string fdw_result" where
  "arrow_type_to_pg_typename C ty =
    (let other = Err (SchemaMismatch (''arrow type '' @ type_debug C ty @ '' has no SP-2 DDL mapping'')) in
     case ty of
       Boolean \<Rightarrow> Ok ''BOOLEAN''
     | Int16 \<Rightarrow> Ok ''SMALLINT''
     | Int32 \<Rightarrow> Ok ''INTEGER''
     | Int64 \<Rightarrow> Ok ''BIGINT''
     | Float32 \<Rightarrow> Ok ''REAL''
     | Float64 \<Rightarrow> Ok ''DOUBLE PRECISION''
     | Utf8 \<Rightarrow> Ok ''TEXT''
     | LargeUtf8 \<Rightarrow> Ok ''TEXT''
     | Binary \<Rightarrow> Ok ''BYTEA''
     | LargeBinary \<Rightarrow> Ok ''BYTEA''
     | Date32 \<Rightarrow> Ok ''DATE''
     | Timestamp u tz \<Rightarrow>
         if u = Microsecond then (if tz = None then Ok ''TIMESTAMP'' else Ok ''TIMESTAMPTZ'') else other
     | Decimal128 p s \<Rightarrow> Ok (''NUMERIC('' @ show_nat p @ '','' @ show_int s @ '')'')
     | OtherType n \<Rightarrow> other)"

section \<open>Partition values\<close>

definition negative_value :: "string \<Rightarrow> fdw_error" where
  "negative_value raw = SchemaMismatch (''negative partition value '' @ quoted raw @ '' not supported in v1'')"

definition parse_int_partition :: "nat \<Rightarrow> string \<Rightarrow> (int \<Rightarrow> pg_datum) \<Rightarrow> string \<Rightarrow> pg_datum fdw_result" where
  "parse_int_partition w ty into raw =
    and_then (ok_or (parse_int (- (2 ^ (w - 1))) (2 ^ (w - 1) - 1) raw)
      (SchemaMismatch (quoted raw @ '' is not '' @ ty))) (\<lambda>v.
    if v < 0 then Err (negative_value raw) else Ok (into v))"

definition parse_text_to_datum :: "convert_lib \<Rightarrow> pg_partition_type \<Rightarrow> string \<Rightarrow> pg_datum fdw_result" where
  "parse_text_to_datum C ty raw =
    (case ty of
       Int2 \<Rightarrow> parse_int_partition 16 ''int2'' (i16_into C) raw
     | Int4 \<Rightarrow> parse_int_partition 32 ''int4'' (i32_into C) raw
     | Int8 \<Rightarrow> parse_int_partition 64 ''int8'' (i64_into C) raw
     | Text \<Rightarrow> Ok (text_into C raw)
     | Date \<Rightarrow>
         (case parse_ymd C raw of
            Inl e \<Rightarrow> Err (SchemaMismatch (''date '' @ quoted raw @ '' parse failed: '' @ e))
          | Inr parsed \<Rightarrow>
              (let days = parsed - UNIX_TO_PG_EPOCH_DAYS in
               if \<not> fits_signed 32 days then Err (SchemaMismatch (''date '' @ quoted raw @ '' out of i32 range''))
               else (case date_try C days of
                       Inl e \<Rightarrow> Err (SchemaMismatch (''date '' @ quoted raw @ '' invalid: '' @ e))
                     | Inr d \<Rightarrow> Ok d))))"

definition datum_to_bool :: "pg_datum \<Rightarrow> bool" where
  "datum_to_bool d \<longleftrightarrow> (ucast (datum_value d) :: 8 word) \<noteq> 0"

definition datum_to_i16 :: "pg_datum \<Rightarrow> int" where
  "datum_to_i16 d = sint (ucast (datum_value d) :: 16 word)"

definition datum_to_i32 :: "pg_datum \<Rightarrow> int" where
  "datum_to_i32 d = sint (ucast (datum_value d) :: 32 word)"

definition datum_to_i64 :: "pg_datum \<Rightarrow> int" where
  "datum_to_i64 d = sint (datum_value d)"

text \<open>The text of a datum, lossily decoded.  A datum of a text type points to a \<^verbatim>\<open>varlena\<close>.\<close>

definition text_datum_to_str :: "pg_datum \<Rightarrow> string fdw_result" where
  "text_datum_to_str d =
    (case varlena d of
       None \<Rightarrow> Err (Panic ''null text datum'')
     | Some s \<Rightarrow> Ok (from_utf8_lossy (c_string s)))"

definition int_to_partition_string :: "int \<Rightarrow> string fdw_result" where
  "int_to_partition_string v =
    (if v < 0 then Err (SchemaMismatch ''negative partition value not supported in v1'') else Ok (show_int v))"

definition check_text_partition :: "string \<Rightarrow> string fdw_result" where
  "check_text_partition owned =
    (if owned = [] then Err (SchemaMismatch ''partition text value cannot be empty'')
     else if CHR ''/'' \<in> set owned \<or> CHR ''='' \<in> set owned then
       Err (SchemaMismatch (''partition text value '' @ quoted owned @ '' contains '' @ quoted ''/'' @ '' or ''
         @ quoted ''='' @ ''; these characters collide with the Hive path grammar''))
     else if contains_str owned ''..'' then
       Err (SchemaMismatch (''text partition value '' @ quoted owned @ '' must not contain '' @ quoted ''..''
         @ '' (path-traversal symmetry with read-side SSRF validator)''))
     else Ok owned)"

definition datum_to_partition_string :: "convert_lib \<Rightarrow> pg_datum \<Rightarrow> nat \<Rightarrow> string fdw_result" where
  "datum_to_partition_string C datum oid =
    (if oid = INT2OID then int_to_partition_string (datum_to_i16 datum)
     else if oid = INT4OID then int_to_partition_string (datum_to_i32 datum)
     else if oid = INT8OID then int_to_partition_string (datum_to_i64 datum)
     else if oid = DATEOID then
       ok_or (format_ymd C (datum_to_i32 datum + UNIX_TO_PG_EPOCH_DAYS))
         (SchemaMismatch (''partition date out of range: pg-days='' @ show_int (datum_to_i32 datum)))
     else if oid = TEXTOID \<or> oid = VARCHAROID then and_then (text_datum_to_str datum) check_text_partition
     else Err (UnsupportedType (''oid='' @ show_nat oid @ '' (partition string)'') ''<n/a>''))"

section \<open>Datums to record batches\<close>

definition pg_oid_to_arrow_type :: "nat \<Rightarrow> data_type fdw_result" where
  "pg_oid_to_arrow_type oid =
    (if oid = BOOLOID then Ok Boolean
     else if oid = INT2OID then Ok Int16
     else if oid = INT4OID then Ok Int32
     else if oid = INT8OID then Ok Int64
     else if oid = FLOAT4OID then Ok Float32
     else if oid = FLOAT8OID then Ok Float64
     else if oid = TEXTOID \<or> oid = VARCHAROID then Ok Utf8
     else if oid = BYTEAOID then Ok Binary
     else if oid = DATEOID then Ok Date32
     else if oid = TIMESTAMPOID then Ok (Timestamp Microsecond None)
     else if oid = TIMESTAMPTZOID then Ok (Timestamp Microsecond (Some ''UTC''))
     else if oid = NUMERICOID then Ok (Decimal128 38 9)
     else if oid = JSONBOID then Ok Utf8
     else Err (UnsupportedType (''oid='' @ show_nat oid) ''<none>''))"

record pg_attribute =
  attname :: string
  atttypid :: nat
  attnum :: int
  attnotnull :: bool
  attisdropped :: bool

definition att_name :: "pg_attribute \<Rightarrow> string option" where
  "att_name att = (let bytes = c_string (attname att) in if utf8_valid bytes then Some bytes else None)"

fun schema_fields :: "nat \<Rightarrow> pg_attribute list \<Rightarrow> schema fdw_result" where
  "schema_fields n [] = Ok []"
| "schema_fields n (att # atts) =
    and_then (pg_oid_to_arrow_type (atttypid att)) (\<lambda>dt.
    let name = (case att_name att of Some s \<Rightarrow> s | None \<Rightarrow> ''col'' @ show_nat n) in
    and_then (schema_fields (n + 1) atts) (\<lambda>fs.
    Ok (\<lparr> field_name = name, field_type = dt, nullable = \<not> attnotnull att \<rparr> # fs)))"

definition pg_attrs_to_arrow_schema :: "pg_attribute list \<Rightarrow> schema fdw_result" where
  "pg_attrs_to_arrow_schema attrs = schema_fields 0 attrs"

text \<open>A set of builders: the schema and, for every column, the array built so far.  The Rust type of a
  builder is that of its array's type.\<close>

record builders =
  rb_schema :: schema
  rb_cols :: "arrow_array list"

definition builder_of :: "data_type \<Rightarrow> string option" where
  "builder_of dt =
    (case dt of
       Boolean \<Rightarrow> Some ''BooleanBuilder''
     | Int16 \<Rightarrow> Some ''Int16Builder''
     | Int32 \<Rightarrow> Some ''Int32Builder''
     | Int64 \<Rightarrow> Some ''Int64Builder''
     | Float32 \<Rightarrow> Some ''Float32Builder''
     | Float64 \<Rightarrow> Some ''Float64Builder''
     | Utf8 \<Rightarrow> Some ''StringBuilder''
     | Binary \<Rightarrow> Some ''BinaryBuilder''
     | Date32 \<Rightarrow> Some ''Date32Builder''
     | Timestamp u tz \<Rightarrow> if u = Microsecond then Some ''TimestampMicrosecondBuilder'' else None
     | Decimal128 p s \<Rightarrow> Some ''Decimal128Builder''
     | _ \<Rightarrow> None)"

definition make_builder :: "convert_lib \<Rightarrow> data_type \<Rightarrow> arrow_array fdw_result" where
  "make_builder C dt =
    (case dt of
       Decimal128 p s \<Rightarrow>
         and_then (arrow_result (decimal_check C p s)) (\<lambda>_. Ok \<lparr> data_type_of = dt, cells = [] \<rparr>)
     | _ \<Rightarrow>
         if builder_of dt = None then Err (UnsupportedType ''<n/a>'' (type_debug C dt))
         else Ok \<lparr> data_type_of = dt, cells = [] \<rparr>)"

definition builders_new :: "convert_lib \<Rightarrow> schema \<Rightarrow> builders fdw_result" where
  "builders_new C sch =
    and_then (try_map (\<lambda>f. make_builder C (field_type f)) sch) (\<lambda>cols.
    Ok \<lparr> rb_schema = sch, rb_cols = cols \<rparr>)"

definition builders_len :: "builders \<Rightarrow> nat" where
  "builders_len b = (case rb_cols b of [] \<Rightarrow> 0 | c # _ \<Rightarrow> array_len c)"

definition builders_is_empty :: "builders \<Rightarrow> bool" where
  "builders_is_empty b \<longleftrightarrow> builders_len b = 0"

definition column_out_of_range :: "nat \<Rightarrow> builders \<Rightarrow> fdw_error" where
  "column_out_of_range col b = SchemaMismatch (''column index '' @ show_nat col @ '' out of range (have ''
     @ show_nat (length (rb_schema b)) @ '')'')"

definition typed_builder :: "convert_lib \<Rightarrow> string \<Rightarrow> nat \<Rightarrow> builders \<Rightarrow> arrow_array fdw_result" where
  "typed_builder C ty col b =
    (if col \<ge> length (rb_cols b) then Err (column_out_of_range col b)
     else if builder_of (data_type_of (rb_cols b ! col)) = Some ty then Ok (rb_cols b ! col)
     else Err (SchemaMismatch (''builder for column '' @ show_nat col @ '' is not a '' @ rust_type_name C ty)))"

definition push_cell :: "nat \<Rightarrow> cell option \<Rightarrow> arrow_array \<Rightarrow> builders \<Rightarrow> builders" where
  "push_cell col v a b = b \<lparr> rb_cols := (rb_cols b)[col := a \<lparr> cells := cells a @ [v] \<rparr>] \<rparr>"

definition append_typed :: "convert_lib \<Rightarrow> string \<Rightarrow> nat \<Rightarrow> cell option \<Rightarrow> builders \<Rightarrow> builders fdw_result" where
  "append_typed C ty col v b = and_then (typed_builder C ty col b) (\<lambda>a. Ok (push_cell col v a b))"

definition append_bool :: "convert_lib \<Rightarrow> nat \<Rightarrow> bool option \<Rightarrow> builders \<Rightarrow> builders fdw_result" where
  "append_bool C col value = append_typed C ''BooleanBuilder'' col (map_option CBool value)"

definition append_i16 :: "convert_lib \<Rightarrow> nat \<Rightarrow> int option \<Rightarrow> builders \<Rightarrow> builders fdw_result" where
  "append_i16 C col value = append_typed C ''Int16Builder'' col (map_option CInt value)"

definition append_i32 :: "convert_lib \<Rightarrow> nat \<Rightarrow> int option \<Rightarrow> builders \<Rightarrow> builders fdw_result" where
  "append_i32 C col value = append_typed C ''Int32Builder'' col (map_option CInt value)"

definition append_i64 :: "convert_lib \<Rightarrow> nat \<Rightarrow> int option \<Rightarrow> builders \<Rightarrow> builders fdw_result" where
  "append_i64 C col value = append_typed C ''Int64Builder'' col (map_option CInt value)"

definition append_f32 :: "convert_lib \<Rightarrow> nat \<Rightarrow> 32 word option \<Rightarrow> builders \<Rightarrow> builders fdw_result" where
  "append_f32 C col value = append_typed C ''Float32Builder'' col (map_option CF32 value)"

definition append_f64 :: "convert_lib \<Rightarrow> nat \<Rightarrow> 64 word option \<Rightarrow> builders \<Rightarrow> builders fdw_result" where
  "append_f64 C col value = append_typed C ''Float64Builder'' col (map_option CF64 value)"

definition append_date :: "convert_lib \<Rightarrow> nat \<Rightarrow> int option \<Rightarrow> builders \<Rightarrow> builders fdw_result" where
  "append_date C col value = append_typed C ''Date32Builder'' col (map_option CInt value)"

definition append_ts_us :: "convert_lib \<Rightarrow> nat \<Rightarrow> int option \<Rightarrow> builders \<Rightarrow> builders fdw_result" where
  "append_ts_us C col value = append_typed C ''TimestampMicrosecondBuilder'' col (map_option CInt value)"

definition append_tstz_us :: "convert_lib \<Rightarrow> nat \<Rightarrow> int option \<Rightarrow> builders \<Rightarrow> builders fdw_result" where
  "append_tstz_us C col value = append_ts_us C col value"

definition append_str :: "convert_lib \<Rightarrow> nat \<Rightarrow> string option \<Rightarrow> builders \<Rightarrow> builders fdw_result" where
  "append_str C col value = append_typed C ''StringBuilder'' col (map_option CStr value)"

definition append_bytes :: "convert_lib \<Rightarrow> nat \<Rightarrow> string option \<Rightarrow> builders \<Rightarrow> builders fdw_result" where
  "append_bytes C col value = append_typed C ''BinaryBuilder'' col (map_option CStr value)"

definition append_decimal128 :: "convert_lib \<Rightarrow> nat \<Rightarrow> int option \<Rightarrow> builders \<Rightarrow> builders fdw_result" where
  "append_decimal128 C col value = append_typed C ''Decimal128Builder'' col (map_option CInt value)"

definition append_jsonb_text :: "convert_lib \<Rightarrow> nat \<Rightarrow> string option \<Rightarrow> builders \<Rightarrow> builders fdw_result" where
  "append_jsonb_text C col value = append_str C col value"

definition append_null :: "nat \<Rightarrow> builders \<Rightarrow> builders fdw_result" where
  "append_null col b =
    (if col \<ge> length (rb_cols b) then Err (column_out_of_range col b)
     else let a = rb_cols b ! col in
      if builder_of (data_type_of a) \<in> Some ` set [''BooleanBuilder'', ''Int16Builder'', ''Int32Builder'',
          ''Int64Builder'', ''Float32Builder'', ''Float64Builder'', ''StringBuilder'', ''BinaryBuilder'',
          ''Date32Builder'', ''TimestampMicrosecondBuilder'', ''Decimal128Builder'']
      then Ok (push_cell col None a b)
      else Err (SchemaMismatch (''no append_null dispatcher for column '' @ show_nat col @ '' builder'')))"

text \<open>The first column of another length than column 0, from column \<open>i\<close> on.\<close>

fun check_lengths :: "nat \<Rightarrow> nat \<Rightarrow> arrow_array list \<Rightarrow> unit fdw_result" where
  "check_lengths expected i [] = Ok ()"
| "check_lengths expected i (a # as) =
    (if array_len a \<noteq> expected then
       Err (SchemaMismatch (''column '' @ show_nat i @ '' has '' @ show_nat (array_len a) @ '' rows, column 0 has ''
         @ show_nat expected @ ''; every column must be appended for every row''))
     else check_lengths expected (i + 1) as)"

definition builders_finish :: "arrow_ops \<Rightarrow> builders \<Rightarrow> record_batch fdw_result" where
  "builders_finish A b =
    and_then (case rb_cols b of [] \<Rightarrow> Ok () | first # rest \<Rightarrow> check_lengths (array_len first) 1 rest) (\<lambda>_.
    arrow_result (try_new_op A (rb_schema b) (rb_cols b)))"

section \<open>Decimal text\<close>

text \<open>What a decimal text denotes: \<open>(n, k)\<close> is the number \<open>n\<close> over ten to the \<open>k\<close>, written with \<open>k\<close>
  digits after the point.\<close>

definition unsigned_value :: "string \<Rightarrow> (int \<times> nat) option" where
  "unsigned_value t =
    (let (ip, fp) = (case split_once (CHR ''.'') t of None \<Rightarrow> (t, []) | Some p \<Rightarrow> p) in
     if ip = [] then None else map_option (\<lambda>n. (int n, length fp)) (parse_digits (ip @ fp)))"

definition decimal_value :: "string \<Rightarrow> (int \<times> nat) option" where
  "decimal_value s =
    (if s \<noteq> [] \<and> hd s = CHR ''-'' then map_option (\<lambda>(n, k). (- n, k)) (unsigned_value (tl s)) else unsigned_value s)"

lemma digits_val_zeros: "digits_val a (replicate k (CHR ''0'')) = Some (a * 10 ^ k)"
  by (induction k arbitrary: a) (simp_all add: is_ascii_digit_def byte_val_def algebra_simps)

lemma digits_val_leading_zeros: "digits_val 0 (replicate k (CHR ''0'') @ ds) = digits_val 0 ds"
  by (induction k) (simp_all add: is_ascii_digit_def byte_val_def)

lemma show_nat_no_point: "CHR ''.'' \<notin> set (show_nat n)" "CHR ''-'' \<notin> set (show_nat n)"
  using show_nat_digits[of "CHR ''.''" n] show_nat_digits[of "CHR ''-''" n]
  by (auto simp: is_ascii_digit_def byte_val_def)

lemma decimal_value_sign:
  assumes "unsigned_value t = Some (n, k)" "t \<noteq> []" "hd t \<noteq> CHR ''-''"
  shows "decimal_value (if neg then CHR ''-'' # t else t) = Some (if neg then - n else n, k)"
  using assms by (simp add: decimal_value_def)

lemma unsigned_value_whole:
  assumes "digits_val 0 t = Some n" "t \<noteq> []" "CHR ''.'' \<notin> set t"
  shows "unsigned_value t = Some (int n, 0)"
proof -
  have "split_once (CHR ''.'') t = None" using assms(3) by (simp add: split_once_None_iff)
  then show ?thesis using assms by (simp add: unsigned_value_def parse_digits_def)
qed

lemma unsigned_value_point:
  assumes "digits_val 0 (ip @ fp) = Some n" "ip \<noteq> []" "CHR ''.'' \<notin> set ip"
  shows "unsigned_value (ip @ ''.'' @ fp) = Some (int n, length fp)"
proof -
  have "split_once (CHR ''.'') (ip @ ''.'' @ fp) = Some (ip, fp)" using assms(3) by (simp add: split_once_Some_iff)
  then show ?thesis using assms by (simp add: unsigned_value_def parse_digits_def)
qed

lemma show_nat_hd: "hd (show_nat n) \<noteq> CHR ''-''"
  using show_nat_no_point(2)[of n] by (cases "show_nat n") auto

lemma format_decimal128_unsigned:
  assumes "v \<noteq> 0" "- 128 < scale"
  obtains t where "format_decimal128 v scale = Ok (if v < 0 then CHR ''-'' # t else t)"
    "unsigned_value t = Some (\<bar>v\<bar> * 10 ^ nat (- scale), nat scale)" "t \<noteq> []" "hd t \<noteq> CHR ''-''"
proof -
  define ds where "ds = show_nat (nat \<bar>v\<bar>)"
  have ds: "digits_val 0 ds = Some (nat \<bar>v\<bar>)" "ds \<noteq> []" "CHR ''.'' \<notin> set ds" "hd ds \<noteq> CHR ''-''"
    unfolding ds_def by (simp_all add: digits_val_show_nat show_nat_no_point show_nat_hd)
  consider (small) "scale > 0" "length ds \<le> nat scale" | (split) "scale > 0" "nat scale < length ds"
    | (whole) "scale = 0" | (zeros) "scale < 0" by linarith
  then show ?thesis
  proof cases
    case small
    have "unsigned_value (''0'' @ ''.'' @ (replicate (nat scale - length ds) (CHR ''0'') @ ds)) = Some (int (nat \<bar>v\<bar>), nat scale)"
      using ds(1) small(2) digits_val_leading_zeros[of "Suc (nat scale - length ds)" ds]
      by (subst unsigned_value_point[where n = "nat \<bar>v\<bar>"]) simp_all
    then show ?thesis using assms small
      by (intro that[of "''0.'' @ replicate (nat scale - length ds) (CHR ''0'') @ ds"])
        (simp_all add: format_decimal128_def Let_def flip: ds_def)
  next
    case split
    let ?k = "length ds - nat scale"
    have "unsigned_value (take ?k ds @ ''.'' @ drop ?k ds) = Some (int (nat \<bar>v\<bar>), length (drop ?k ds))"
      using ds split by (intro unsigned_value_point) (auto dest: in_set_takeD)
    moreover have "hd (take ?k ds) \<noteq> CHR ''-''" "take ?k ds \<noteq> []" using ds split by simp_all
    ultimately show ?thesis using assms split
      by (intro that[of "take ?k ds @ ''.'' @ drop ?k ds"]) (simp_all add: format_decimal128_def Let_def flip: ds_def)
  next
    case whole
    then show ?thesis using assms ds unsigned_value_whole[OF ds(1-3)]
      by (intro that[of ds]) (simp_all add: format_decimal128_def Let_def flip: ds_def)
  next
    case zeros
    let ?t = "ds @ replicate (nat (- scale)) (CHR ''0'')"
    have "digits_val 0 ?t = Some (nat \<bar>v\<bar> * 10 ^ nat (- scale))"
      using ds(1) by (simp add: digits_val_append digits_val_zeros)
    then have "unsigned_value ?t = Some (int (nat \<bar>v\<bar> * 10 ^ nat (- scale)), 0)"
      using ds by (intro unsigned_value_whole) auto
    then show ?thesis using assms zeros ds
      by (intro that[of ?t]) (simp_all add: format_decimal128_def Let_def flip: ds_def)
  qed
qed

text \<open>C37: the decimal text of a value.  For every 128-bit value and every scale of the type \<^verbatim>\<open>i8\<close>,
  the text that is given to PostgreSQL's numeric input denotes exactly the value over ten to the scale,
  with as many digits after the point as a positive scale says; the only exception is the scale -128,
  whose negation overflows: there a value other than zero ends in a panic.\<close>

theorem decimal_text_exact:
  assumes "fits_signed 128 v" "fits_signed 8 scale"
  shows "if v \<noteq> 0 \<and> scale = - 128 then \<exists>m. format_decimal128 v scale = Err (Panic m)
    else \<exists>s. format_decimal128 v scale = Ok s \<and> decimal_value s = Some (v * 10 ^ nat (- scale), nat scale)"
proof (cases "v = 0")
  case True
  have "unsigned_value (''0'' @ ''.'' @ replicate (nat scale) (CHR ''0'')) = Some (int 0, nat scale)"
    using digits_val_zeros[of 0 "Suc (nat scale)"] by (subst unsigned_value_point[where n = 0]) simp_all
  moreover have "unsigned_value ''0'' = Some (0, 0)" by code_simp
  ultimately show ?thesis using True by (simp add: format_decimal128_def decimal_value_def)
next
  case False
  show ?thesis
  proof (cases "scale = - 128")
    case True
    then show ?thesis using False by (simp add: format_decimal128_def Let_def)
  next
    case s: False
    then have "- 128 < scale" using assms(2) by (simp add: fits_signed_def)
    then obtain t where t: "format_decimal128 v scale = Ok (if v < 0 then CHR ''-'' # t else t)"
      "unsigned_value t = Some (\<bar>v\<bar> * 10 ^ nat (- scale), nat scale)" "t \<noteq> []" "hd t \<noteq> CHR ''-''"
      using format_decimal128_unsigned[OF False] by blast
    have "decimal_value (if v < 0 then CHR ''-'' # t else t) = Some (v * 10 ^ nat (- scale), nat scale)"
      using decimal_value_sign[OF t(2-4), of "v < 0"] by (simp split: if_splits)
    then show ?thesis using s t(1) by simp
  qed
qed

theorem decimal_text_exact_witness:
  "fits_signed 128 (- 1205) \<and> fits_signed 8 2 \<and> format_decimal128 (- 1205) 2 = Ok ''-12.05''
    \<and> decimal_value ''-12.05'' = Some (- 1205, 2)"
  using decimal_text_exact[of "- 1205" 2]
  by (simp add: fits_signed_def format_decimal128_def Let_def show_nat.simps digit_char_def char_of_def bit_simps)

section \<open>What the libraries promise\<close>

text \<open>The PostgreSQL type of a declared partition type, and the value of a datum in arrow's terms.\<close>

fun partition_oid :: "pg_partition_type \<Rightarrow> nat" where
  "partition_oid Int2 = INT2OID"
| "partition_oid Int4 = INT4OID"
| "partition_oid Int8 = INT8OID"
| "partition_oid Text = TEXTOID"
| "partition_oid Date = DATEOID"

definition datum_cell :: "nat \<Rightarrow> pg_datum \<Rightarrow> cell option" where
  "datum_cell oid d =
    (if oid = BOOLOID then Some (CBool (datum_to_bool d))
     else if oid = INT2OID then Some (CInt (datum_to_i16 d))
     else if oid = INT4OID then Some (CInt (datum_to_i32 d))
     else if oid = INT8OID then Some (CInt (datum_to_i64 d))
     else if oid = FLOAT4OID then Some (CF32 (ucast (datum_value d)))
     else if oid = FLOAT8OID then Some (CF64 (datum_value d))
     else if oid = TEXTOID \<or> oid = VARCHAROID then map_option (\<lambda>s. CStr (c_string s)) (varlena d)
     else if oid = DATEOID then Some (CInt (datum_to_i32 d + UNIX_TO_PG_EPOCH_DAYS))
     else None)"

text \<open>The documented behaviour the code relies on: \<^verbatim>\<open>into_datum\<close> makes a datum that reads back as the
  value, and a date that chrono prints it reads back, without any of the characters of a path.  From year
  0000 to year 9999 the texts are ordered as the dates, and are no numbers.\<close>

definition four_digit_year :: "int \<Rightarrow> bool" where
  "four_digit_year d \<longleftrightarrow> - 719528 \<le> d \<and> d \<le> 2932896"

locale convert_laws =
  fixes C :: convert_lib
  assumes bool_law: "datum_to_bool (bool_into C b) = b"
    and i16_law: "fits_signed 16 i \<Longrightarrow> datum_to_i16 (i16_into C i) = i"
    and i32_law: "fits_signed 32 i \<Longrightarrow> datum_to_i32 (i32_into C i) = i"
    and i64_law: "fits_signed 64 i \<Longrightarrow> datum_to_i64 (i64_into C i) = i"
    and f32_law: "ucast (datum_value (f32_into C w)) = w"
    and f64_law: "datum_value (f64_into C v) = v"
    and text_law: "varlena (text_into C s) = Some s"
    and date_law: "date_try C i = Inr d \<Longrightarrow> datum_to_i32 d = i"
    and ymd_law: "format_ymd C i = Some s \<Longrightarrow> parse_ymd C s = Inr i \<and> s \<noteq> []
      \<and> CHR ''/'' \<notin> set s \<and> CHR ''='' \<notin> set s \<and> CHR ''%'' \<notin> set s"
    and ymd_order: "four_digit_year i \<Longrightarrow> four_digit_year j \<Longrightarrow> format_ymd C i = Some s \<Longrightarrow> format_ymd C j = Some t \<Longrightarrow>
      (s < t) = (i < j)"
    and ymd_no_number: "four_digit_year i \<Longrightarrow> format_ymd C i = Some s \<Longrightarrow> parse_i64 s = None"
    and decimal_law: "decimal_check C 38 9 = Inr ()"

lemma fits_datum: "fits_signed 16 (datum_to_i16 d)" "fits_signed 32 (datum_to_i32 d)" "fits_signed 64 (datum_to_i64 d)"
  using sint_range_size[of "ucast (datum_value d) :: 16 word"] sint_range_size[of "ucast (datum_value d) :: 32 word"]
    sint_range_size[of "datum_value d"]
  by (simp_all add: fits_signed_def datum_to_i16_def datum_to_i32_def datum_to_i64_def word_size)

lemma c_string_idem [simp]: "c_string (c_string s) = c_string s"
  by (simp add: c_string_def takeWhile_idem)

lemma parse_int_partition_roundtrip:
  assumes "int_to_partition_string v = Ok s" "fits_signed w v"
  shows "parse_int_partition w ty into s = Ok (into v)"
proof -
  have s: "s = show_int v" "0 \<le> v" using assms(1) by (auto simp: int_to_partition_string_def split: if_splits)
  have "parse_int (- (2 ^ (w - 1))) (2 ^ (w - 1) - 1) s = Some v"
    unfolding s(1) using assms(2) by (intro parse_int_show_int) (auto simp: fits_signed_def)
  then show ?thesis using s(2) by (simp add: parse_int_partition_def)
qed

context convert_laws
begin

text \<open>A partition value that was written as text is read back as the same value.\<close>

lemma partition_value_roundtrip:
  assumes "datum_to_partition_string C d (partition_oid ty) = Ok s"
    "ty = Date \<longrightarrow> (\<exists>x. date_try C (datum_to_i32 d) = Inr x)"
    "ty = Text \<longrightarrow> (\<exists>t. varlena d = Some t \<and> utf8_valid (c_string t))"
  shows "\<exists>d'. parse_text_to_datum C ty s = Ok d' \<and> datum_cell (partition_oid ty) d' = datum_cell (partition_oid ty) d"
proof (cases ty)
  case Int2
  then have "int_to_partition_string (datum_to_i16 d) = Ok s" using assms(1) by (simp add: datum_to_partition_string_def)
  then show ?thesis using Int2 parse_int_partition_roundtrip[OF _ fits_datum(1)]
    by (simp add: parse_text_to_datum_def datum_cell_def oid_defs i16_law fits_datum)
next
  case Int4
  then have "int_to_partition_string (datum_to_i32 d) = Ok s"
    using assms(1) by (simp add: datum_to_partition_string_def oid_defs)
  then show ?thesis using Int4 parse_int_partition_roundtrip[OF _ fits_datum(2)]
    by (simp add: parse_text_to_datum_def datum_cell_def oid_defs i32_law fits_datum)
next
  case Int8
  then have "int_to_partition_string (datum_to_i64 d) = Ok s"
    using assms(1) by (simp add: datum_to_partition_string_def oid_defs)
  then show ?thesis using Int8 parse_int_partition_roundtrip[OF _ fits_datum(3)]
    by (simp add: parse_text_to_datum_def datum_cell_def oid_defs i64_law fits_datum)
next
  case Text
  then obtain t where "varlena d = Some t" "s = c_string t"
    using assms(1,3) by (auto simp: datum_to_partition_string_def oid_defs text_datum_to_str_def check_text_partition_def
      from_utf8_lossy_valid split: if_splits)
  then show ?thesis using Text by (simp add: parse_text_to_datum_def datum_cell_def oid_defs text_law)
next
  case Date
  then have f: "format_ymd C (datum_to_i32 d + UNIX_TO_PG_EPOCH_DAYS) = Some s"
    using assms(1) by (simp add: datum_to_partition_string_def oid_defs result_simps)
  obtain x where x: "date_try C (datum_to_i32 d) = Inr x" using assms(2) Date by blast
  have "parse_ymd C s = Inr (datum_to_i32 d + UNIX_TO_PG_EPOCH_DAYS)" using ymd_law[OF f] by simp
  then show ?thesis using Date x date_law[OF x] fits_datum(2)[of d]
    by (simp add: parse_text_to_datum_def datum_cell_def oid_defs Let_def)
qed

text \<open>A written partition value has none of the characters of the path grammar.\<close>

lemma partition_string_segment:
  assumes "datum_to_partition_string C d oid = Ok s"
  shows "s \<noteq> [] \<and> CHR ''/'' \<notin> set s \<and> CHR ''='' \<notin> set s"
proof -
  have int: "s \<noteq> [] \<and> CHR ''/'' \<notin> set s \<and> CHR ''='' \<notin> set s" if "int_to_partition_string v = Ok s" for v
  proof -
    have v: "s = show_nat (nat v)" using that by (auto simp: int_to_partition_string_def show_int_def split: if_splits)
    show ?thesis
      using show_nat_digits[of "CHR ''/''" "nat v"] show_nat_digits[of "CHR ''=''" "nat v"]
      by (auto simp: v is_ascii_digit_def byte_val_def)
  qed
  then show ?thesis using assms ymd_law[of _ s]
    by (auto simp: datum_to_partition_string_def result_simps check_text_partition_def split: if_splits)
qed

end

section \<open>Libraries that compute\<close>

text \<open>Datums as PostgreSQL lays them out on a 64-bit machine, and a calendar that writes a day as a
  run of letters.\<close>

definition word_datum :: "64 word \<Rightarrow> pg_datum" where
  "word_datum w = Datum w None None"

definition run_format :: "int \<Rightarrow> string option" where
  "run_format d = (if four_digit_year d then Some (''D-'' @ replicate (nat (d + 719528)) (CHR ''a'')) else None)"

definition run_parse :: "string \<Rightarrow> string + int" where
  "run_parse s =
    (if starts_with s ''D-'' \<and> list_all (\<lambda>c. c = CHR ''a'') (drop 2 s) then Inr (int (length s - 2) - 719528)
     else Inl ''input contains invalid characters'')"

definition plain_convert :: convert_lib where
  "plain_convert = \<lparr>
    bool_into = \<lambda>b. word_datum (if b then 1 else 0),
    i16_into = \<lambda>i. word_datum (word_of_int i),
    i32_into = \<lambda>i. word_datum (word_of_int i),
    i64_into = \<lambda>i. word_datum (word_of_int i),
    f32_into = \<lambda>w. word_datum (ucast w),
    f64_into = word_datum,
    text_into = \<lambda>s. Datum 0 (Some s) None,
    bytes_into = \<lambda>s. Datum 0 (Some s) None,
    date_try = \<lambda>i. if fits_signed 32 i then Inr (word_datum (word_of_int i)) else Inl ''date out of range'',
    timestamp_try = \<lambda>i. Inr (word_datum (word_of_int i)),
    timestamptz_try = \<lambda>i. Inr (word_datum (word_of_int i)),
    numeric_try = \<lambda>s. Inr (Datum 0 (Some s) None),
    json_from_str = \<lambda>s. Inr (Datum 0 (Some s) None),
    parse_ymd = run_parse,
    format_ymd = run_format,
    type_debug = \<lambda>dt. ''type'',
    rust_type_name = id,
    strings_debug = join '', '',
    decimal_check = \<lambda>p s. Inr () \<rparr>"

lemma run_less: "replicate n (CHR ''a'') < replicate m (CHR ''a'') \<longleftrightarrow> n < m"
proof (induction n arbitrary: m)
  case 0
  then show ?case by (cases m) simp_all
next
  case (Suc n)
  then show ?case by (cases m) simp_all
qed

lemma sint_word_of_int_ucast:
  assumes "fits_signed LENGTH('a::len) i" "LENGTH('a) \<le> 64"
  shows "sint (ucast (word_of_int i :: 64 word) :: 'a word) = i"
proof -
  have "(ucast (word_of_int i :: 64 word) :: 'a word) = word_of_int i"
    using assms(2) by (intro bit_word_eqI) (simp add: bit_simps)
  moreover have "signed_take_bit (LENGTH('a) - Suc 0) i = i"
    using assms(1) by (intro signed_take_bit_int_eq_self) (auto simp: fits_signed_def)
  ultimately show ?thesis by (simp add: sint_sbintrunc')
qed

lemma run_format_Some:
  "run_format i = Some s \<Longrightarrow> s = ''D-'' @ replicate (nat (i + 719528)) (CHR ''a'') \<and> - 719528 \<le> i"
  by (simp add: run_format_def four_digit_year_def split: if_splits)

lemma run_parse_run: "run_parse (''D-'' @ replicate n (CHR ''a'')) = Inr (int n - 719528)"
  by (simp add: run_parse_def starts_with_def list_all_iff)

interpretation pc: convert_laws plain_convert
proof (unfold_locales, goal_cases)
  case (1 b)
  then show ?case by (simp add: plain_convert_def datum_to_bool_def word_datum_def)
next
  case (2 i)
  then show ?case using sint_word_of_int_ucast[of i, where 'a = 16] by (simp add: plain_convert_def datum_to_i16_def word_datum_def)
next
  case (3 i)
  then show ?case using sint_word_of_int_ucast[of i, where 'a = 32] by (simp add: plain_convert_def datum_to_i32_def word_datum_def)
next
  case (4 i)
  then show ?case using sint_word_of_int_ucast[of i, where 'a = 64] by (simp add: plain_convert_def datum_to_i64_def word_datum_def)
next
  case (5 w)
  have "ucast (ucast w :: 64 word) = w" by (intro bit_word_eqI) (simp add: bit_simps)
  then show ?case by (simp add: plain_convert_def word_datum_def)
next
  case (6 v)
  then show ?case by (simp add: plain_convert_def word_datum_def)
next
  case (7 s)
  then show ?case by (simp add: plain_convert_def)
next
  case (8 i d)
  then show ?case using sint_word_of_int_ucast[of i, where 'a = 32]
    by (auto simp: plain_convert_def datum_to_i32_def word_datum_def split: if_splits)
next
  case (9 i s)
  then have f: "run_format i = Some s" by (simp add: plain_convert_def)
  then show ?case using run_format_Some[OF f] run_parse_run[of "nat (i + 719528)"] by (auto simp: plain_convert_def)
next
  case (10 i j s t)
  then have f: "run_format i = Some s" "run_format j = Some t" by (simp_all add: plain_convert_def)
  have "(s < t) = (nat (i + 719528) < nat (j + 719528))" using run_format_Some[OF f(1)] run_format_Some[OF f(2)]
    by (simp add: run_less)
  then show ?case using run_format_Some[OF f(1)] run_format_Some[OF f(2)] by linarith
next
  case (11 i s)
  then have f: "run_format i = Some s" by (simp add: plain_convert_def)
  show ?case unfolding conjunct1[OF run_format_Some[OF f]]
    by (simp add: parse_i64_def parse_int_def parse_digits_def is_ascii_digit_def byte_val_def)
next
  case 12
  then show ?case by (simp add: plain_convert_def)
qed


end
