(* ===== verification/Partition.thy ===== *)
theory Partition
  imports Convert Pushdown
begin

text \<open>
  \<^verbatim>\<open>src/fdw/partition.rs\<close>: reading the partition values of a blob out of its path, and deciding from
  them whether a blob can hold a row that a query wants.  The map of parsed values is an Isabelle map.

  The properties: on the values the write path produces, pruning loses no row, and without \<^verbatim>\<open>IS NULL\<close>
  tests the decision is the truth of the expressions on the rows of the blob; on other spellings of a
  number, and on text that looks like numbers compared by size, rows are lost.
\<close>

section \<open>Values in paths\<close>

type_synonym partition_decl = "(string \<times> pg_partition_type) list"

definition declared_name :: "partition_decl \<Rightarrow> string \<Rightarrow> string option" where
  "declared_name declared key = map_option fst (find (\<lambda>(n, _). eq_ignore_ascii_case n key) declared)"

fun scan_segments :: "string \<Rightarrow> partition_decl \<Rightarrow> string list \<Rightarrow> (string \<rightharpoonup> string) \<Rightarrow> (string \<rightharpoonup> string) fdw_result" where
  "scan_segments blob declared [] found = Ok found"
| "scan_segments blob declared (segment # segs) found =
    (case split_once (CHR ''='') segment of
       None \<Rightarrow> scan_segments blob declared segs found
     | Some (key, value) \<Rightarrow>
         (case declared_name declared key of
            None \<Rightarrow> scan_segments blob declared segs found
          | Some decl \<Rightarrow>
              if value = [] then
                Err (SchemaMismatch (''blob '' @ quoted blob @ '' has empty value for partition key '' @ quoted decl))
              else if CHR ''%'' \<in> set value then
                Err (SchemaMismatch (''blob '' @ quoted blob @ '' partition '' @ quoted decl @ '' value contains percent ''
                  @ em_dash @ '' URL-encoded partition values are not supported in v1''))
              else if found decl \<noteq> None then
                Err (SchemaMismatch (''blob '' @ quoted blob @ '' has duplicate partition segment '' @ quoted (decl @ ''='')))
              else scan_segments blob declared segs (found(decl \<mapsto> value))))"

fun check_present :: "string \<Rightarrow> partition_decl \<Rightarrow> (string \<rightharpoonup> string) \<Rightarrow> unit fdw_result" where
  "check_present blob [] found = Ok ()"
| "check_present blob ((name, ty) # declared) found =
    (if found name = None then Err (SchemaMismatch (''blob '' @ quoted blob @ '' missing partition key '' @ quoted name))
     else check_present blob declared found)"

definition partition_values_from_path :: "string \<Rightarrow> partition_decl \<Rightarrow> (string \<rightharpoonup> string) fdw_result" where
  "partition_values_from_path blob declared =
    and_then (scan_segments blob declared (split_on (CHR ''/'') blob) Map.empty) (\<lambda>found.
    and_then (check_present blob declared found) (\<lambda>_. Ok found))"

section \<open>Splitting the quals\<close>

datatype target = TPartition | TStorage | TMixed

text \<open>The loop over the children of a conjunction or disjunction, with the flags seen so far.\<close>

fun classify_target :: "nat list \<Rightarrow> pushed_expr \<Rightarrow> target"
  and classify_children :: "nat list \<Rightarrow> bool \<Rightarrow> bool \<Rightarrow> pushed_expr list \<Rightarrow> target" where
  "classify_target attnums (Leaf q) = (if q_col q \<in> set attnums then TPartition else TStorage)"
| "classify_target attnums (And xs) = classify_children attnums False False xs"
| "classify_target attnums (Or xs) = classify_children attnums False False xs"
| "classify_target attnums (Negate x) = classify_target attnums x"
| "classify_children attnums seen_p seen_s [] =
    (if seen_p \<and> seen_s then TMixed else if seen_p then TPartition else TStorage)"
| "classify_children attnums seen_p seen_s (x # xs) =
    (case classify_target attnums x of
       TPartition \<Rightarrow> classify_children attnums True seen_s xs
     | TStorage \<Rightarrow> classify_children attnums seen_p True xs
     | TMixed \<Rightarrow> TMixed)"

definition split_quals_by_target :: "pushed_expr list \<Rightarrow> nat list \<Rightarrow> pushed_expr list \<times> pushed_expr list" where
  "split_quals_by_target exprs attnums =
    (filter (\<lambda>e. classify_target attnums e = TPartition) exprs, filter (\<lambda>e. classify_target attnums e = TStorage) exprs)"

section \<open>Deciding on a blob\<close>

definition literal_text :: "convert_lib \<Rightarrow> scalar_value \<Rightarrow> string option fdw_result" where
  "literal_text C v =
    (case v of
       I32 i \<Rightarrow> Ok (Some (show_int i))
     | I16 i \<Rightarrow> Ok (Some (show_int i))
     | I64 i \<Rightarrow> Ok (Some (show_int i))
     | SUtf8 s \<Rightarrow> Ok (Some s)
     | SDate32 d \<Rightarrow>
         (case format_ymd C d of
            None \<Rightarrow> Err (Panic ''`NaiveDate + TimeDelta` overflowed'')
          | Some s \<Rightarrow> Ok (Some s))
     | _ \<Rightarrow> Ok None)"

definition cmp_by :: "pushed_op \<Rightarrow> 'a::linorder \<Rightarrow> 'a \<Rightarrow> bool" where
  "cmp_by op a b = (case op of Lt \<Rightarrow> a < b | Le \<Rightarrow> a \<le> b | Gt \<Rightarrow> a > b | Ge \<Rightarrow> a \<ge> b | _ \<Rightarrow> False)"

definition compare_texts :: "pushed_op \<Rightarrow> string \<Rightarrow> string \<Rightarrow> bool" where
  "compare_texts op raw lit =
    (case op of
       Eq \<Rightarrow> raw = lit
     | Ne \<Rightarrow> raw \<noteq> lit
     | IsNull \<Rightarrow> False
     | IsNotNull \<Rightarrow> True
     | _ \<Rightarrow> (case (parse_i64 raw, parse_i64 lit) of
               (Some r, Some l) \<Rightarrow> cmp_by op r l
             | _ \<Rightarrow> cmp_by op raw lit))"

definition eval_partition_leaf ::
  "convert_lib \<Rightarrow> nat list \<Rightarrow> (string \<rightharpoonup> string) \<Rightarrow> partition_decl \<Rightarrow> pushed_qual \<Rightarrow> bool fdw_result" where
  "eval_partition_leaf C attnums parsed declared q =
    (case position (\<lambda>a. a = q_col q) attnums of
       None \<Rightarrow> Ok True
     | Some pos \<Rightarrow>
         if pos \<ge> length declared then Err (Panic ''index out of bounds'')
         else (case parsed (fst (declared ! pos)) of
             None \<Rightarrow> Ok True
           | Some raw \<Rightarrow>
               and_then (literal_text C (q_value q)) (\<lambda>lit.
               Ok (case lit of None \<Rightarrow> True | Some l \<Rightarrow> compare_texts (q_op q) raw l))))"

fun eval_one_partition_expr ::
    "convert_lib \<Rightarrow> nat list \<Rightarrow> (string \<rightharpoonup> string) \<Rightarrow> partition_decl \<Rightarrow> pushed_expr \<Rightarrow> bool fdw_result"
  and eval_all :: "convert_lib \<Rightarrow> nat list \<Rightarrow> (string \<rightharpoonup> string) \<Rightarrow> partition_decl \<Rightarrow> pushed_expr list \<Rightarrow> bool fdw_result"
  and eval_any :: "convert_lib \<Rightarrow> nat list \<Rightarrow> (string \<rightharpoonup> string) \<Rightarrow> partition_decl \<Rightarrow> pushed_expr list \<Rightarrow> bool fdw_result" where
  "eval_one_partition_expr C attnums parsed declared (Leaf q) = eval_partition_leaf C attnums parsed declared q"
| "eval_one_partition_expr C attnums parsed declared (And xs) = eval_all C attnums parsed declared xs"
| "eval_one_partition_expr C attnums parsed declared (Or xs) = eval_any C attnums parsed declared xs"
| "eval_one_partition_expr C attnums parsed declared (Negate x) =
    and_then (eval_one_partition_expr C attnums parsed declared x) (\<lambda>b. Ok (\<not> b))"
| "eval_all C attnums parsed declared [] = Ok True"
| "eval_all C attnums parsed declared (x # xs) =
    and_then (eval_one_partition_expr C attnums parsed declared x) (\<lambda>b.
    if b then eval_all C attnums parsed declared xs else Ok False)"
| "eval_any C attnums parsed declared [] = Ok False"
| "eval_any C attnums parsed declared (x # xs) =
    and_then (eval_one_partition_expr C attnums parsed declared x) (\<lambda>b.
    if b then Ok True else eval_any C attnums parsed declared xs)"

definition evaluate_partition_quals_against_blob ::
  "convert_lib \<Rightarrow> pushed_expr list \<Rightarrow> nat list \<Rightarrow> (string \<rightharpoonup> string) \<Rightarrow> partition_decl \<Rightarrow> bool fdw_result" where
  "evaluate_partition_quals_against_blob C exprs attnums parsed declared = eval_all C attnums parsed declared exprs"

section \<open>The decision is the truth of the expression\<close>

text \<open>The text that the write path gives a value: what \<^verbatim>\<open>datum_to_partition_string\<close> prints.  A date is
  one with a year of four digits.\<close>

fun canonical :: "convert_lib \<Rightarrow> pg_partition_type \<Rightarrow> string \<Rightarrow> cell \<Rightarrow> bool" where
  "canonical C Text raw c \<longleftrightarrow> c = CStr raw"
| "canonical C Date raw c \<longleftrightarrow> (case c of CInt d \<Rightarrow> format_ymd C d = Some raw \<and> four_digit_year d | _ \<Rightarrow> False)"
| "canonical C _ raw c \<longleftrightarrow> (case c of CInt v \<Rightarrow> raw = show_int v \<and> fits_signed 64 v | _ \<Rightarrow> False)"

text \<open>A comparison with a literal of the column's kind.  Left out are comparisons by size of two texts that
  both look like numerals, and dates whose year has not four digits.\<close>

fun literal_of_type :: "convert_lib \<Rightarrow> pg_partition_type \<Rightarrow> pushed_op \<Rightarrow> string \<Rightarrow> scalar_value \<Rightarrow> bool" where
  "literal_of_type C Text op raw (SUtf8 s) \<longleftrightarrow> op \<in> {Eq, Ne} \<or> parse_i64 raw = None \<or> parse_i64 s = None"
| "literal_of_type C Date op raw (SDate32 d) \<longleftrightarrow> four_digit_year d \<and> format_ymd C d \<noteq> None"
| "literal_of_type C Text op raw _ \<longleftrightarrow> False"
| "literal_of_type C Date op raw _ \<longleftrightarrow> False"
| "literal_of_type C _ op raw (I16 i) \<longleftrightarrow> fits_signed 64 i"
| "literal_of_type C _ op raw (I32 i) \<longleftrightarrow> fits_signed 64 i"
| "literal_of_type C _ op raw (I64 i) \<longleftrightarrow> fits_signed 64 i"
| "literal_of_type C _ op raw _ \<longleftrightarrow> False"

definition typed_qual :: "convert_lib \<Rightarrow> nat list \<Rightarrow> (string \<rightharpoonup> string) \<Rightarrow> partition_decl \<Rightarrow> pushed_qual \<Rightarrow> bool" where
  "typed_qual C attnums parsed declared q \<longleftrightarrow>
    (case position (\<lambda>a. a = q_col q) attnums of
       None \<Rightarrow> False
     | Some pos \<Rightarrow> pos < length declared
         \<and> (q_op q = IsNotNull \<and> q_value q = SNull
            \<or> q_op q \<noteq> IsNull \<and> q_op q \<noteq> IsNotNull
              \<and> (case parsed (fst (declared ! pos)) of
                   None \<Rightarrow> False
                 | Some raw \<Rightarrow> literal_of_type C (snd (declared ! pos)) (q_op q) raw (q_value q))))"

fun typed_expr :: "convert_lib \<Rightarrow> nat list \<Rightarrow> (string \<rightharpoonup> string) \<Rightarrow> partition_decl \<Rightarrow> pushed_expr \<Rightarrow> bool" where
  "typed_expr C attnums parsed declared (Leaf q) \<longleftrightarrow> typed_qual C attnums parsed declared q"
| "typed_expr C attnums parsed declared (And xs) \<longleftrightarrow> list_all (typed_expr C attnums parsed declared) xs"
| "typed_expr C attnums parsed declared (Or xs) \<longleftrightarrow> list_all (typed_expr C attnums parsed declared) xs"
| "typed_expr C attnums parsed declared (Negate x) \<longleftrightarrow> typed_expr C attnums parsed declared x"

text \<open>An \<^verbatim>\<open>IS NULL\<close> test carries no literal and keeps every blob; it may stand outside negations.\<close>

definition null_test_qual :: "nat list \<Rightarrow> partition_decl \<Rightarrow> pushed_qual \<Rightarrow> bool" where
  "null_test_qual attnums declared q \<longleftrightarrow> q_op q = IsNull \<and> q_value q = SNull
    \<and> (case position (\<lambda>a. a = q_col q) attnums of None \<Rightarrow> False | Some pos \<Rightarrow> pos < length declared)"

fun prunable :: "convert_lib \<Rightarrow> nat list \<Rightarrow> (string \<rightharpoonup> string) \<Rightarrow> partition_decl \<Rightarrow> pushed_expr \<Rightarrow> bool" where
  "prunable C attnums parsed declared (Leaf q) \<longleftrightarrow> typed_qual C attnums parsed declared q \<or> null_test_qual attnums declared q"
| "prunable C attnums parsed declared (And xs) \<longleftrightarrow> list_all (prunable C attnums parsed declared) xs"
| "prunable C attnums parsed declared (Or xs) \<longleftrightarrow> list_all (prunable C attnums parsed declared) xs"
| "prunable C attnums parsed declared (Negate x) \<longleftrightarrow> typed_expr C attnums parsed declared x"

text \<open>The rows of a blob: every partition column has the value the path gives it.\<close>

definition row_of_blob :: "convert_lib \<Rightarrow> nat list \<Rightarrow> (string \<rightharpoonup> string) \<Rightarrow> partition_decl \<Rightarrow> row \<Rightarrow> bool" where
  "row_of_blob C attnums parsed declared row \<longleftrightarrow>
    length attnums = length declared
    \<and> (\<forall>i < length attnums. attnums ! i < length row \<and>
        (\<exists>raw c. parsed (fst (declared ! i)) = Some raw \<and> row ! (attnums ! i) = Some c
          \<and> canonical C (snd (declared ! i)) raw c))"

lemma position_SomeD: "position P xs = Some i \<Longrightarrow> i < length xs \<and> P (xs ! i)"
  by (induction xs arbitrary: i) (auto split: if_splits)

lemma compare_texts_ordered:
  assumes "op \<noteq> IsNull" "op \<noteq> IsNotNull" "parse_i64 raw = None \<or> parse_i64 lit = None \<or> op \<in> {Eq, Ne}"
    "(raw < lit) = sql_less c l" "(lit < raw) = sql_less l c"
  shows "compare_texts op raw lit = cell_cmp sql_less op c l"
proof -
  have e: "(raw = lit) = (\<not> sql_less c l \<and> \<not> sql_less l c)" "(raw \<le> lit) = (\<not> sql_less l c)" "(lit \<le> raw) = (\<not> sql_less c l)"
    unfolding assms(4,5)[symmetric] by (simp_all add: not_less order_eq_iff conj_commute)
  have n: "compare_texts op raw lit = cmp_by op raw lit" if "op \<in> {Lt, Le, Gt, Ge}"
    using assms(3) that by (auto simp: compare_texts_def split: option.splits)
  show ?thesis
  proof (cases "op \<in> {Lt, Le, Gt, Ge}")
    case True
    then show ?thesis using n assms(4,5) e by (auto simp: cmp_by_def)
  next
    case False
    then show ?thesis using assms(1,2) e by (cases op) (simp_all add: compare_texts_def)
  qed
qed

lemma parse_i64_fits: "fits_signed 64 a \<Longrightarrow> parse_i64 (show_int a) = Some a"
  by (rule parse_i64_show_int) (simp_all add: fits_signed_def)

lemma show_int_eq_iff: "fits_signed 64 a \<Longrightarrow> fits_signed 64 b \<Longrightarrow> show_int a = show_int b \<longleftrightarrow> a = b"
  by (metis parse_i64_fits option.inject)

lemma compare_texts_int:
  assumes "op \<noteq> IsNull" "op \<noteq> IsNotNull" "fits_signed 64 a" "fits_signed 64 b"
  shows "compare_texts op (show_int a) (show_int b) = cell_cmp sql_less op (CInt a) (CInt b)"
  using assms(1,2) parse_i64_fits[OF assms(3)] parse_i64_fits[OF assms(4)] show_int_eq_iff[OF assms(3,4)]
  by (cases op) (auto simp: compare_texts_def cmp_by_def)

lemma foldl_absorb [simp]: "foldl kleene_and (Some False) bs = Some False" "foldl kleene_or (Some True) bs = Some True"
  by (induction bs) simp_all

lemma eval_all_exact:
  assumes "\<forall>x \<in> set xs. \<exists>b. eval_one_partition_expr C attnums parsed declared x = Ok b \<and> sql_truth row x = Some b"
  shows "\<exists>b. eval_all C attnums parsed declared xs = Ok b \<and> foldl kleene_and (Some True) (map (sql_truth row) xs) = Some b"
  using assms by (induction xs) auto

lemma eval_all_sound:
  assumes "\<forall>x \<in> set xs. \<exists>b. eval_one_partition_expr C attnums parsed declared x = Ok b \<and> (sql_truth row x = Some True \<longrightarrow> b)"
  shows "\<exists>b. eval_all C attnums parsed declared xs = Ok b \<and> ((\<forall>x \<in> set xs. sql_truth row x = Some True) \<longrightarrow> b)"
  using assms
proof (induction xs)
  case (Cons x xs)
  then obtain b c where "eval_one_partition_expr C attnums parsed declared x = Ok b" "sql_truth row x = Some True \<longrightarrow> b"
    "eval_all C attnums parsed declared xs = Ok c" "(\<forall>x \<in> set xs. sql_truth row x = Some True) \<longrightarrow> c"
    by auto
  then show ?case by (cases b) auto
qed auto

lemma eval_any_sound:
  assumes "\<forall>x \<in> set xs. \<exists>b. eval_one_partition_expr C attnums parsed declared x = Ok b \<and> (sql_truth row x = Some True \<longrightarrow> b)"
  shows "\<exists>b. eval_any C attnums parsed declared xs = Ok b \<and> ((\<exists>x \<in> set xs. sql_truth row x = Some True) \<longrightarrow> b)"
  using assms
proof (induction xs)
  case (Cons x xs)
  then obtain b c where "eval_one_partition_expr C attnums parsed declared x = Ok b" "sql_truth row x = Some True \<longrightarrow> b"
    "eval_any C attnums parsed declared xs = Ok c" "(\<exists>x \<in> set xs. sql_truth row x = Some True) \<longrightarrow> c"
    by auto
  then show ?case by (cases b) auto
qed auto

lemma eval_any_exact:
  assumes "\<forall>x \<in> set xs. \<exists>b. eval_one_partition_expr C attnums parsed declared x = Ok b \<and> sql_truth row x = Some b"
  shows "\<exists>b. eval_any C attnums parsed declared xs = Ok b \<and> foldl kleene_or (Some False) (map (sql_truth row) xs) = Some b"
  using assms by (induction xs) auto

context convert_laws
begin

lemma leaf_text_exact:
  assumes "canonical C ty raw c" "literal_of_type C ty op raw v" "op \<noteq> IsNull" "op \<noteq> IsNotNull"
  shows "\<exists>l lc. literal_text C v = Ok (Some l) \<and> scalar_cell v = Some lc \<and> compare_texts op raw l = cell_cmp sql_less op c lc"
proof -
  consider (numeric) "ty \<noteq> Text" "ty \<noteq> Date" | (textual) "ty = Text" | (dated) "ty = Date" by blast
  then show ?thesis
  proof cases
    case numeric
    then obtain a where a: "c = CInt a" "raw = show_int a" "fits_signed 64 a" using assms(1) by (cases ty) (auto split: cell.splits)
    obtain b where b: "literal_text C v = Ok (Some (show_int b))" "scalar_cell v = Some (CInt b)" "fits_signed 64 b"
      using assms(2) numeric by (cases ty; cases v) (auto simp: literal_text_def)
    then show ?thesis using compare_texts_int[OF assms(3,4) a(3) b(3)] a by auto
  next
    case textual
    then obtain s where s: "v = SUtf8 s" "op \<in> {Eq, Ne} \<or> parse_i64 raw = None \<or> parse_i64 s = None" "c = CStr raw"
      using assms(1,2) by (cases v) auto
    have "compare_texts op raw s = cell_cmp sql_less op (CStr raw) (CStr s)"
      using s(2) by (intro compare_texts_ordered[OF assms(3,4)]) auto
    then show ?thesis using s by (simp add: literal_text_def)
  next
    case dated
    then obtain d e l where d: "c = CInt d" "format_ymd C d = Some raw" "four_digit_year d" "v = SDate32 e"
      "four_digit_year e" "format_ymd C e = Some l"
      using assms(1,2) by (cases v) (auto split: cell.splits)
    have "compare_texts op raw l = cell_cmp sql_less op (CInt d) (CInt e)"
      using ymd_order[OF d(3,5,2,6)] ymd_order[OF d(5,3,6,2)] ymd_no_number[OF d(3,2)]
      by (intro compare_texts_ordered[OF assms(3,4)]) simp_all
    then show ?thesis using d by (simp add: literal_text_def)
  qed
qed

lemma leaf_exact:
  assumes "row_of_blob C attnums parsed declared row" "typed_qual C attnums parsed declared q"
  shows "\<exists>b. eval_partition_leaf C attnums parsed declared q = Ok b \<and> qual_truth sql_less q (row ! q_col q) = Some b"
proof -
  obtain pos where pos: "position (\<lambda>a. a = q_col q) attnums = Some pos" "pos < length declared"
    using assms(2) by (auto simp: typed_qual_def split: option.splits)
  have a: "pos < length attnums" "attnums ! pos = q_col q" using position_SomeD[OF pos(1)] by auto
  obtain raw c where c: "parsed (fst (declared ! pos)) = Some raw" "row ! q_col q = Some c" "canonical C (snd (declared ! pos)) raw c"
    using assms(1) a unfolding row_of_blob_def by metis
  show ?thesis
  proof (cases "q_op q = IsNotNull")
    case True
    then have "q_value q = SNull" using assms(2) pos by (simp add: typed_qual_def)
    then show ?thesis using True pos c by (auto simp: eval_partition_leaf_def literal_text_def qual_truth_def)
  next
    case False
    then have p: "q_op q \<noteq> IsNull" "literal_of_type C (snd (declared ! pos)) (q_op q) raw (q_value q)"
      using assms(2) pos c(1) by (auto simp: typed_qual_def)
    obtain l lc where l: "literal_text C (q_value q) = Ok (Some l)" "scalar_cell (q_value q) = Some lc"
      "compare_texts (q_op q) raw l = cell_cmp sql_less (q_op q) c lc"
      using leaf_text_exact[OF c(3) p(2,1) False] by blast
    have "qual_truth sql_less q (row ! q_col q) = Some (cell_cmp sql_less (q_op q) c lc)"
      using p(1) False l(2) c(2) by (cases "q_op q") (simp_all add: qual_truth_def)
    then show ?thesis using pos c l by (simp add: eval_partition_leaf_def)
  qed
qed

lemma eval_exact:
  assumes "row_of_blob C attnums parsed declared row" "typed_expr C attnums parsed declared e"
  shows "\<exists>b. eval_one_partition_expr C attnums parsed declared e = Ok b \<and> sql_truth row e = Some b"
  using assms(2)
proof (induction e)
  case (Leaf q)
  then show ?case using leaf_exact[OF assms(1)] by simp
next
  case (And xs)
  then show ?case using eval_all_exact[of xs C attnums parsed declared row] by (simp add: list_all_iff)
next
  case (Or xs)
  then show ?case using eval_any_exact[of xs C attnums parsed declared row] by (simp add: list_all_iff)
next
  case (Negate x)
  then obtain b where "eval_one_partition_expr C attnums parsed declared x = Ok b" "sql_truth row x = Some b" by auto
  then show ?case by simp
qed

lemma eval_sound:
  assumes "row_of_blob C attnums parsed declared row" "prunable C attnums parsed declared e"
  shows "\<exists>b. eval_one_partition_expr C attnums parsed declared e = Ok b \<and> (sql_truth row e = Some True \<longrightarrow> b)"
  using assms(2)
proof (induction e)
  case (Leaf q)
  show ?case
  proof (cases "null_test_qual attnums declared q")
    case True
    then show ?thesis by (auto simp: null_test_qual_def eval_partition_leaf_def literal_text_def split: option.splits)
  next
    case False
    then show ?thesis using leaf_exact[OF assms(1), of q] Leaf by auto
  qed
next
  case (And xs)
  then show ?case using eval_all_sound[of xs C attnums parsed declared row]
    unfolding sql_truth.simps foldl_kleene_and by (auto simp: list_all_iff)
next
  case (Or xs)
  then have "\<exists>b. eval_any C attnums parsed declared xs = Ok b \<and> ((\<exists>x \<in> set xs. sql_truth row x = Some True) \<longrightarrow> b)"
    using eval_any_sound[of xs C attnums parsed declared row] by (simp add: list_all_iff)
  then show ?case unfolding sql_truth.simps foldl_kleene_or by force
next
  case (Negate x)
  then show ?case using eval_exact[OF assms(1), of "Negate x"] by auto
qed

end

text \<open>C18: the decision on a blob.  When the values in the path are spelled the way the write path spells
  them, and the pushed quals on partition columns are \<^verbatim>\<open>IS NULL\<close> tests outside negations, \<^verbatim>\<open>IS NOT NULL\<close>
  tests, or comparisons with a literal of the column's kind, the decision succeeds, and a blob with a row
  on which all quals are true is kept; without \<^verbatim>\<open>IS NULL\<close> tests only such blobs are kept.  Texts are
  ordered by their bytes, dates have years of four digits, and comparisons by size of two texts that
  both look like integers are left out (the code compares those as numbers).\<close>

theorem partition_prune_exact:
  assumes "convert_laws C" "row_of_blob C attnums parsed declared row"
    "\<forall>e \<in> set es. prunable C attnums parsed declared e"
  shows "\<exists>keep. evaluate_partition_quals_against_blob C es attnums parsed declared = Ok keep
    \<and> ((\<forall>e \<in> set es. sql_truth row e = Some True) \<longrightarrow> keep)
    \<and> ((\<forall>e \<in> set es. typed_expr C attnums parsed declared e) \<longrightarrow> keep \<longrightarrow> (\<forall>e \<in> set es. sql_truth row e = Some True))"
proof -
  have "\<forall>e \<in> set es. \<exists>b. eval_one_partition_expr C attnums parsed declared e = Ok b \<and> (sql_truth row e = Some True \<longrightarrow> b)"
    using convert_laws.eval_sound[OF assms(1,2)] assms(3) by blast
  then obtain b where b: "eval_all C attnums parsed declared es = Ok b" "(\<forall>e \<in> set es. sql_truth row e = Some True) \<longrightarrow> b"
    using eval_all_sound by blast
  have "\<forall>e \<in> set es. sql_truth row e = Some True" if t: "\<forall>e \<in> set es. typed_expr C attnums parsed declared e" and k: b
  proof -
    have "\<forall>e \<in> set es. \<exists>b. eval_one_partition_expr C attnums parsed declared e = Ok b \<and> sql_truth row e = Some b"
      using convert_laws.eval_exact[OF assms(1,2)] t by blast
    then have "foldl kleene_and (Some True) (map (sql_truth row) es) = Some True" using eval_all_exact b(1) k by fastforce
    then show ?thesis unfolding foldl_kleene_and by simp
  qed
  then show ?thesis using b by (auto simp: evaluate_partition_quals_against_blob_def)
qed

definition demo_decl :: partition_decl where
  "demo_decl = [(''year'', Int4), (''region'', Text)]"

definition demo_parsed :: "string \<rightharpoonup> string" where
  "demo_parsed = [''year'' \<mapsto> ''2024'', ''region'' \<mapsto> ''eu'']"

definition year_is :: "pushed_op \<Rightarrow> int \<Rightarrow> pushed_expr" where
  "year_is op y = Leaf \<lparr> q_col = 1, q_op = op, q_value = I32 y \<rparr>"

lemma show_2024: "show_int 2024 = ''2024''" "show_int 2023 = ''2023''" "show_int 7 = ''7''"
  by (simp_all add: show_int_def show_nat.simps digit_char_def char_of_def bit_simps)

theorem partition_prune_exact_witness:
  "evaluate_partition_quals_against_blob plain_convert [Negate (year_is Lt 2023), Leaf \<lparr> q_col = 2, q_op = IsNotNull, q_value = SNull \<rparr>]
      [1, 2] demo_parsed demo_decl = Ok True
   \<and> (\<exists>keep. evaluate_partition_quals_against_blob plain_convert [year_is Lt 2023] [1, 2] demo_parsed demo_decl = Ok keep \<and> \<not> keep)"
proof -
  let ?row = "[None, Some (CInt 2024), Some (CStr ''eu'')]"
  have r: "row_of_blob plain_convert [1, 2] demo_parsed demo_decl ?row"
    by (auto simp: row_of_blob_def demo_parsed_def demo_decl_def show_2024 fits_signed_def less_Suc_eq)
  have t: "typed_expr plain_convert [1, 2] demo_parsed demo_decl (year_is Lt 2023)"
    "typed_expr plain_convert [1, 2] demo_parsed demo_decl (Leaf \<lparr> q_col = 2, q_op = IsNotNull, q_value = SNull \<rparr>)"
    by (simp_all add: year_is_def typed_qual_def demo_parsed_def demo_decl_def fits_signed_def)
  from partition_prune_exact[OF pc.convert_laws_axioms r, of "[Negate (year_is Lt 2023), Leaf \<lparr> q_col = 2, q_op = IsNotNull, q_value = SNull \<rparr>]"] t
  have "\<exists>keep. evaluate_partition_quals_against_blob plain_convert [Negate (year_is Lt 2023), Leaf \<lparr> q_col = 2, q_op = IsNotNull, q_value = SNull \<rparr>]
      [1, 2] demo_parsed demo_decl = Ok keep \<and> keep"
    by (auto simp: year_is_def qual_truth_def)
  moreover from partition_prune_exact[OF pc.convert_laws_axioms r, of "[year_is Lt 2023]"] t(1)
  have "\<exists>keep. evaluate_partition_quals_against_blob plain_convert [year_is Lt 2023] [1, 2] demo_parsed demo_decl = Ok keep \<and> \<not> keep"
    by (auto simp: year_is_def qual_truth_def)
  ultimately show ?thesis by auto
qed





end
