(* ===== verification/Catalog.thy ===== *)
theory Catalog
  imports Options Pg_Types
begin

text \<open>
  Reading the options of a foreign table, its server and its user mapping off the catalog
  (\<^verbatim>\<open>read_all_options\<close>, which the modify and the scan paths each have), and connecting with them
  (\<^verbatim>\<open>AzureBlobClient::new\<close> in \<^verbatim>\<open>src/azure/mod.rs\<close>).

  What PostgreSQL returns is the record \<open>foreign_catalog\<close>: an option list is \<open>None\<close> when the catalog
  lookup gave a null pointer, a list is itself null or a list of possibly null elements, and an element
  is its name with the C string of its value.  The SDK is the record \<open>azure_sdk\<close>.
\<close>

section \<open>Options in the catalog\<close>

type_synonym def_list = "(string \<times> string option) option list option"

definition pg_list_to_kv :: "def_list \<Rightarrow> (string \<times> string) list" where
  "pg_list_to_kv l =
    (case l of
       None \<Rightarrow> []
     | Some defs \<Rightarrow> List.map_filter (map_option (\<lambda>(name, value).
         (from_utf8_lossy name, case value of None \<Rightarrow> [] | Some v \<Rightarrow> from_utf8_lossy v))) defs)"

record foreign_catalog =
  cat_table :: "def_list option"
  cat_server :: "def_list option"
  cat_user_mapping :: "def_list option"

definition read_all_options ::
  "(string \<Rightarrow> string + (string \<times> string option)) \<Rightarrow> foreign_catalog \<Rightarrow> nat
    \<Rightarrow> (server_options \<times> user_mapping_options \<times> table_options) fdw_result" where
  "read_all_options url_host cat relid =
    and_then (ok_or (cat_table cat) (InvalidOption (''foreign table oid '' @ show_nat relid @ '' not found''))) (\<lambda>table.
    and_then (ok_or (cat_server cat) (InvalidOption ''foreign server not found'')) (\<lambda>server.
    let um_kv = (case cat_user_mapping cat of None \<Rightarrow> [] | Some l \<Rightarrow> pg_list_to_kv l) in
    and_then (parse_server_options_from_slice (pg_list_to_kv server)) (\<lambda>server_opts.
    and_then (parse_user_mapping_options_from_slice url_host um_kv) (\<lambda>um_opts.
    and_then (parse_table_options_from_slice (pg_list_to_kv table)) (\<lambda>table_opts.
    Ok (server_opts, um_opts, table_opts))))))"

section \<open>Connecting\<close>

text \<open>\<open>url_host\<close> gives the scheme and host of a URL, for the checks of \<open>Options\<close>; \<open>url_parse\<close> and
  \<open>container_client_new\<close> are what the client is made with.\<close>

record ('tok, 'url, 'c) azure_sdk =
  managed_identity_new :: "string + 'tok"
  client_secret_new :: "string \<Rightarrow> string \<Rightarrow> string \<Rightarrow> string + 'tok"
  env_var :: "string \<Rightarrow> string option"
  url_host :: "string \<Rightarrow> string + (string \<times> string option)"
  url_parse :: "string \<Rightarrow> string + 'url"
  container_client_new :: "'url \<Rightarrow> 'tok option \<Rightarrow> string + 'c"

record 'c azure_client =
  client_inner :: 'c
  client_account :: string
  client_container :: string

definition azure_client_new ::
  "('tok, 'url, 'c) azure_sdk \<Rightarrow> string \<Rightarrow> string \<Rightarrow> 'tok credential \<Rightarrow> string \<Rightarrow> 'c azure_client fdw_result" where
  "azure_client_new sdk ep account cred cont =
    and_then
      (case cred of
         Token tc \<Rightarrow>
           (let url_str = ''https://'' @ account @ ''.'' @ ep @ ''/'' @ cont in
            (case url_parse sdk url_str of
               Inl e \<Rightarrow> Err (azure_ctx (''bad container url '' @ quoted url_str) e)
             | Inr url \<Rightarrow>
                 (case container_client_new sdk url (Some tc) of Inl e \<Rightarrow> Err (azure_error e) | Inr c \<Rightarrow> Ok c)))
       | SasUrlCredential container_url \<Rightarrow>
           (case url_parse sdk container_url of
              Inl e \<Rightarrow> Err (azure_ctx ''bad sas container url'' e)
            | Inr url \<Rightarrow>
                (case container_client_new sdk url None of Inl e \<Rightarrow> Err (azure_error e) | Inr c \<Rightarrow> Ok c)))
      (\<lambda>inner. Ok \<lparr> client_inner = inner, client_account = account, client_container = cont \<rparr>)"

text \<open>The credential and the client of a table, as every path that reaches the store builds them.\<close>

definition connect ::
  "('tok, 'url, 'c) azure_sdk \<Rightarrow> server_options \<Rightarrow> user_mapping_options \<Rightarrow> string \<Rightarrow> 'c azure_client fdw_result" where
  "connect sdk server um cont =
    and_then (validate_combo server um) (\<lambda>_.
    and_then (build_credential (managed_identity_new sdk) (client_secret_new sdk) (env_var sdk)
      (server_auth_method server) (sas_url um)) (\<lambda>cred.
    azure_client_new sdk (endpoint server) (account_name server) cred cont))"

end
