(* ===== verification/Insert.thy ===== *)
theory Insert
  imports Partition Rewrite Fake_Store Catalog "HOL-Library.AList"
begin

text \<open>
  \<^verbatim>\<open>src/fdw/modify/insert.rs\<close>: the INSERT path.  Every row goes to the group of its partition values; a
  group has its own builders, parquet writer and target blob; a group is flushed every \<open>BATCH_ROWS\<close> rows
  and uploaded at the end of the statement.

  The \<^verbatim>\<open>HashMap\<close>s of the state are association lists; the order in which a map is walked is not specified,
  and is the parameter \<open>order\<close>.  The clock and the identifiers that make a blob name are the sequence \<open>stamp\<close>,
  with a counter in the state.  A tuple slot is the list of its nullable datums.

  The abstract specification is a map from partition values to rows: the property is that the uploaded files
  are exactly the groups of the inserted rows, in order.
\<close>

section \<open>The state\<close>

type_synonym partition_key = "string list"

type_synonym slot = "pg_datum option list"

definition BATCH_ROWS :: nat where "BATCH_ROWS = 8192"

record 'w insert_state =
  ins_schema :: schema
  ins_oids :: "nat list"
  ins_compression :: compression
  partition_attnums :: "nat list"
  partition_keys_decl :: partition_decl
  base_prefix :: string
  legacy_single_target :: "string option"
  group_builders :: "(partition_key \<times> builders) list"
  group_writers :: "(partition_key \<times> 'w) list"
  target_names :: "(partition_key \<times> string) list"
  rows_in_current_batch :: "(partition_key \<times> nat) list"
  names_used :: nat

definition pick_target_layout :: "table_options \<Rightarrow> string \<times> string option" where
  "pick_target_layout opts =
    (let fname = filename opts in
     case split_once (CHR ''*'') fname of
       Some (pre, _) \<Rightarrow> (rev (dropWhile (\<lambda>c. c = CHR ''/'') (rev pre)), None)
     | None \<Rightarrow>
         ((case rsplit_once (CHR ''/'') fname of Some (dir, _) \<Rightarrow> dir | None \<Rightarrow> []), Some fname))"

text \<open>Dropped columns are refused; the partition columns are found by name, whatever the case.\<close>

fun collect_attrs :: "pg_attribute list \<Rightarrow> (pg_attribute list \<times> nat list) fdw_result" where
  "collect_attrs [] = Ok ([], [])"
| "collect_attrs (att # atts) =
    (if attisdropped att then Err (SchemaMismatch (''dropped column at attnum '' @ show_int (attnum att)
       @ '' not supported on write path''))
     else and_then (collect_attrs atts) (\<lambda>(as, oids). Ok (att # as, atttypid att # oids)))"

definition find_attr :: "pg_attribute list \<Rightarrow> string \<Rightarrow> nat option" where
  "find_attr atts name = position (\<lambda>att. eq_ignore_ascii_case (from_utf8_lossy (c_string (attname att))) name) atts"

definition resolve_partitions :: "pg_attribute list \<Rightarrow> string list \<Rightarrow> nat list fdw_result" where
  "resolve_partitions atts names =
    try_map (\<lambda>name. ok_or (find_attr atts name) (SchemaMismatch (''partition_columns names '' @ quoted name
      @ '' but no such column in foreign table''))) names"

definition storage_attrs :: "nat list \<Rightarrow> pg_attribute list \<Rightarrow> pg_attribute list" where
  "storage_attrs part atts = map snd (filter (\<lambda>(i, a). i \<notin> set part) (enumerate 0 atts))"

definition build_state ::
  "('tok, 'url, 'c) azure_sdk \<Rightarrow> foreign_catalog \<Rightarrow> nat \<Rightarrow> pg_attribute list \<Rightarrow> ('w insert_state \<times> 'c azure_client) fdw_result" where
  "build_state sdk cat relid tupdesc =
    and_then (read_all_options (url_host sdk) cat relid) (\<lambda>(server_opts, um_opts, table_opts).
    and_then (connect sdk server_opts um_opts (container table_opts)) (\<lambda>client.
    and_then (collect_attrs tupdesc) (\<lambda>(attrs, oids).
    and_then (resolve_partitions tupdesc (partition_columns table_opts)) (\<lambda>part.
    and_then (pg_attrs_to_arrow_schema (storage_attrs part attrs)) (\<lambda>sch.
    let (base, legacy) = pick_target_layout table_opts in
    Ok (\<lparr> ins_schema = sch, ins_oids = oids, ins_compression = compression table_opts, partition_attnums = part,
         partition_keys_decl = partition_keys table_opts, base_prefix = base, legacy_single_target = legacy,
         group_builders = [], group_writers = [], target_names = [], rows_in_current_batch = [], names_used = 0 \<rparr>,
        client))))))"

section \<open>Appending a row\<close>

definition append_one :: "convert_lib \<Rightarrow> nat \<Rightarrow> nat \<Rightarrow> pg_datum option \<Rightarrow> builders \<Rightarrow> builders fdw_result" where
  "append_one C col oid datum b =
    (case datum of
       None \<Rightarrow> append_null col b
     | Some d \<Rightarrow>
         if oid = BOOLOID then append_bool C col (Some (datum_to_bool d)) b
         else if oid = INT2OID then append_i16 C col (Some (datum_to_i16 d)) b
         else if oid = INT4OID then append_i32 C col (Some (datum_to_i32 d)) b
         else if oid = INT8OID then append_i64 C col (Some (datum_to_i64 d)) b
         else if oid = FLOAT4OID then append_f32 C col (Some (ucast (datum_value d))) b
         else if oid = FLOAT8OID then append_f64 C col (Some (datum_value d)) b
         else if oid = TEXTOID \<or> oid = VARCHAROID then
           and_then (text_datum_to_str d) (\<lambda>s. append_str C col (Some s) b)
         else Err (UnsupportedType (''oid='' @ show_nat oid @ '' (write path)'') ''<n/a>''))"

definition partition_value :: "convert_lib \<Rightarrow> nat list \<Rightarrow> slot \<Rightarrow> nat \<Rightarrow> string fdw_result" where
  "partition_value C oids slot attno =
    (case slot ! attno of
       None \<Rightarrow> Err (SchemaMismatch (''partition column attno '' @ show_nat attno @ '' cannot be NULL''))
     | Some d \<Rightarrow> datum_to_partition_string C d (oids ! attno))"

text \<open>The path of a group: the prefix, then one segment for every value.\<close>

fun partition_path :: "partition_decl \<Rightarrow> nat \<Rightarrow> partition_key \<Rightarrow> string \<Rightarrow> string" where
  "partition_path decl i [] path = path"
| "partition_path decl i (value # values) path =
    partition_path decl (i + 1) values
      ((if path \<noteq> [] \<and> \<not> ends_with path ''/'' then path @ ''/'' else path)
       @ (if i < length decl then fst (decl ! i) else ''p'') @ ''='' @ value)"

definition compute_target_name :: "(nat \<Rightarrow> string \<times> string) \<Rightarrow> 'w insert_state \<Rightarrow> partition_key \<Rightarrow> string \<times> nat" where
  "compute_target_name stamp st key =
    (let (ts, uuid) = stamp (names_used st) in
     if key = [] then
       (case legacy_single_target st of
          Some literal \<Rightarrow> (literal, names_used st)
        | None \<Rightarrow> (generate_blob_name ts uuid (base_prefix st), names_used st + 1))
     else (generate_blob_name ts uuid (partition_path (partition_keys_decl st) 0 key (base_prefix st)), names_used st + 1))"

text \<open>The walk over the columns of the slot: \<open>i\<close> is the column, \<open>scol\<close> its place among the storage columns.\<close>

fun append_columns :: "convert_lib \<Rightarrow> nat list \<Rightarrow> slot \<Rightarrow> nat \<Rightarrow> nat \<Rightarrow> nat list \<Rightarrow> builders \<Rightarrow> builders fdw_result" where
  "append_columns C part slot i scol [] b = Ok b"
| "append_columns C part slot i scol (oid # oids) b =
    (if i \<in> set part then append_columns C part slot (i + 1) scol oids b
     else and_then (append_one C scol oid (slot ! i) b) (append_columns C part slot (i + 1) (scol + 1) oids))"

definition ensure_builders :: "convert_lib \<Rightarrow> partition_key \<Rightarrow> 'w insert_state \<Rightarrow> 'w insert_state fdw_result" where
  "ensure_builders C key st =
    (case map_of (group_builders st) key of
       Some _ \<Rightarrow> Ok st
     | None \<Rightarrow>
         (case builders_new C (ins_schema st) of
            Inl e \<Rightarrow> Err (Panic ''RecordBatchBuilders::new should not fail for a validated schema'')
          | Inr b \<Rightarrow> Ok (st \<lparr> group_builders := AList.update key b (group_builders st) \<rparr>)))"

definition ensure_target :: "(nat \<Rightarrow> string \<times> string) \<Rightarrow> partition_key \<Rightarrow> 'w insert_state \<Rightarrow> 'w insert_state" where
  "ensure_target stamp key st =
    (case map_of (target_names st) key of
       Some _ \<Rightarrow> st
     | None \<Rightarrow> (let (name, used) = compute_target_name stamp st key in
                st \<lparr> target_names := AList.update key name (target_names st), names_used := used \<rparr>))"

definition rows_of :: "'w insert_state \<Rightarrow> partition_key \<Rightarrow> nat" where
  "rows_of st key = (case map_of (rows_in_current_batch st) key of None \<Rightarrow> 0 | Some n \<Rightarrow> n)"

definition slot_key :: "convert_lib \<Rightarrow> 'w insert_state \<Rightarrow> slot \<Rightarrow> partition_key fdw_result" where
  "slot_key C st slot = try_map (partition_value C (ins_oids st) slot) (partition_attnums st)"

definition append_slot ::
  "convert_lib \<Rightarrow> (nat \<Rightarrow> string \<times> string) \<Rightarrow> slot \<Rightarrow> 'w insert_state \<Rightarrow> 'w insert_state fdw_result" where
  "append_slot C stamp slot st =
    and_then (slot_key C st slot) (\<lambda>key.
    and_then (ensure_builders C key st) (\<lambda>st1.
    let st2 = ensure_target stamp key st1 in
    and_then (ok_or (map_of (group_builders st2) key) (Panic ''inserted above by or_insert_with'')) (\<lambda>b.
    and_then (append_columns C (partition_attnums st2) slot 0 0 (ins_oids st2) b) (\<lambda>b'.
    Ok (st2 \<lparr> group_builders := AList.update key b' (group_builders st2),
              rows_in_current_batch := AList.update key (rows_of st2 key + 1) (rows_in_current_batch st2) \<rparr>)))))"

section \<open>Flushing and uploading\<close>

definition group_too_big :: "nat \<Rightarrow> fdw_error" where
  "group_too_big written = Azure (''INSERT/COPY accumulator: group rendered '' @ show_nat written @ '' bytes '' @ em_dash
     @ '' exceeds MAX_BLOB_BYTES='' @ show_nat MAX_BLOB_BYTES @ ''; split the load into multiple statements ''
     @ ''or smaller batches (per-partition groups are bounded independently)'')"

definition flush_group ::
  "convert_lib \<Rightarrow> arrow_ops \<Rightarrow> 'w parquet_lib \<Rightarrow> partition_key \<Rightarrow> 'w insert_state \<Rightarrow> 'w insert_state fdw_result" where
  "flush_group C A L key st =
    (if rows_of st key = 0 then Ok st
     else
      and_then (builders_new C (ins_schema st)) (\<lambda>fresh.
      and_then (ok_or (map_of (group_builders st) key) (Panic ''group's builders present (created in append_slot)'')) (\<lambda>old.
      and_then (builders_finish A old) (\<lambda>batch.
      and_then (case map_of (group_writers st) key of
                  Some w \<Rightarrow> Ok w
                | None \<Rightarrow> batch_writer_new L (ins_schema st) (ins_compression st)) (\<lambda>w.
      and_then (batch_writer_write L batch w) (\<lambda>w'.
      if batch_writer_bytes_written L w' > MAX_BLOB_BYTES then Err (group_too_big (batch_writer_bytes_written L w'))
      else Ok (st \<lparr> group_builders := AList.update key fresh (group_builders st),
                    group_writers := AList.update key w' (group_writers st),
                    rows_in_current_batch := AList.update key 0 (rows_in_current_batch st) \<rparr>)))))))"

text \<open>\<^verbatim>\<open>exec_foreign_insert\<close> on an insert state: append, then flush every group that is full.\<close>

definition insert_row ::
  "convert_lib \<Rightarrow> arrow_ops \<Rightarrow> 'w parquet_lib \<Rightarrow> (nat \<Rightarrow> string \<times> string) \<Rightarrow> (partition_key list \<Rightarrow> partition_key list)
    \<Rightarrow> slot \<Rightarrow> 'w insert_state \<Rightarrow> 'w insert_state fdw_result" where
  "insert_row C A L stamp order slot st =
    and_then (append_slot C stamp slot st) (\<lambda>st1.
    let to_flush = filter (\<lambda>k. rows_of st1 k \<ge> BATCH_ROWS) (order (map fst (rows_in_current_batch st1))) in
    try_fold (flush_group C A L) to_flush st1)"

fun upload_groups ::
  "'s blob_service \<Rightarrow> convert_lib \<Rightarrow> 'w parquet_lib \<Rightarrow> (partition_key \<times> string) list \<Rightarrow> (partition_key \<times> 'w) list \<Rightarrow> 's \<Rightarrow> unit fdw_result \<times> 's" where
  "upload_groups svc C L targets [] s = (Ok (), s)"
| "upload_groups svc C L targets ((key, w) # entries) s =
    (case map_of targets key of
       None \<Rightarrow> (Err (SchemaMismatch (''no target_name registered for partition tuple key '' @ strings_debug C key)), s)
     | Some target_name \<Rightarrow>
         (case batch_writer_finish L w of
            Inl e \<Rightarrow> (Err e, s)
          | Inr bytes \<Rightarrow> st_then (writer_upload svc target_name bytes s) (\<lambda>_ s'. upload_groups svc C L targets entries s')))"

definition finalize_and_upload ::
  "'s blob_service \<Rightarrow> convert_lib \<Rightarrow> arrow_ops \<Rightarrow> 'w parquet_lib \<Rightarrow> (partition_key list \<Rightarrow> partition_key list) \<Rightarrow> 'w insert_state \<Rightarrow> 's
    \<Rightarrow> unit fdw_result \<times> 's" where
  "finalize_and_upload svc C A L order st s =
    (case try_fold (\<lambda>k st. if rows_of st k > 0 then flush_group C A L k st else Ok st) (order (map fst (group_builders st))) st of
       Inl e \<Rightarrow> (Err e, s)
     | Inr st' \<Rightarrow> upload_groups svc C L (target_names st') (sort_key fst (group_writers st')) s)"

section \<open>The rows of a group\<close>

text \<open>What is written of a slot: its storage columns with their types, the cell of each.\<close>

definition storage_pairs :: "nat list \<Rightarrow> slot \<Rightarrow> nat \<Rightarrow> nat list \<Rightarrow> (nat \<times> pg_datum option) list" where
  "storage_pairs part slot i oids = map (\<lambda>(j, oid). (oid, slot ! j)) (filter (\<lambda>(j, oid). j \<notin> set part) (enumerate i oids))"

definition written_cell :: "nat \<times> pg_datum option \<Rightarrow> cell option" where
  "written_cell p =
    (case p of
       (oid, None) \<Rightarrow> None
     | (oid, Some d) \<Rightarrow>
         if oid = TEXTOID \<or> oid = VARCHAROID then map_option (\<lambda>s. CStr (from_utf8_lossy (c_string s))) (varlena d)
         else datum_cell oid d)"

definition slot_row :: "'w insert_state \<Rightarrow> slot \<Rightarrow> row" where
  "slot_row st slot = map written_cell (storage_pairs (partition_attnums st) slot 0 (ins_oids st))"

text \<open>The types the write path can append; a text datum has its text.\<close>

definition writable :: "nat \<times> pg_datum option \<Rightarrow> bool" where
  "writable p =
    (case p of
       (oid, None) \<Rightarrow> True
     | (oid, Some d) \<Rightarrow> oid \<in> set [BOOLOID, INT2OID, INT4OID, INT8OID, FLOAT4OID, FLOAT8OID]
         \<or> (oid = TEXTOID \<or> oid = VARCHAROID) \<and> varlena d \<noteq> None)"

text \<open>The abstraction: what the writer of a group holds, then what its builders hold.\<close>

definition builder_rows :: "builders \<Rightarrow> row list" where
  "builder_rows b = map (\<lambda>i. map (\<lambda>c. cells c ! i) (rb_cols b)) [0..<builders_len b]"

definition group_rows :: "('w \<Rightarrow> row list) \<Rightarrow> 'w insert_state \<Rightarrow> partition_key \<Rightarrow> row list" where
  "group_rows held st key =
    (case map_of (group_writers st) key of None \<Rightarrow> [] | Some w \<Rightarrow> held w)
    @ (case map_of (group_builders st) key of None \<Rightarrow> [] | Some b \<Rightarrow> builder_rows b)"

lemma make_builder_ok:
  assumes "pg_oid_to_arrow_type oid = Ok dt" "decimal_check C 38 9 = Inr ()"
  shows "make_builder C dt = Ok \<lparr> data_type_of = dt, cells = [] \<rparr>"
  using assms by (auto simp: pg_oid_to_arrow_type_def make_builder_def builder_of_def split: if_splits)

lemma builder_of_oid:
  assumes "pg_oid_to_arrow_type oid = Ok dt"
  shows "builder_of dt \<in> Some ` set [''BooleanBuilder'', ''Int16Builder'', ''Int32Builder'', ''Int64Builder'',
    ''Float32Builder'', ''Float64Builder'', ''StringBuilder'', ''BinaryBuilder'', ''Date32Builder'',
    ''TimestampMicrosecondBuilder'', ''Decimal128Builder'']"
  using assms by (auto simp: pg_oid_to_arrow_type_def builder_of_def split: if_splits)

lemma append_one_ok:
  assumes "pg_oid_to_arrow_type oid = Ok (data_type_of (rb_cols b ! col))" "col < length (rb_cols b)" "writable (oid, d)"
  shows "append_one C col oid d b = Ok (push_cell col (written_cell (oid, d)) (rb_cols b ! col) b)"
proof (cases d)
  case None
  have "builder_of (data_type_of (rb_cols b ! col)) \<in> Some ` set [''BooleanBuilder'', ''Int16Builder'', ''Int32Builder'',
          ''Int64Builder'', ''Float32Builder'', ''Float64Builder'', ''StringBuilder'', ''BinaryBuilder'',
          ''Date32Builder'', ''TimestampMicrosecondBuilder'', ''Decimal128Builder'']"
    using assms(1) by (rule builder_of_oid)
  then show ?thesis using None assms(2) by (simp add: append_one_def append_null_def written_cell_def)
next
  case (Some x)
  note defs = append_bool_def append_i16_def append_i32_def append_i64_def append_f32_def append_f64_def append_str_def
    append_typed_def typed_builder_def
  have "oid \<in> set [BOOLOID, INT2OID, INT4OID, INT8OID, FLOAT4OID, FLOAT8OID, TEXTOID, VARCHAROID]"
    using assms(3) Some by (auto simp: writable_def)
  then consider (c0) "oid = BOOLOID" | (c1) "oid = INT2OID" | (c2) "oid = INT4OID" | (c3) "oid = INT8OID" | (c4) "oid = FLOAT4OID" | (c5) "oid = FLOAT8OID"
    | (textual) "oid = TEXTOID \<or> oid = VARCHAROID" by auto
  then show ?thesis
  proof cases
    case c0
    have "data_type_of (rb_cols b ! col) = Boolean" using assms(1) c0 by (simp add: pg_oid_to_arrow_type_def oid_defs)
    then show ?thesis using c0 assms(2) Some
      by (simp add: append_one_def written_cell_def datum_cell_def defs builder_of_def oid_defs)
  next
    case c1
    have "data_type_of (rb_cols b ! col) = Int16" using assms(1) c1 by (simp add: pg_oid_to_arrow_type_def oid_defs)
    then show ?thesis using c1 assms(2) Some
      by (simp add: append_one_def written_cell_def datum_cell_def defs builder_of_def oid_defs)
  next
    case c2
    have "data_type_of (rb_cols b ! col) = Int32" using assms(1) c2 by (simp add: pg_oid_to_arrow_type_def oid_defs)
    then show ?thesis using c2 assms(2) Some
      by (simp add: append_one_def written_cell_def datum_cell_def defs builder_of_def oid_defs)
  next
    case c3
    have "data_type_of (rb_cols b ! col) = Int64" using assms(1) c3 by (simp add: pg_oid_to_arrow_type_def oid_defs)
    then show ?thesis using c3 assms(2) Some
      by (simp add: append_one_def written_cell_def datum_cell_def defs builder_of_def oid_defs)
  next
    case c4
    have "data_type_of (rb_cols b ! col) = Float32" using assms(1) c4 by (simp add: pg_oid_to_arrow_type_def oid_defs)
    then show ?thesis using c4 assms(2) Some
      by (simp add: append_one_def written_cell_def datum_cell_def defs builder_of_def oid_defs)
  next
    case c5
    have "data_type_of (rb_cols b ! col) = Float64" using assms(1) c5 by (simp add: pg_oid_to_arrow_type_def oid_defs)
    then show ?thesis using c5 assms(2) Some
      by (simp add: append_one_def written_cell_def datum_cell_def defs builder_of_def oid_defs)
  next
    case textual
    then obtain s where s: "varlena x = Some s" using assms(3) Some by (auto simp: writable_def oid_defs)
    have t: "data_type_of (rb_cols b ! col) = Utf8" using assms(1) textual by (auto simp: pg_oid_to_arrow_type_def oid_defs)
    show ?thesis using textual s t assms(2) Some
      by (auto simp: append_one_def text_datum_to_str_def written_cell_def defs builder_of_def oid_defs)
  qed
qed

text \<open>The walk over the slot is the walk over its storage columns.\<close>

fun append_pairs :: "convert_lib \<Rightarrow> nat \<Rightarrow> (nat \<times> pg_datum option) list \<Rightarrow> builders \<Rightarrow> builders fdw_result" where
  "append_pairs C col [] b = Ok b"
| "append_pairs C col ((oid, d) # ps) b = and_then (append_one C col oid d b) (append_pairs C (col + 1) ps)"

lemma append_columns_pairs: "append_columns C part slot i col oids b = append_pairs C col (storage_pairs part slot i oids) b"
proof (induction oids arbitrary: i col b)
  case (Cons oid oids)
  then have "append_columns C part slot (i + 1) (col + 1) oids = append_pairs C (col + 1) (storage_pairs part slot (i + 1) oids)"
    by (intro ext) simp
  then show ?case using Cons.IH by (simp add: storage_pairs_def)
qed (simp add: storage_pairs_def)

definition push_row :: "arrow_array list \<Rightarrow> row \<Rightarrow> arrow_array list" where
  "push_row cols r = map2 (\<lambda>a v. a \<lparr> cells := cells a @ [v] \<rparr>) cols r"

lemma append_pairs_ok:
  assumes "col + length ps = length (rb_cols b)" "list_all writable ps"
    "list_all2 (\<lambda>p a. pg_oid_to_arrow_type (fst p) = Ok (data_type_of a)) ps (drop col (rb_cols b))"
  shows "append_pairs C col ps b = Ok (b \<lparr> rb_cols := take col (rb_cols b) @ push_row (drop col (rb_cols b)) (map written_cell ps) \<rparr>)"
  using assms
proof (induction ps arbitrary: col b)
  case Nil
  then show ?case by (simp add: push_row_def)
next
  case (Cons p ps)
  obtain oid d where p: "p = (oid, d)" by (cases p)
  have col: "col < length (rb_cols b)" using Cons.prems(1) by simp
  have dr: "drop col (rb_cols b) = rb_cols b ! col # drop (col + 1) (rb_cols b)" using col by (simp add: Cons_nth_drop_Suc)
  have one: "append_one C col oid d b = Ok (push_cell col (written_cell (oid, d)) (rb_cols b ! col) b)"
    using Cons.prems(2,3) p col dr by (intro append_one_ok) auto
  let ?b = "push_cell col (written_cell (oid, d)) (rb_cols b ! col) b"
  have b: "rb_cols ?b = (rb_cols b)[col := (rb_cols b ! col) \<lparr> cells := cells (rb_cols b ! col) @ [written_cell (oid, d)] \<rparr>]"
    by (simp add: push_cell_def)
  have d: "drop (col + 1) (rb_cols ?b) = drop (col + 1) (rb_cols b)" unfolding b by simp
  have t: "take (col + 1) (rb_cols ?b) = take col (rb_cols b) @ [(rb_cols b ! col) \<lparr> cells := cells (rb_cols b ! col) @ [written_cell (oid, d)] \<rparr>]"
    unfolding b using col by (simp add: take_Suc_conv_app_nth)
  have "append_pairs C (col + 1) ps ?b = Ok (?b \<lparr> rb_cols := take (col + 1) (rb_cols ?b) @ push_row (drop (col + 1) (rb_cols ?b)) (map written_cell ps) \<rparr>)"
    using Cons.prems dr d by (intro Cons.IH) (simp_all add: b)
  then show ?case using one p unfolding t d dr by (simp add: push_row_def push_cell_def)
qed

text \<open>Well-formed builders of \<open>n\<close> rows: what \<^verbatim>\<open>RecordBatch::try_new\<close> will accept.\<close>

definition wf_builders :: "schema \<Rightarrow> nat \<Rightarrow> builders \<Rightarrow> bool" where
  "wf_builders sch n b \<longleftrightarrow> rb_schema b = sch \<and> fits_schema sch (rb_cols b) n"

definition row_fits :: "schema \<Rightarrow> row \<Rightarrow> bool" where
  "row_fits sch r \<longleftrightarrow> list_all2 (\<lambda>f v. nullable f \<or> v \<noteq> None) sch r"

lemma wf_builders_len: "wf_builders sch n b \<Longrightarrow> builders_len b = n"
  by (cases "rb_cols b") (auto simp: wf_builders_def fits_schema_def builders_len_def)

lemma push_row_nth:
  "j < length cols \<Longrightarrow> length r = length cols \<Longrightarrow> push_row cols r ! j = (cols ! j) \<lparr> cells := cells (cols ! j) @ [r ! j] \<rparr>"
  by (simp add: push_row_def)

lemma length_push_row: "length r = length cols \<Longrightarrow> length (push_row cols r) = length cols"
  by (simp add: push_row_def)

lemma fits_schema_push:
  assumes "fits_schema sch cols n" "row_fits sch r"
  shows "fits_schema sch (push_row cols r) (n + 1)"
proof -
  have l: "length r = length cols" "length cols = length sch"
    using assms by (auto simp: row_fits_def fits_schema_def list_all2_lengthD)
  have "array_len (push_row cols r ! j) = n + 1" if "j < length cols" for j
    using assms(1) that l by (simp add: push_row_nth fits_schema_def list_all_length array_len_def)
  moreover have "data_type_of (push_row cols r ! j) = field_type (sch ! j) \<and> (nullable (sch ! j) \<or> None \<notin> set (cells (push_row cols r ! j)))"
    if "j < length cols" for j
    using assms that l by (auto simp: push_row_nth fits_schema_def row_fits_def list_all2_conv_all_nth)
  moreover have "push_row cols r \<noteq> []"
    using assms(1) length_push_row[OF l(1)] by (auto simp: fits_schema_def)
  ultimately show ?thesis using l length_push_row[OF l(1)]
    by (simp add: fits_schema_def list_all_length list_all2_conv_all_nth)
qed

lemma builder_rows_push:
  assumes "wf_builders sch n b" "row_fits sch r"
  shows "builder_rows (b \<lparr> rb_cols := push_row (rb_cols b) r \<rparr>) = builder_rows b @ [r]"
proof -
  have l: "length r = length (rb_cols b)"
    using assms by (auto simp: row_fits_def wf_builders_def fits_schema_def list_all2_lengthD)
  have w': "wf_builders sch (n + 1) (b \<lparr> rb_cols := push_row (rb_cols b) r \<rparr>)"
    using assms fits_schema_push by (simp add: wf_builders_def)
  have n: "length (cells (rb_cols b ! j)) = n" if "j < length (rb_cols b)" for j
    using assms(1) that by (simp add: wf_builders_def fits_schema_def list_all_length array_len_def)
  have "map (\<lambda>c. cells c ! i) (push_row (rb_cols b) r) = map (\<lambda>c. cells c ! i) (rb_cols b)" if "i < n" for i
    using l n that by (intro nth_equalityI) (simp_all add: length_push_row push_row_nth nth_append)
  moreover have "map (\<lambda>c. cells c ! n) (push_row (rb_cols b) r) = r"
    using l n by (intro nth_equalityI) (simp_all add: length_push_row push_row_nth nth_append)
  ultimately show ?thesis
    by (simp add: builder_rows_def wf_builders_len[OF w'] wf_builders_len[OF assms(1)])
qed

lemma check_lengths_ok: "list_all (\<lambda>a. array_len a = n) as \<Longrightarrow> check_lengths n i as = Ok ()"
  by (induction as arbitrary: i) simp_all

context arrow_compute
begin

lemma builders_finish_ok:
  assumes "wf_builders sch n b"
  shows "\<exists>batch. builders_finish A b = Ok batch \<and> wf_batch batch \<and> batch_schema batch = sch \<and> batch_rows batch = builder_rows b"
proof -
  have f: "fits_schema sch (rb_cols b) n" "rb_schema b = sch" using assms by (simp_all add: wf_builders_def)
  obtain c cs where c: "rb_cols b = c # cs" using f(1) by (cases "rb_cols b") (auto simp: fits_schema_def)
  have "check_lengths (array_len c) 1 cs = Ok ()" using f(1) c by (intro check_lengths_ok) (simp add: fits_schema_def)
  then have "builders_finish A b = Ok \<lparr> batch_schema = sch, columns = rb_cols b, num_rows = n \<rparr>"
    using try_new[OF f(1)] f(2) c by (simp add: builders_finish_def)
  then show ?thesis using f(1) wf_builders_len[OF assms] by (simp add: wf_batch_def batch_rows_def builder_rows_def)
qed

end

section \<open>The invariant of the statement\<close>

text \<open>What the table fixes of a state, and a state whose schema is that of its storage columns.\<close>

definition table_of :: "'w insert_state \<Rightarrow> schema \<times> nat list \<times> compression \<times> nat list \<times> partition_decl \<times> string \<times> string option" where
  "table_of st = (ins_schema st, ins_oids st, ins_compression st, partition_attnums st, partition_keys_decl st, base_prefix st,
     legacy_single_target st)"

definition storage_oids :: "nat list \<Rightarrow> nat list \<Rightarrow> nat list" where
  "storage_oids part oids = map snd (filter (\<lambda>(j, oid). j \<notin> set part) (enumerate 0 oids))"

definition schema_ok :: "'w insert_state \<Rightarrow> bool" where
  "schema_ok st \<longleftrightarrow> ins_schema st \<noteq> []
    \<and> list_all2 (\<lambda>oid f. pg_oid_to_arrow_type oid = Ok (field_type f)) (storage_oids (partition_attnums st) (ins_oids st)) (ins_schema st)"

definition buffers_ok :: "'w insert_state \<Rightarrow> bool" where
  "buffers_ok st \<longleftrightarrow> schema_ok st
    \<and> (\<forall>key. map_of (group_builders st) key = None \<longrightarrow> rows_of st key = 0)
    \<and> (\<forall>key b. map_of (group_builders st) key = Some b \<longrightarrow> wf_builders (ins_schema st) (rows_of st key) b)"

definition writers_ok :: "('w \<Rightarrow> row list) \<Rightarrow> 'w insert_state \<Rightarrow> bool" where
  "writers_ok held st \<longleftrightarrow> distinct (map fst (group_writers st))
    \<and> (\<forall>key w. map_of (group_writers st) key = Some w \<longrightarrow> held w \<noteq> [])"

text \<open>The name of a group's blob: the literal of a table without partitions, or a generated one.\<close>

definition target_name_of :: "(nat \<Rightarrow> string \<times> string) \<Rightarrow> 'w insert_state \<Rightarrow> partition_key \<Rightarrow> string \<Rightarrow> bool" where
  "target_name_of stamp st key t \<longleftrightarrow>
    (if key = [] \<and> legacy_single_target st \<noteq> None then legacy_single_target st = Some t
     else \<exists>i < names_used st. t = generate_blob_name (fst (stamp i)) (snd (stamp i))
       (partition_path (partition_keys_decl st) 0 key (base_prefix st)))"

definition targets_ok :: "(nat \<Rightarrow> string \<times> string) \<Rightarrow> 'w insert_state \<Rightarrow> bool" where
  "targets_ok stamp st \<longleftrightarrow> distinct (map fst (target_names st)) \<and> distinct (map snd (target_names st))
    \<and> names_used st \<le> length (target_names st)
    \<and> (\<forall>(key, t) \<in> set (target_names st). length key = length (partition_attnums st) \<and> target_name_of stamp st key t)"

text \<open>The state after \<open>n\<close> rows.\<close>

definition insert_inv :: "(nat \<Rightarrow> string \<times> string) \<Rightarrow> ('w \<Rightarrow> row list) \<Rightarrow> nat \<Rightarrow> 'w insert_state \<Rightarrow> bool" where
  "insert_inv stamp held n st \<longleftrightarrow> buffers_ok st \<and> writers_ok held st \<and> targets_ok stamp st
    \<and> length (target_names st) \<le> n
    \<and> (\<forall>key. length (group_rows held st key) \<le> n \<and> (group_rows held st key \<noteq> [] \<longrightarrow> map_of (target_names st) key \<noteq> None))"

definition stamps_fresh :: "(nat \<Rightarrow> string \<times> string) \<Rightarrow> nat \<Rightarrow> bool" where
  "stamps_fresh stamp n \<longleftrightarrow> inj_on (snd \<circ> stamp) {0..<n} \<and> (\<forall>i < n. \<forall>j < n. length (snd (stamp i)) = length (snd (stamp j)))"

lemma storage_oids_pairs: "map fst (storage_pairs part slot 0 oids) = storage_oids part oids"
  by (auto simp: storage_pairs_def storage_oids_def)

lemma generated_name_inject:
  assumes "generate_blob_name ts u p = generate_blob_name ts' u' p'" "length u = length u'"
  shows "u = u'"
proof -
  have "\<exists>a. generate_blob_name ts u p = a @ u @ ''.parquet''" for ts u p
    by (simp add: generate_blob_name_def Let_def)
  then obtain a b where "a @ u @ ''.parquet'' = b @ u' @ ''.parquet''" using assms(1) by metis
  then have "a @ u = b @ u'" by (metis append.assoc append_same_eq)
  then show ?thesis using assms(2) by (simp add: append_eq_append_conv)
qed

lemma builders_new_ok:
  assumes "schema_ok st" "decimal_check C 38 9 = Inr ()"
  obtains b where "builders_new C (ins_schema st) = Ok b" "wf_builders (ins_schema st) 0 b" "builder_rows b = []"
proof -
  define sch where "sch = ins_schema st"
  define cols where "cols = map (\<lambda>f. \<lparr> data_type_of = field_type f, cells = [] \<rparr>) sch"
  have "make_builder C (field_type f) = Ok \<lparr> data_type_of = field_type f, cells = [] \<rparr>" if f: "f \<in> set sch" for f
  proof -
    obtain oid where "pg_oid_to_arrow_type oid = Ok (field_type f)"
      using assms(1) f by (auto simp: schema_ok_def list_all2_conv_all_nth sch_def in_set_conv_nth)
    then show ?thesis using assms(2) by (rule make_builder_ok)
  qed
  then have "try_map (\<lambda>f. make_builder C (field_type f)) sch = Ok cols"
    by (simp add: try_map_Inr_iff cols_def list_all2_conv_all_nth)
  moreover have "fits_schema sch cols 0"
    using assms(1) by (auto simp: fits_schema_def cols_def array_len_def list_all_iff list_all2_conv_all_nth schema_ok_def sch_def)
  moreover have "wf_builders sch 0 \<lparr> rb_schema = sch, rb_cols = cols \<rparr>" using calculation by (simp add: wf_builders_def)
  ultimately show ?thesis
    using that[of "\<lparr> rb_schema = sch, rb_cols = cols \<rparr>"] wf_builders_len[of sch 0 "\<lparr> rb_schema = sch, rb_cols = cols \<rparr>"]
    by (simp add: builders_new_def builder_rows_def flip: sch_def)
qed

lemma buffers_okD:
  assumes "buffers_ok st"
  shows "schema_ok st" "map_of (group_builders st) key = None \<Longrightarrow> rows_of st key = 0"
    "map_of (group_builders st) key = Some b \<Longrightarrow> wf_builders (ins_schema st) (rows_of st key) b"
  using assms by (simp_all add: buffers_ok_def)

lemma targets_ok_cong:
  "table_of st' = table_of st \<Longrightarrow> target_names st' = target_names st \<Longrightarrow> names_used st' = names_used st \<Longrightarrow>
    targets_ok stamp st' = targets_ok stamp st"
  by (simp add: targets_ok_def target_name_of_def table_of_def)

lemma writers_ok_cong: "group_writers st' = group_writers st \<Longrightarrow> writers_ok held st' = writers_ok held st"
  by (simp add: writers_ok_def)

lemma schema_ok_cong: "table_of st' = table_of st \<Longrightarrow> schema_ok st' = schema_ok st"
  by (simp add: schema_ok_def table_of_def)

lemma ensure_builders_ok:
  assumes "insert_inv stamp held n st" "decimal_check C 38 9 = Inr ()"
  obtains st' b where "ensure_builders C key st = Ok st'" "insert_inv stamp held n st'" "map_of (group_builders st') key = Some b"
    "table_of st' = table_of st" "group_rows held st' = group_rows held st"
proof (cases "map_of (group_builders st) key")
  case None
  have bo: "buffers_ok st" using assms(1) by (simp add: insert_inv_def)
  obtain b where b: "builders_new C (ins_schema st) = Ok b" "wf_builders (ins_schema st) 0 b" "builder_rows b = []"
    using builders_new_ok[OF buffers_okD(1)[OF bo] assms(2)] by blast
  define st' where "st' = st \<lparr> group_builders := AList.update key b (group_builders st) \<rparr>"
  have g: "group_rows held st' = group_rows held st"
    using None b(3) by (auto simp: group_rows_def st'_def update_conv' fun_eq_iff split: option.splits)
  have "rows_of st' = rows_of st" by (simp add: rows_of_def st'_def fun_eq_iff)
  then have "buffers_ok st'"
    using bo b(2) buffers_okD(2)[OF bo None]
    by (simp add: buffers_ok_def schema_ok_def st'_def update_conv')
  then have "insert_inv stamp held n st'"
    using assms(1) g targets_ok_cong[of st' st stamp] writers_ok_cong[of st' st held]
    by (simp add: insert_inv_def st'_def table_of_def)
  moreover have "ensure_builders C key st = Ok st'" using None b(1) by (simp add: ensure_builders_def st'_def)
  ultimately show ?thesis using that[of st' b] g by (simp add: st'_def update_conv' table_of_def)
next
  case (Some b)
  then show ?thesis using that[of st b] assms(1) by (simp add: ensure_builders_def)
qed

text \<open>The name of a new group is none of the earlier ones.\<close>

lemma new_target:
  assumes "targets_ok stamp st" "map_of (target_names st) key = None" "length key = length (partition_attnums st)"
    "stamps_fresh stamp M" "names_used st < M" "compute_target_name stamp st key = (t, used)"
  shows "t \<notin> snd ` set (target_names st)" "names_used st \<le> used" "used \<le> Suc (names_used st)"
    "target_name_of stamp (st \<lparr> names_used := used \<rparr>) key t"
proof -
  let ?i = "names_used st"
  let ?gen = "\<lambda>i k. generate_blob_name (fst (stamp i)) (snd (stamp i)) (partition_path (partition_keys_decl st) 0 k (base_prefix st))"
  have c: "(t, used) = (if key = [] \<and> legacy_single_target st \<noteq> None then (the (legacy_single_target st), ?i) else (?gen ?i key, ?i + 1))"
    using assms(6) by (auto simp: compute_target_name_def split: prod.splits option.splits if_splits)
  then show "?i \<le> used" "used \<le> Suc ?i" "target_name_of stamp (st \<lparr> names_used := used \<rparr>) key t"
    by (auto simp: target_name_of_def split: if_splits)
  have entry: "length k = length (partition_attnums st) \<and> target_name_of stamp st k u" if e: "(k, u) \<in> set (target_names st)" for k u
    using assms(1) e by (auto simp: targets_ok_def)
  have nokey: "k \<noteq> key" if e: "(k, u) \<in> set (target_names st)" for k u
    using assms(2) e by (auto simp: map_of_eq_None_iff image_iff)
  show "t \<notin> snd ` set (target_names st)"
  proof
    assume "t \<in> snd ` set (target_names st)"
    then obtain k where k: "(k, t) \<in> set (target_names st)" by auto
    have ne: "k \<noteq> []" "key \<noteq> []" using entry[OF k] nokey[OF k] assms(3) by auto
    obtain j where j: "j < ?i" "t = ?gen j k" using entry[OF k] ne by (auto simp: target_name_of_def)
    have t: "t = ?gen ?i key" using c ne by simp
    have l: "length (snd (stamp j)) = length (snd (stamp ?i))"
      using assms(4,5) j(1) unfolding stamps_fresh_def by (meson less_trans)
    have "snd (stamp j) = snd (stamp ?i)" by (rule generated_name_inject[OF trans[OF j(2)[symmetric] t] l])
    then have "j = ?i" using assms(4,5) j(1) unfolding stamps_fresh_def inj_on_def by simp
    then show False using j(1) by simp
  qed
qed

lemma update_new: "map_of xs k = None \<Longrightarrow> AList.update k v xs = xs @ [(k, v)]"
  by (induction xs) (auto split: if_splits)

lemma ensure_target_ok:
  assumes "insert_inv stamp held n st" "length key = length (partition_attnums st)" "stamps_fresh stamp M" "n < M"
  obtains st' where "ensure_target stamp key st = st'" "insert_inv stamp held (Suc n) st'" "map_of (target_names st') key \<noteq> None"
    "group_builders st' = group_builders st" "rows_in_current_batch st' = rows_in_current_batch st"
    "table_of st' = table_of st" "group_rows held st' = group_rows held st"
proof (cases "map_of (target_names st) key")
  case (Some t)
  then show ?thesis using that[of st] assms(1) by (simp add: ensure_target_def insert_inv_def le_SucI)
next
  case None
  obtain t used where c: "compute_target_name stamp st key = (t, used)" by fastforce
  define st' where "st' = st \<lparr> target_names := target_names st @ [(key, t)], names_used := used \<rparr>"
  have i: "targets_ok stamp st" "buffers_ok st" "writers_ok held st" "length (target_names st) \<le> n"
    using assms(1) by (simp_all add: insert_inv_def)
  have u: "names_used st < M" using i(1,4) assms(4) by (simp add: targets_ok_def)
  note nt = new_target[OF i(1) None assms(2,3) u c]
  have old: "target_name_of stamp st' k v" if "target_name_of stamp st k v" for k v
    using that nt(2) unfolding target_name_of_def st'_def by (auto split: if_splits dest: less_le_trans)
  have new: "target_name_of stamp st' key t" using nt(4) unfolding target_name_of_def st'_def by (simp split: if_splits)
  have tok: "targets_ok stamp st'"
    using i(1) nt(1,3) None old new assms(2)
    by (auto simp: targets_ok_def st'_def map_of_eq_None_iff split: prod.splits)
  have g: "group_rows held st' = group_rows held st" "rows_of st' = rows_of st"
    by (simp_all add: group_rows_def rows_of_def st'_def fun_eq_iff)
  have "buffers_ok st'" using i(2) g(2) schema_ok_cong[of st' st] by (simp add: buffers_ok_def st'_def table_of_def)
  moreover have "map_of (target_names st') k \<noteq> None" if "map_of (target_names st) k \<noteq> None" for k
    using that by (simp add: st'_def map_of_eq_None_iff)
  ultimately have "insert_inv stamp held (Suc n) st'"
    using assms(1) tok i(3,4) g(1) writers_ok_cong[of st' st held] by (simp add: insert_inv_def st'_def le_SucI)
  moreover have "ensure_target stamp key st = st'" using None c by (simp add: ensure_target_def st'_def update_new)
  ultimately show ?thesis using that[of st'] g(1) by (simp add: st'_def table_of_def)
qed

text \<open>Slots the statement accepts.\<close>

definition slot_fits :: "convert_lib \<Rightarrow> 'w insert_state \<Rightarrow> slot \<Rightarrow> bool" where
  "slot_fits C st slot \<longleftrightarrow> is_ok (slot_key C st slot) \<and> row_fits (ins_schema st) (slot_row st slot)
    \<and> list_all writable (storage_pairs (partition_attnums st) slot 0 (ins_oids st))"

lemma table_of_slot:
  assumes "table_of st' = table_of st"
  shows "slot_fits C st' = slot_fits C st" "slot_key C st' = slot_key C st" "slot_row st' = slot_row st"
    "partition_attnums st' = partition_attnums st" "ins_oids st' = ins_oids st" "ins_schema st' = ins_schema st"
  using assms by (simp_all add: table_of_def slot_fits_def slot_key_def slot_row_def fun_eq_iff)

lemma append_columns_row:
  assumes "wf_builders (ins_schema st) n b" "schema_ok st" "slot_fits C st slot"
  shows "append_columns C (partition_attnums st) slot 0 0 (ins_oids st) b = Ok (b \<lparr> rb_cols := push_row (rb_cols b) (slot_row st slot) \<rparr>)"
proof -
  let ?ps = "storage_pairs (partition_attnums st) slot 0 (ins_oids st)"
  have ty: "list_all2 (\<lambda>f a. data_type_of a = field_type f) (ins_schema st) (rb_cols b)"
    using assms(1) by (auto simp: wf_builders_def fits_schema_def elim: list_all2_mono)
  have "list_all2 (\<lambda>oid f. pg_oid_to_arrow_type oid = Ok (field_type f)) (map fst ?ps) (ins_schema st)"
    using assms(2) by (simp add: schema_ok_def storage_oids_pairs)
  then have "list_all2 (\<lambda>p a. pg_oid_to_arrow_type (fst p) = Ok (data_type_of a)) ?ps (rb_cols b)"
    using ty by (auto simp: list_all2_conv_all_nth)
  then show ?thesis
    using assms(3) append_pairs_ok[of 0 ?ps b C]
    by (simp add: append_columns_pairs slot_fits_def slot_row_def list_all2_lengthD)
qed

text \<open>Appending a row adds it to the rows of its group, and to no other.\<close>

lemma append_slot_ok:
  assumes "insert_inv stamp held n st" "decimal_check C 38 9 = Inr ()" "slot_fits C st slot" "slot_key C st slot = Ok key"
    "stamps_fresh stamp M" "n < M"
  obtains st' where "append_slot C stamp slot st = Ok st'" "insert_inv stamp held (Suc n) st'" "table_of st' = table_of st"
    "group_rows held st' = (group_rows held st)(key := group_rows held st key @ [slot_row st slot])"
proof -
  have len: "length key = length (partition_attnums st)"
    using assms(4) by (auto simp: slot_key_def try_map_Inr_iff list_all2_lengthD)
  obtain st1 b where st1: "ensure_builders C key st = Ok st1" "insert_inv stamp held n st1" "map_of (group_builders st1) key = Some b"
    "table_of st1 = table_of st" "group_rows held st1 = group_rows held st"
    using ensure_builders_ok[OF assms(1,2)] by blast
  have len1: "length key = length (partition_attnums st1)" using len table_of_slot(4)[OF st1(4)] by simp
  obtain st2 where st2: "ensure_target stamp key st1 = st2" "insert_inv stamp held (Suc n) st2" "map_of (target_names st2) key \<noteq> None"
    "group_builders st2 = group_builders st1" "rows_in_current_batch st2 = rows_in_current_batch st1"
    "table_of st2 = table_of st1" "group_rows held st2 = group_rows held st1"
    using ensure_target_ok[OF st1(2) len1 assms(5,6)] by blast
  note tab = trans[OF st2(6) st1(4)]
  have bo: "buffers_ok st2" using st2(2) by (simp add: insert_inv_def)
  have b: "map_of (group_builders st2) key = Some b" using st2(4) st1(3) by simp
  have wf: "wf_builders (ins_schema st2) (rows_of st2 key) b" by (rule buffers_okD(3)[OF bo b])
  have fits: "slot_fits C st2 slot" using assms(3) table_of_slot(1)[OF tab] by simp
  define r where "r = slot_row st slot"
  define b' where "b' = b \<lparr> rb_cols := push_row (rb_cols b) r \<rparr>"
  have r: "slot_row st2 slot = r" using table_of_slot(3)[OF tab] by (simp add: r_def)
  have app: "append_columns C (partition_attnums st2) slot 0 0 (ins_oids st2) b = Ok b'"
    using append_columns_row[OF wf buffers_okD(1)[OF bo] fits] r by (simp add: b'_def)
  have rf: "row_fits (ins_schema st2) r" using fits r by (simp add: slot_fits_def)
  have wf': "wf_builders (ins_schema st2) (rows_of st2 key + 1) b'"
    using wf fits_schema_push[OF _ rf] by (simp add: wf_builders_def b'_def)
  define st3 where "st3 = st2 \<lparr> group_builders := AList.update key b' (group_builders st2),
      rows_in_current_batch := AList.update key (rows_of st2 key + 1) (rows_in_current_batch st2) \<rparr>"
  have t3: "table_of st3 = table_of st2" by (simp add: st3_def table_of_def)
  have rows3: "rows_of st3 = (rows_of st2)(key := rows_of st2 key + 1)"
    by (simp add: rows_of_def st3_def update_conv' fun_eq_iff)
  have br: "builder_rows b' = builder_rows b @ [r]" unfolding b'_def by (rule builder_rows_push[OF wf rf])
  have g3: "group_rows held st3 = (group_rows held st2)(key := group_rows held st2 key @ [r])"
    using b br by (simp add: group_rows_def st3_def update_conv' fun_eq_iff split: option.splits)
  have "buffers_ok st3" using bo wf' rows3 schema_ok_cong[OF t3] table_of_slot(6)[OF t3]
    by (simp add: buffers_ok_def st3_def update_conv')
  moreover have "length (group_rows held st2 key) \<le> n" using st1(2,5) st2(7) by (simp add: insert_inv_def)
  ultimately have "insert_inv stamp held (Suc n) st3"
    using st2(2,3) g3 targets_ok_cong[OF t3, of stamp] writers_ok_cong[of st3 st2 held]
    by (simp add: insert_inv_def st3_def)
  moreover have "append_slot C stamp slot st = Ok st3"
    using assms(4) st1(1) st2(1) b app by (simp add: append_slot_def Let_def st3_def)
  ultimately show ?thesis using that[of st3] t3 tab g3 st2(7) st1(5) by (simp add: r_def)
qed

section \<open>Flushing keeps the rows of every group\<close>

text \<open>A parquet crate that takes every batch of good rows and needs at most \<open>k0\<close> bytes, and \<open>k1\<close> for
  every row.\<close>

definition parquet_accepts :: "'w parquet_lib \<Rightarrow> ('w \<Rightarrow> row list) \<Rightarrow> nat \<Rightarrow> nat \<Rightarrow> (row \<Rightarrow> bool) \<Rightarrow> bool" where
  "parquet_accepts L held k0 k1 good \<longleftrightarrow>
    (\<forall>sch c. \<exists>w. pw_new L sch c = Inr w)
    \<and> (\<forall>b w. wf_batch b \<and> (\<forall>r \<in> set (batch_rows b). good r) \<longrightarrow> (\<exists>w'. pw_write L b w = Inr w'))
    \<and> (\<forall>w. pw_bytes_written L w \<le> k0 + k1 * length (held w))
    \<and> (\<forall>w. \<exists>f. pw_finish L w = Inr f \<and> length f \<le> k0 + k1 * length (held w))"

context arrow_compute
begin

lemma flush_group_ok:
  assumes "insert_inv stamp held n st" "decimal_check C 38 9 = Inr ()" "parquet_accepts L held k0 k1 good" "parquet_writes L held"
    "\<forall>r \<in> set (group_rows held st key). good r" "k0 + k1 * n \<le> MAX_BLOB_BYTES"
  shows "\<exists>st'. flush_group C A L key st = Ok st' \<and> insert_inv stamp held n st' \<and> table_of st' = table_of st
    \<and> group_rows held st' = group_rows held st \<and> target_names st' = target_names st
    \<and> rows_of st' = (rows_of st)(key := 0) \<and> fst ` set (group_builders st') = fst ` set (group_builders st)"
proof (cases "rows_of st key = 0")
  case True
  then show ?thesis using assms(1) by (auto simp: flush_group_def)
next
  case False
  have bo: "buffers_ok st" and wo: "writers_ok held st" using assms(1) by (simp_all add: insert_inv_def)
  obtain b where b: "map_of (group_builders st) key = Some b"
    using False buffers_okD(2)[OF bo] by (cases "map_of (group_builders st) key") auto
  obtain fresh where fr: "builders_new C (ins_schema st) = Ok fresh" "wf_builders (ins_schema st) 0 fresh" "builder_rows fresh = []"
    using builders_new_ok[OF buffers_okD(1)[OF bo] assms(2)] by blast
  have wf: "wf_builders (ins_schema st) (rows_of st key) b" by (rule buffers_okD(3)[OF bo b])
  obtain batch where batch: "builders_finish A b = Ok batch" "wf_batch batch" "batch_rows batch = builder_rows b"
    using builders_finish_ok[OF wf] by blast
  define prev where "prev = (case map_of (group_writers st) key of None \<Rightarrow> [] | Some w \<Rightarrow> held w)"
  obtain w where w: "(case map_of (group_writers st) key of Some w \<Rightarrow> Ok w
      | None \<Rightarrow> batch_writer_new L (ins_schema st) (ins_compression st)) = Ok w" "held w = prev"
  proof (cases "map_of (group_writers st) key")
    case None
    obtain w where "pw_new L (ins_schema st) (to_pq (gzip_default L) (zstd_default L) (ins_compression st)) = Inr w"
      using assms(3) unfolding parquet_accepts_def by blast
    then show ?thesis using None assms(4) that by (simp add: batch_writer_new_def prev_def parquet_writes_def)
  next
    case (Some w)
    then show ?thesis using that by (simp add: prev_def)
  qed
  have gr: "group_rows held st key = prev @ builder_rows b" using b by (simp add: group_rows_def prev_def)
  have good: "\<forall>r \<in> set (batch_rows batch). good r" using assms(5) batch(3) gr by simp
  obtain w' where w': "pw_write L batch w = Inr w'"
    using assms(3) batch(2) good unfolding parquet_accepts_def by blast
  have h: "held w' = prev @ builder_rows b" using assms(4) w' w(2) batch(3) by (simp add: parquet_writes_def)
  have "builder_rows b \<noteq> []" using False wf_builders_len[OF wf] by (simp add: builder_rows_def)
  then have hne: "held w' \<noteq> []" using h by simp
  have le: "length (held w') \<le> n" using assms(1) unfolding h gr[symmetric] by (simp add: insert_inv_def)
  have "pw_bytes_written L w' \<le> k0 + k1 * length (held w')" using assms(3) by (simp add: parquet_accepts_def)
  also have "\<dots> \<le> k0 + k1 * n" using le by simp
  finally have small: "\<not> MAX_BLOB_BYTES < pw_bytes_written L w'" using assms(6) by simp
  define st' where "st' = st \<lparr> group_builders := AList.update key fresh (group_builders st),
      group_writers := AList.update key w' (group_writers st), rows_in_current_batch := AList.update key 0 (rows_in_current_batch st) \<rparr>"
  have step: "flush_group C A L key st = Ok st'"
    using False fr(1) b batch(1) w(1) w' small
    by (simp add: flush_group_def batch_writer_write_def batch_writer_bytes_written_def st'_def)
  have t: "table_of st' = table_of st" by (simp add: st'_def table_of_def)
  have g: "group_rows held st' = group_rows held st"
    using h gr fr(3) by (auto simp: group_rows_def st'_def update_conv' fun_eq_iff)
  have rows: "rows_of st' = (rows_of st)(key := 0)" by (simp add: rows_of_def st'_def update_conv' fun_eq_iff)
  have "buffers_ok st'" using bo fr(2) rows schema_ok_cong[OF t] by (simp add: buffers_ok_def st'_def update_conv')
  moreover have "writers_ok held st'" using wo hne by (simp add: writers_ok_def st'_def update_conv' distinct_update)
  ultimately have "insert_inv stamp held n st'"
    using assms(1) g targets_ok_cong[OF t, of stamp] by (simp add: insert_inv_def st'_def)
  moreover have "fst ` set (group_builders st') = fst ` set (group_builders st)"
    using b by (simp add: st'_def dom_update) (metis insert_absorb map_of_SomeD image_eqI fst_conv)
  ultimately show ?thesis using step t g rows by (intro exI[of _ st']) (simp add: st'_def)
qed

end

text \<open>The specification: the rows of a group are the inserted rows with its partition values, in order.\<close>

definition insert_spec :: "convert_lib \<Rightarrow> 'w insert_state \<Rightarrow> slot list \<Rightarrow> partition_key \<Rightarrow> row list" where
  "insert_spec C st slots key = map (slot_row st) (filter (\<lambda>slot. slot_key C st slot = Ok key) slots)"

context arrow_compute
begin

lemma flush_all_ok:
  assumes "insert_inv stamp held n st" "decimal_check C 38 9 = Inr ()" "parquet_accepts L held k0 k1 good" "parquet_writes L held"
    "\<forall>key. \<forall>r \<in> set (group_rows held st key). good r" "k0 + k1 * n \<le> MAX_BLOB_BYTES"
  shows "\<exists>st'. try_fold (flush_group C A L) keys st = Ok st' \<and> insert_inv stamp held n st' \<and> table_of st' = table_of st
    \<and> group_rows held st' = group_rows held st \<and> target_names st' = target_names st
    \<and> rows_of st' = (\<lambda>k. if k \<in> set keys then 0 else rows_of st k)"
  using assms(1,5)
proof (induction keys arbitrary: st)
  case (Cons key keys)
  have good: "\<forall>r \<in> set (group_rows held st key). good r" using Cons.prems(2) by blast
  obtain st1 where st1: "flush_group C A L key st = Ok st1" "insert_inv stamp held n st1" "table_of st1 = table_of st"
    "group_rows held st1 = group_rows held st" "target_names st1 = target_names st" "rows_of st1 = (rows_of st)(key := 0)"
    using flush_group_ok[OF Cons.prems(1) assms(2-4) good assms(6)] by (elim exE conjE) (rule that)
  have good1: "\<forall>key. \<forall>r \<in> set (group_rows held st1 key). good r" using Cons.prems(2) st1(4) by simp
  obtain st2 where "try_fold (flush_group C A L) keys st1 = Ok st2" "insert_inv stamp held n st2" "table_of st2 = table_of st1"
    "group_rows held st2 = group_rows held st1" "target_names st2 = target_names st1"
    "rows_of st2 = (\<lambda>k. if k \<in> set keys then 0 else rows_of st1 k)"
    using Cons.IH[OF st1(2) good1] by (elim exE conjE) (rule that)
  then show ?case using st1 by (intro exI[of _ st2]) (simp add: fun_eq_iff)
qed simp

lemma insert_row_ok:
  assumes "insert_inv stamp held n st" "decimal_check C 38 9 = Inr ()" "parquet_accepts L held k0 k1 good" "parquet_writes L held"
    "\<forall>key. \<forall>r \<in> set (group_rows held st key). good r" "k0 + k1 * Suc n \<le> MAX_BLOB_BYTES"
    "slot_fits C st slot" "good (slot_row st slot)" "slot_key C st slot = Ok key" "stamps_fresh stamp M" "n < M"
  shows "\<exists>st'. insert_row C A L stamp order slot st = Ok st' \<and> insert_inv stamp held (Suc n) st' \<and> table_of st' = table_of st
    \<and> group_rows held st' = (group_rows held st)(key := group_rows held st key @ [slot_row st slot])"
proof -
  obtain st1 where st1: "append_slot C stamp slot st = Ok st1" "insert_inv stamp held (Suc n) st1" "table_of st1 = table_of st"
    "group_rows held st1 = (group_rows held st)(key := group_rows held st key @ [slot_row st slot])"
    using append_slot_ok[OF assms(1,2,7,9,10,11)] by blast
  have good: "\<forall>key. \<forall>r \<in> set (group_rows held st1 key). good r" using assms(5,8) st1(4) by simp
  show ?thesis
    using flush_all_ok[OF st1(2) assms(2-4) good assms(6), of "filter (\<lambda>k. rows_of st1 k \<ge> BATCH_ROWS) (order (map fst (rows_in_current_batch st1)))"]
      st1 by (auto simp: insert_row_def)
qed

lemma insert_rows_ok:
  assumes "insert_inv stamp held n st" "decimal_check C 38 9 = Inr ()" "parquet_accepts L held k0 k1 good" "parquet_writes L held"
    "\<forall>key. \<forall>r \<in> set (group_rows held st key). good r" "k0 + k1 * (n + length slots) \<le> MAX_BLOB_BYTES"
    "\<forall>slot \<in> set slots. slot_fits C st slot \<and> good (slot_row st slot)" "stamps_fresh stamp M" "n + length slots \<le> M"
  shows "\<exists>st'. try_fold (insert_row C A L stamp order) slots st = Ok st' \<and> insert_inv stamp held (n + length slots) st'
    \<and> table_of st' = table_of st \<and> (\<forall>key. group_rows held st' key = group_rows held st key @ insert_spec C st slots key)"
  using assms(1,5,6,7,9)
proof (induction slots arbitrary: n st)
  case Nil
  then show ?case by (simp add: insert_spec_def)
next
  case (Cons slot slots)
  obtain key where key: "slot_key C st slot = Ok key" using Cons.prems(4) by (auto simp: slot_fits_def is_ok_iff)
  have "k0 + k1 * Suc n \<le> k0 + k1 * (n + length (slot # slots))" by simp
  then have small: "k0 + k1 * Suc n \<le> MAX_BLOB_BYTES" using Cons.prems(3) by linarith
  have fits: "slot_fits C st slot" "good (slot_row st slot)" "n < M" using Cons.prems(4,5) by auto
  obtain st1 where st1: "insert_row C A L stamp order slot st = Ok st1" "insert_inv stamp held (Suc n) st1" "table_of st1 = table_of st"
    "group_rows held st1 = (group_rows held st)(key := group_rows held st key @ [slot_row st slot])"
    using insert_row_ok[OF Cons.prems(1) assms(2-4) Cons.prems(2) small fits(1,2) key assms(8) fits(3), of order] by (elim exE conjE) (rule that)
  have good1: "\<forall>key. \<forall>r \<in> set (group_rows held st1 key). good r" using Cons.prems(2) fits(2) st1(4) by simp
  note tab = table_of_slot[OF st1(3)]
  obtain st2 where st2: "try_fold (insert_row C A L stamp order) slots st1 = Ok st2" "insert_inv stamp held (Suc n + length slots) st2"
    "table_of st2 = table_of st1" "\<forall>key. group_rows held st2 key = group_rows held st1 key @ insert_spec C st1 slots key"
    using Cons.IH[OF st1(2) good1] Cons.prems(3,4,5) tab by auto
  have "insert_spec C st1 slots = insert_spec C st slots" by (simp add: insert_spec_def fun_eq_iff tab)
  then show ?case using st1 st2 key by (intro exI[of _ st2]) (simp add: insert_spec_def)
qed

end

section \<open>Uploading\<close>

lemma distinct_snd_inject: "distinct (map snd xs) \<Longrightarrow> (a, t) \<in> set xs \<Longrightarrow> (b, t) \<in> set xs \<Longrightarrow> a = b"
  by (metis eq_snd_iff distinct_map inj_onD prod.inject)

context responsive_store
begin

lemma writer_upload_answer:
  assumes "ok s" "0 < budget s" "length b \<le> MAX_BLOB_BYTES"
  shows "\<exists>e s'. writer_upload svc n b s = (Ok (), s') \<and> ok s' \<and> view s' = (view s)(n \<mapsto> (b, e)) \<and> budget s' = budget s - 1"
  using answer_upload[OF assms(1,2), of None n None b] assms(3) by (auto simp: writer_upload_def cond_holds_def)

lemma upload_groups_answer:
  assumes "ok s" "length es \<le> budget s" "distinct (map fst es)" "distinct (map snd targets)"
    "\<forall>(k, w) \<in> set es. map_of targets k \<noteq> None \<and> (\<exists>f. pw_finish L w = Inr f \<and> length f \<le> MAX_BLOB_BYTES)"
  shows "\<exists>s'. upload_groups svc C L targets es s = (Ok (), s')
    \<and> (\<forall>(k, w) \<in> set es. \<exists>e. view s' (the (map_of targets k)) = Some (projr (pw_finish L w), e))
    \<and> (\<forall>n. n \<notin> (\<lambda>(k, w). the (map_of targets k)) ` set es \<longrightarrow> view s' n = view s n)"
  using assms(1,2,3,5)
proof (induction es arbitrary: s)
  case (Cons kw es)
  obtain k w where kw: "kw = (k, w)" by (cases kw)
  obtain t f where t: "map_of targets k = Some t" "pw_finish L w = Inr f" "length f \<le> MAX_BLOB_BYTES"
    using Cons.prems(4) kw by auto
  obtain e s1 where s1: "writer_upload svc t f s = (Ok (), s1)" "ok s1" "view s1 = (view s)(t \<mapsto> (f, e))" "budget s1 = budget s - 1"
    using writer_upload_answer[OF Cons.prems(1) _ t(3), of t] Cons.prems(2) by auto
  have p: "length es \<le> budget s1" "distinct (map fst es)"
    "\<forall>(k, w) \<in> set es. map_of targets k \<noteq> None \<and> (\<exists>f. pw_finish L w = Inr f \<and> length f \<le> MAX_BLOB_BYTES)"
    using Cons.prems(2-4) s1(4) by simp_all
  obtain s2 where s2: "upload_groups svc C L targets es s1 = (Ok (), s2)"
    "\<forall>(k, w) \<in> set es. \<exists>e. view s2 (the (map_of targets k)) = Some (projr (pw_finish L w), e)"
    "\<forall>n. n \<notin> (\<lambda>(k, w). the (map_of targets k)) ` set es \<longrightarrow> view s2 n = view s1 n"
    using Cons.IH[OF s1(2) p] by (elim exE conjE) (rule that)
  have "t \<notin> (\<lambda>(k, w). the (map_of targets k)) ` set es"
  proof
    assume "t \<in> (\<lambda>(k, w). the (map_of targets k)) ` set es"
    then obtain k' w' where k': "(k', w') \<in> set es" "map_of targets k' = Some t" using Cons.prems(4) by fastforce
    then have "k' = k" using t(1) assms(4) by (metis distinct_snd_inject map_of_SomeD)
    then show False using k'(1) Cons.prems(3) kw by (force simp: image_iff)
  qed
  then have v: "view s2 t = Some (f, e)" using s2(3) s1(3) by simp
  have step: "upload_groups svc C L targets (kw # es) s = (Ok (), s2)"
    using kw t s1(1) s2(1) by (simp add: batch_writer_finish_def)
  show ?case using step v s2(2,3) s1(3) t kw by (intro exI[of _ s2]) auto
qed simp

end

lemma distinct_sort_key: "distinct (map f (sort_key g xs)) = distinct (map f xs)"
  by (metis mset_eq_imp_distinct_iff mset_map mset_sort)

lemma flush_guarded: "(\<lambda>k st. if rows_of st k > 0 then flush_group C A L k st else Ok st) = flush_group C A L"
  by (auto simp: fun_eq_iff flush_group_def)

text \<open>When no builder holds a row, the writers hold the groups.\<close>

lemma writers_hold_groups:
  assumes "insert_inv stamp held n st" "rows_of st = (\<lambda>k. 0)"
  shows "group_rows held st key = (case map_of (group_writers st) key of None \<Rightarrow> [] | Some w \<Rightarrow> held w)"
    "map_of (group_writers st) key \<noteq> None \<longleftrightarrow> group_rows held st key \<noteq> []"
    "length (group_writers st) \<le> length (target_names st)"
proof -
  have inv: "buffers_ok st" "writers_ok held st" using assms(1) by (simp_all add: insert_inv_def)
  have g: "group_rows held st key = (case map_of (group_writers st) key of None \<Rightarrow> [] | Some w \<Rightarrow> held w)" for key
  proof (cases "map_of (group_builders st) key")
    case (Some b)
    have "builder_rows b = []" using wf_builders_len[OF buffers_okD(3)[OF inv(1) Some]] assms(2) by (simp add: builder_rows_def)
    then show ?thesis using Some by (simp add: group_rows_def)
  qed (simp add: group_rows_def)
  then show "group_rows held st key = (case map_of (group_writers st) key of None \<Rightarrow> [] | Some w \<Rightarrow> held w)" .
  have w: "map_of (group_writers st) key \<noteq> None \<longleftrightarrow> group_rows held st key \<noteq> []" for key
    using inv(2) by (auto simp: g writers_ok_def split: option.splits)
  then show "map_of (group_writers st) key \<noteq> None \<longleftrightarrow> group_rows held st key \<noteq> []" .
  have "map_of (target_names st) key \<noteq> None" if "map_of (group_writers st) key \<noteq> None" for key
    using assms(1) w[of key] that by (simp add: insert_inv_def)
  then have sub: "fst ` set (group_writers st) \<subseteq> fst ` set (target_names st)"
    by (auto simp: map_of_eq_None_iff)
  have "length (group_writers st) = card (fst ` set (group_writers st))"
    using inv(2) by (simp add: writers_ok_def) (metis distinct_card length_map set_map)
  also have "\<dots> \<le> card (fst ` set (target_names st))" by (rule card_mono[OF _ sub]) simp
  also have "\<dots> \<le> length (target_names st)" by (metis card_length length_map set_map)
  finally show "length (group_writers st) \<le> length (target_names st)" .
qed

text \<open>A state just built.\<close>

definition fresh_state :: "'w insert_state \<Rightarrow> bool" where
  "fresh_state st \<longleftrightarrow> group_builders st = [] \<and> group_writers st = [] \<and> target_names st = [] \<and> rows_in_current_batch st = []
    \<and> names_used st = 0"

lemma fresh_state_inv: "fresh_state st \<Longrightarrow> schema_ok st \<Longrightarrow> insert_inv stamp held 0 st \<and> group_rows held st = (\<lambda>key. [])"
  by (simp add: fresh_state_def insert_inv_def buffers_ok_def writers_ok_def targets_ok_def group_rows_def rows_of_def fun_eq_iff)

text \<open>Every group in one blob of its own, and nothing else changed.\<close>

definition groups_stored ::
  "'w parquet_lib \<Rightarrow> (partition_key \<Rightarrow> row list) \<Rightarrow> (partition_key \<Rightarrow> string) \<Rightarrow> contents \<Rightarrow> contents \<Rightarrow> bool" where
  "groups_stored L groups target c c' \<longleftrightarrow>
    inj_on target {key. groups key \<noteq> []}
    \<and> (\<forall>key. groups key \<noteq> [] \<longrightarrow> (\<exists>f e. c' (target key) = Some (f, e) \<and> file_rows L f = Some (groups key)))
    \<and> (\<forall>n. n \<notin> target ` {key. groups key \<noteq> []} \<longrightarrow> c' n = c n)"

context responsive_store
begin

lemma upload_stores:
  assumes "insert_inv stamp held n st" "rows_of st = (\<lambda>k. 0)" "parquet_writes L held" "parquet_accepts L held k0 k1 good"
    "k0 + k1 * n \<le> MAX_BLOB_BYTES" "ok s" "n \<le> budget s"
  shows "\<exists>s'. upload_groups svc C L (target_names st) (sort_key fst (group_writers st)) s = (Ok (), s')
    \<and> groups_stored L (group_rows held st) (\<lambda>key. the (map_of (target_names st) key)) (view s) (view s')"
proof -
  let ?es = "sort_key fst (group_writers st)"
  let ?t = "\<lambda>key. the (map_of (target_names st) key)"
  note hold = writers_hold_groups[OF assms(1,2)]
  have inv: "distinct (map fst (group_writers st))" "distinct (map snd (target_names st))" "length (target_names st) \<le> n"
    using assms(1) by (auto simp: insert_inv_def writers_ok_def targets_ok_def)
  have mo: "map_of (group_writers st) k = Some w" if "(k, w) \<in> set ?es" for k w using that inv(1) by simp
  have tn: "map_of (target_names st) k \<noteq> None" if "group_rows held st k \<noteq> []" for k
    using assms(1) that by (simp add: insert_inv_def)
  have fin: "\<exists>f. pw_finish L w = Inr f \<and> length f \<le> MAX_BLOB_BYTES \<and> file_rows L f = Some (group_rows held st k)"
    if kw: "(k, w) \<in> set ?es" for k w
  proof -
    have h: "group_rows held st k = held w" using hold(1)[of k] mo[OF kw] by simp
    obtain f where f: "pw_finish L w = Inr f" "length f \<le> k0 + k1 * length (held w)"
      using assms(4) unfolding parquet_accepts_def by blast
    have "length (held w) \<le> n" using assms(1) unfolding h[symmetric] by (simp add: insert_inv_def)
    then have "k0 + k1 * length (held w) \<le> k0 + k1 * n" by simp
    then have "length f \<le> MAX_BLOB_BYTES" using f(2) assms(5) by linarith
    then show ?thesis using f(1) assms(3) h by (auto simp: parquet_writes_def)
  qed
  have pre: "length ?es \<le> budget s" "distinct (map fst ?es)"
    "\<forall>(k, w) \<in> set ?es. map_of (target_names st) k \<noteq> None \<and> (\<exists>f. pw_finish L w = Inr f \<and> length f \<le> MAX_BLOB_BYTES)"
  proof -
    show "length ?es \<le> budget s" using hold(3) inv(3) assms(7) by simp
    show "distinct (map fst ?es)" using inv(1) by (simp add: distinct_sort_key)
    show "\<forall>(k, w) \<in> set ?es. map_of (target_names st) k \<noteq> None \<and> (\<exists>f. pw_finish L w = Inr f \<and> length f \<le> MAX_BLOB_BYTES)"
      using fin tn hold(2) mo by fastforce
  qed
  obtain s' where s': "upload_groups svc C L (target_names st) ?es s = (Ok (), s')"
    "\<forall>(k, w) \<in> set ?es. \<exists>e. view s' (?t k) = Some (projr (pw_finish L w), e)"
    "\<forall>n. n \<notin> (\<lambda>(k, w). ?t k) ` set ?es \<longrightarrow> view s' n = view s n"
    using upload_groups_answer[OF assms(6) pre(1,2) inv(2) pre(3), of C] by (elim exE conjE) (rule that)
  have keys: "{key. group_rows held st key \<noteq> []} = fst ` set ?es"
  proof (intro set_eqI iffI)
    show "k \<in> fst ` set ?es" if k: "k \<in> {key. group_rows held st key \<noteq> []}" for k
    proof -
      obtain w where "map_of (group_writers st) k = Some w" using k hold(2)[of k] by auto
      then show ?thesis using map_of_SomeD[of "group_writers st" k w] by force
    qed
    show "k \<in> {key. group_rows held st key \<noteq> []}" if k: "k \<in> fst ` set ?es" for k
      using k mo hold(2)[of k] by force
  qed
  have "inj_on ?t {key. group_rows held st key \<noteq> []}"
  proof (rule inj_onI)
    fix a b assume "a \<in> {key. group_rows held st key \<noteq> []}" "b \<in> {key. group_rows held st key \<noteq> []}" "?t a = ?t b"
    then show "a = b" using tn distinct_snd_inject[OF inv(2)] map_of_SomeD by (metis (mono_tags) mem_Collect_eq option.collapse)
  qed
  moreover have "\<exists>f e. view s' (?t key) = Some (f, e) \<and> file_rows L f = Some (group_rows held st key)"
    if ne: "group_rows held st key \<noteq> []" for key
  proof -
    obtain w where w: "(key, w) \<in> set ?es" using keys ne by force
    obtain e where "view s' (?t key) = Some (projr (pw_finish L w), e)" using s'(2) w by blast
    then show ?thesis using fin[OF w] by auto
  qed
  moreover have "(\<lambda>(k, w). ?t k) ` set ?es = ?t ` {key. group_rows held st key \<noteq> []}" unfolding keys by force
  ultimately show ?thesis using s'(1,3) by (auto simp: groups_stored_def)
qed

end

text \<open>C4: the INSERT statement implements its specification.  For libraries that do what their
  documentation says and accept the data, and rows that fit the table, inserting the rows and ending the
  statement succeeds; then every group of rows with equal partition values is in a blob of its own, under
  the name computed for the group, which reads back as exactly the rows of the group in the order they
  were inserted, however the batches were cut and in whatever order the groups were walked; and no other
  blob has changed.\<close>

theorem insert_refines_groups:
  assumes "arrow_compute A" "convert_laws C" "parquet_writes L held" "parquet_accepts L held k0 k1 good"
    "responsive_store svc view ok env later budget" "ok s" "length slots \<le> budget s" "fresh_state st" "schema_ok st"
    "stamps_fresh stamp (length slots)" "\<forall>ks. set (order ks) = set ks"
    "\<forall>slot \<in> set slots. slot_fits C st slot \<and> good (slot_row st slot)" "k0 + k1 * length slots \<le> MAX_BLOB_BYTES"
  shows "\<exists>st' s' target. try_fold (insert_row C A L stamp order) slots st = Ok st'
    \<and> finalize_and_upload svc C A L order st' s = (Ok (), s')
    \<and> (\<forall>key. insert_spec C st slots key \<noteq> [] \<longrightarrow> target_name_of stamp st' key (target key))
    \<and> groups_stored L (insert_spec C st slots) target (view s) (view s')"
proof -
  let ?n = "length slots"
  have dec: "decimal_check C 38 9 = Inr ()" by (rule convert_laws.decimal_law[OF assms(2)])
  have f: "insert_inv stamp held 0 st" "group_rows held st = (\<lambda>key. [])" using fresh_state_inv[OF assms(8,9)] by auto
  obtain st1 where st1: "try_fold (insert_row C A L stamp order) slots st = Ok st1" "insert_inv stamp held ?n st1" "table_of st1 = table_of st"
    "group_rows held st1 = insert_spec C st slots"
    using arrow_compute.insert_rows_ok[OF assms(1) f(1) dec assms(4,3) _ _ assms(12,10), of order] assms(13) f(2) by (auto simp: fun_eq_iff)
  have good: "\<forall>key. \<forall>r \<in> set (group_rows held st1 key). good r" using assms(12) st1(4) by (auto simp: insert_spec_def)
  obtain st2 where st2: "try_fold (flush_group C A L) (order (map fst (group_builders st1))) st1 = Ok st2" "insert_inv stamp held ?n st2"
    "table_of st2 = table_of st1" "group_rows held st2 = group_rows held st1" "target_names st2 = target_names st1"
    "rows_of st2 = (\<lambda>k. if k \<in> set (order (map fst (group_builders st1))) then 0 else rows_of st1 k)"
    using arrow_compute.flush_all_ok[OF assms(1) st1(2) dec assms(4,3) good assms(13)] by blast
  have "buffers_ok st1" using st1(2) by (simp add: insert_inv_def)
  then have "rows_of st1 k = 0" if "k \<notin> set (map fst (group_builders st1))" for k
    using that by (simp add: buffers_ok_def map_of_eq_None_iff)
  then have z: "rows_of st2 = (\<lambda>k. 0)" using st2(6) assms(11) by (auto simp: fun_eq_iff)
  let ?t = "\<lambda>key. the (map_of (target_names st2) key)"
  obtain s' where s': "upload_groups svc C L (target_names st2) (sort_key fst (group_writers st2)) s = (Ok (), s')"
    "groups_stored L (group_rows held st2) ?t (view s) (view s')"
    using responsive_store.upload_stores[OF assms(5) st2(2) z assms(3,4,13,6,7)] by blast
  have "finalize_and_upload svc C A L order st1 s = (Ok (), s')"
    using st2(1) s'(1) by (simp add: finalize_and_upload_def flush_guarded)
  moreover have "target_name_of stamp st1 key (?t key)" if ne: "insert_spec C st slots key \<noteq> []" for key
  proof -
    obtain t where t: "map_of (target_names st1) key = Some t" using st1(2,4) ne by (auto simp: insert_inv_def)
    then have "(key, t) \<in> set (target_names st1)" by (rule map_of_SomeD)
    then have "target_name_of stamp st1 key t" using st1(2) by (auto simp: insert_inv_def targets_ok_def)
    then show ?thesis using t st2(5) by simp
  qed
  ultimately show ?thesis using st1(1,4) s'(2) st2(4) by (intro exI[of _ st1] exI[of _ s'] exI[of _ ?t]) simp
qed

text \<open>A table with a text partition column and one number to store.\<close>

definition demo_table :: "string insert_state" where
  "demo_table = \<lparr> ins_schema = example_schema, ins_oids = [TEXTOID, INT8OID], ins_compression = Snappy, partition_attnums = [0],
     partition_keys_decl = [(''region'', Text)], base_prefix = ''sales'', legacy_single_target = None, group_builders = [],
     group_writers = [], target_names = [], rows_in_current_batch = [], names_used = 0 \<rparr>"

definition demo_slot :: "string \<Rightarrow> 64 word \<Rightarrow> slot" where
  "demo_slot region n = [Some (Datum 0 (Some region) None), Some (word_datum n)]"

definition demo_stamp :: "nat \<Rightarrow> string \<times> string" where
  "demo_stamp i = (''t'', [digit_char i])"

definition byte_row :: "row \<Rightarrow> bool" where
  "byte_row r = (case r of [Some (CInt i)] \<Rightarrow> 0 \<le> i \<and> i < 256 | _ \<Rightarrow> False)"

lemma byte_lib_accepts: "parquet_accepts byte_lib byte_rows 0 1 byte_row"
  by (simp add: parquet_accepts_def byte_lib_def byte_rows_def byte_row_def list_all_iff)

lemma demo_slots_fit:
  "slot_key plain_convert demo_table (demo_slot ''eu'' n) = Ok [''eu'']" "slot_key plain_convert demo_table (demo_slot ''us'' n) = Ok [''us'']"
  "slot_row demo_table (demo_slot region n) = [Some (CInt (sint n))]"
  "list_all writable (storage_pairs (partition_attnums demo_table) (demo_slot region n) 0 (ins_oids demo_table))"
proof -
  have u: "from_utf8_lossy ''eu'' = ''eu''" "from_utf8_lossy ''us'' = ''us''" by code_simp+
  show "slot_key plain_convert demo_table (demo_slot ''eu'' n) = Ok [''eu'']" "slot_key plain_convert demo_table (demo_slot ''us'' n) = Ok [''us'']"
    by (simp_all add: slot_key_def demo_table_def demo_slot_def partition_value_def datum_to_partition_string_def oid_defs
        text_datum_to_str_def c_string_def byte_val_def u check_text_partition_def starts_with_def)
  have "storage_pairs (partition_attnums demo_table) (demo_slot region n) 0 (ins_oids demo_table) = [(INT8OID, Some (word_datum n))]"
    by (simp add: storage_pairs_def demo_table_def demo_slot_def)
  then show "slot_row demo_table (demo_slot region n) = [Some (CInt (sint n))]"
    "list_all writable (storage_pairs (partition_attnums demo_table) (demo_slot region n) 0 (ins_oids demo_table))"
    by (simp_all add: slot_row_def written_cell_def datum_cell_def oid_defs writable_def datum_to_i64_def word_datum_def)
qed

lemma demo_table_schema: "ins_schema demo_table = [\<lparr> field_name = ''id'', field_type = Int64, nullable = False \<rparr>]"
  by (simp add: demo_table_def example_schema_def)

theorem insert_refines_groups_witness:
  "\<exists>st' s' target. try_fold (insert_row plain_convert list_arrow byte_lib demo_stamp rev)
        [demo_slot ''eu'' 97, demo_slot ''us'' 98, demo_slot ''eu'' 99] demo_table = Ok st'
    \<and> finalize_and_upload (fake_service ''c'') plain_convert list_arrow byte_lib rev st' fake_new = (Ok (), s')
    \<and> (\<exists>f e. fake_view ''c'' s' (target [''eu'']) = Some (f, e) \<and> file_rows byte_lib f = Some [[Some (CInt 97)], [Some (CInt 99)]])
    \<and> (\<exists>f e. fake_view ''c'' s' (target [''us'']) = Some (f, e) \<and> file_rows byte_lib f = Some [[Some (CInt 98)]])"
proof -
  let ?slots = "[demo_slot ''eu'' 97, demo_slot ''us'' 98, demo_slot ''eu'' 99]"
  have ok: "fake_ok fake_new" "length ?slots \<le> fake_budget fake_new"
    by (simp_all add: fake_ok_def fake_new_def fake_budget_def u64_MAX_def)
  have st: "fresh_state demo_table" "schema_ok demo_table"
    by (simp_all add: fresh_state_def schema_ok_def demo_table_def example_schema_def storage_oids_def pg_oid_to_arrow_type_def oid_defs)
  have stamp: "stamps_fresh demo_stamp (length ?slots)"
    by (auto simp: stamps_fresh_def demo_stamp_def inj_on_def digit_char_def)
  have sl: "\<forall>slot \<in> set ?slots. slot_fits plain_convert demo_table slot \<and> byte_row (slot_row demo_table slot)"
    using demo_table_schema by (simp add: slot_fits_def demo_slots_fit byte_row_def row_fits_def)
  have order: "\<forall>ks :: partition_key list. set (rev ks) = set ks" and small: "0 + 1 * length ?slots \<le> MAX_BLOB_BYTES"
    by (simp_all add: MAX_BLOB_BYTES_def)
  have spec: "insert_spec plain_convert demo_table ?slots [''eu''] = [[Some (CInt 97)], [Some (CInt 99)]]"
    "insert_spec plain_convert demo_table ?slots [''us''] = [[Some (CInt 98)]]"
    by (simp_all add: insert_spec_def demo_slots_fit)
  obtain st' s' target where "try_fold (insert_row plain_convert list_arrow byte_lib demo_stamp rev) ?slots demo_table = Ok st'"
    "finalize_and_upload (fake_service ''c'') plain_convert list_arrow byte_lib rev st' fake_new = (Ok (), s')"
    "groups_stored byte_lib (insert_spec plain_convert demo_table ?slots) target (fake_view ''c'' fake_new) (fake_view ''c'' s')"
    using insert_refines_groups[OF la.arrow_compute_axioms pc.convert_laws_axioms byte_lib_writes byte_lib_accepts
        fake.responsive_store_axioms[of "''c''"] ok st stamp order sl small]
    by (elim exE conjE) (rule that)
  then show ?thesis using spec unfolding groups_stored_def by (metis list.distinct(1))
qed

section \<open>The state a table gives\<close>

lemma schema_fields_types:
  "schema_fields n atts = Ok fs \<Longrightarrow> list_all2 (\<lambda>oid f. pg_oid_to_arrow_type oid = Ok (field_type f)) (map atttypid atts) fs"
  by (induction atts arbitrary: n fs) (auto simp: result_simps Let_def)

lemma collect_attrs_Ok: "collect_attrs atts = Ok (as, oids) \<Longrightarrow> as = atts \<and> oids = map atttypid atts"
  by (induction atts arbitrary: as oids) (auto simp: result_simps split: if_splits)

lemma storage_oids_attrs: "storage_oids part (map atttypid atts) = map atttypid (storage_attrs part atts)"
proof -
  have "map snd (filter (\<lambda>(j, oid). j \<notin> set part) (enumerate i (map atttypid atts)))
      = map atttypid (map snd (filter (\<lambda>(j, a). j \<notin> set part) (enumerate i atts)))" for i
    by (induction atts arbitrary: i) auto
  then show ?thesis by (simp add: storage_oids_def storage_attrs_def)
qed

text \<open>What \<^verbatim>\<open>build_state\<close> returns is a fresh state with the schema of the storage columns.\<close>

lemma build_state_ready:
  assumes "build_state sdk cat relid tupdesc = Ok (st, client)" "ins_schema st \<noteq> []"
  shows "fresh_state st \<and> schema_ok st"
proof -
  obtain attrs oids part sch where o: "collect_attrs tupdesc = Ok (attrs, oids)"
    "pg_attrs_to_arrow_schema (storage_attrs part attrs) = Ok sch" "ins_schema st = sch" "ins_oids st = oids"
    "partition_attnums st = part" "fresh_state st"
    using assms(1) by (auto simp: build_state_def result_simps fresh_state_def Let_def case_prod_beta)
  then show ?thesis
    using assms(2) collect_attrs_Ok[OF o(1)] schema_fields_types[of 0 "storage_attrs part attrs" sch]
    by (simp add: schema_ok_def storage_oids_attrs pg_attrs_to_arrow_schema_def)
qed

section \<open>Partition values survive the path\<close>

lemma split_on_append_last: "c \<notin> set seg \<Longrightarrow> split_on c (q @ c # seg) = split_on c q @ [seg]"
proof (induction q)
  case Nil
  then show ?case by (simp add: split_on_no_sep)
next
  case (Cons x q)
  then show ?case by (cases "split_on c q") auto
qed

definition segment :: "string \<Rightarrow> string \<Rightarrow> string" where
  "segment name value = name @ ''='' @ value"

text \<open>Values and names that the path grammar can carry.\<close>

definition plain_value :: "string \<Rightarrow> bool" where
  "plain_value v \<longleftrightarrow> v \<noteq> [] \<and> CHR ''/'' \<notin> set v \<and> CHR ''%'' \<notin> set v"

definition decl_ok :: "partition_decl \<Rightarrow> bool" where
  "decl_ok decl \<longleftrightarrow> distinct (map (to_ascii_lowercase \<circ> fst) decl)
    \<and> (\<forall>(n, ty) \<in> set decl. CHR ''/'' \<notin> set n \<and> CHR ''='' \<notin> set n)"

lemma not_ends_slash: "x \<noteq> [] \<Longrightarrow> last x \<noteq> CHR ''/'' \<Longrightarrow> \<not> ends_with (p @ x) ''/''"
  by (auto simp: ends_with_iff) (metis last_appendR last_snoc)

lemma partition_path_segments:
  assumes "i + length vs = length decl" "\<forall>v \<in> set vs. plain_value v" "decl_ok decl" "path \<noteq> []" "\<not> ends_with path ''/''"
  shows "split_on (CHR ''/'') (partition_path decl i vs path) = split_on (CHR ''/'') path @ map2 segment (map fst (drop i decl)) vs
    \<and> partition_path decl i vs path \<noteq> [] \<and> \<not> ends_with (partition_path decl i vs path) ''/''"
  using assms
proof (induction vs arbitrary: i path)
  case (Cons v vs)
  let ?p = "path @ ''/'' @ segment (fst (decl ! i)) v"
  have i: "i < length decl" using Cons.prems(1) by simp
  have v: "v \<noteq> []" "CHR ''/'' \<notin> set v" using Cons.prems(2) by (auto simp: plain_value_def)
  have n: "CHR ''/'' \<notin> set (fst (decl ! i))" using Cons.prems(3) nth_mem[OF i] by (auto simp: decl_ok_def)
  have last: "last v \<noteq> CHR ''/''" using v last_in_set[of v] by metis
  have e: "\<not> ends_with ?p ''/''" using not_ends_slash[of v "path @ ''/'' @ fst (decl ! i) @ ''=''"] v(1) last by (simp add: segment_def)
  have s: "split_on (CHR ''/'') ?p = split_on (CHR ''/'') path @ [segment (fst (decl ! i)) v]"
    using split_on_append_last[of "CHR ''/''" "segment (fst (decl ! i)) v" path] v n by (simp add: segment_def)
  have d: "drop i decl = decl ! i # drop (i + 1) decl" using i by (simp add: Cons_nth_drop_Suc)
  have step: "partition_path decl i (v # vs) path = partition_path decl (i + 1) vs ?p"
    using Cons.prems(4,5) i by (simp add: segment_def)
  have "split_on (CHR ''/'') (partition_path decl (i + 1) vs ?p) = split_on (CHR ''/'') ?p @ map2 segment (map fst (drop (i + 1) decl)) vs
    \<and> partition_path decl (i + 1) vs ?p \<noteq> [] \<and> \<not> ends_with (partition_path decl (i + 1) vs ?p) ''/''"
    using Cons.prems(1-3) e by (intro Cons.IH) auto
  then show ?case unfolding step s d by simp
qed simp

lemma declared_name_self:
  assumes "decl_ok decl" "(n, ty) \<in> set decl"
  shows "declared_name decl n = Some n"
proof -
  have "distinct (map (to_ascii_lowercase \<circ> fst) decl)" using assms(1) by (simp add: decl_ok_def)
  then have "find (\<lambda>(m, _). eq_ignore_ascii_case m n) decl = Some (n, ty)"
    using assms(2) by (induction decl) (auto simp: eq_ignore_ascii_case_def rev_image_eqI split: prod.splits)
  then show ?thesis by (simp add: declared_name_def)
qed

definition ignored_segment :: "partition_decl \<Rightarrow> string \<Rightarrow> bool" where
  "ignored_segment decl seg \<longleftrightarrow> (case split_once (CHR ''='') seg of None \<Rightarrow> True | Some (k, v) \<Rightarrow> declared_name decl k = None)"

lemma scan_ignored:
  "\<forall>seg \<in> set segs. ignored_segment decl seg \<Longrightarrow> scan_segments blob decl (segs @ rest) found = scan_segments blob decl rest found"
  by (induction segs) (auto simp: ignored_segment_def split: option.splits)

lemma scan_partition_segments:
  assumes "decl_ok decl" "set sub \<subseteq> set decl" "distinct (map fst sub)" "length vs = length sub" "\<forall>v \<in> set vs. plain_value v"
    "\<forall>n \<in> fst ` set sub. found n = None"
  shows "scan_segments blob decl (map2 segment (map fst sub) vs @ rest) found
    = scan_segments blob decl rest (found ++ map_of (zip (map fst sub) vs))"
  using assms(2-6)
proof (induction sub arbitrary: vs found)
  case (Cons d sub)
  obtain n ty where d: "d = (n, ty)" by (cases d)
  obtain v ws where vs: "vs = v # ws" using Cons.prems(3) by (cases vs) auto
  have "split_once (CHR ''='') (segment n v) = Some (n, v)"
    using assms(1) Cons.prems(1) d by (auto simp: segment_def split_once_Some_iff decl_ok_def)
  moreover have "declared_name decl n = Some n" using declared_name_self[OF assms(1)] Cons.prems(1) d by auto
  ultimately have "scan_segments blob decl (map2 segment (map fst (d # sub)) vs @ rest) found
      = scan_segments blob decl (map2 segment (map fst sub) ws @ rest) (found(n \<mapsto> v))"
    using Cons.prems(4,5) d vs by (simp add: plain_value_def)
  also have "\<dots> = scan_segments blob decl rest (found(n \<mapsto> v) ++ map_of (zip (map fst sub) ws))"
    using Cons.prems d vs by (intro Cons.IH) auto
  also have "found(n \<mapsto> v) ++ map_of (zip (map fst sub) ws) = found ++ map_of (zip (map fst (d # sub)) vs)"
  proof -
    have "map_of (zip (map fst sub) ws) n = None"
      using Cons.prems(2) d by (auto simp: map_of_eq_None_iff dest: set_zip_leftD)
    then show ?thesis using d vs by (auto simp: fun_eq_iff map_add_def split: option.splits)
  qed
  finally show ?case .
qed simp

lemma check_present_ok: "\<forall>(n, ty) \<in> set decl. found n \<noteq> None \<Longrightarrow> check_present blob decl found = Ok ()"
  by (induction decl) auto

lemma distinct_fst_decl: "decl_ok decl \<Longrightarrow> distinct (map fst decl)"
  by (auto simp: decl_ok_def distinct_map intro: comp_inj_on dest: inj_on_imageI2)

text \<open>The name of a group's blob carries its values.\<close>

lemma partition_values_of_name:
  assumes "decl_ok decl" "decl \<noteq> []" "length key = length decl" "\<forall>v \<in> set key. plain_value v" "\<not> ends_with base ''/''"
    "\<forall>seg \<in> set (split_on (CHR ''/'') base). ignored_segment decl seg"
    "CHR ''/'' \<notin> set ts" "CHR ''='' \<notin> set ts" "CHR ''/'' \<notin> set uuid" "CHR ''='' \<notin> set uuid"
  shows "partition_values_from_path (generate_blob_name ts uuid (partition_path decl 0 key base)) decl
    = Ok (map_of (zip (map fst decl) key))"
proof -
  let ?p = "partition_path decl 0 key base"
  let ?file = "ts @ ''-'' @ uuid @ ''.parquet''"
  define pre where "pre = (if base = [] then [] else split_on (CHR ''/'') base)"
  have p: "split_on (CHR ''/'') ?p = pre @ map2 segment (map fst decl) key \<and> ?p \<noteq> [] \<and> \<not> ends_with ?p ''/''"
  proof (cases "base = []")
    case False
    then show ?thesis using partition_path_segments[of 0 key decl base] assms(1,3,4,5) by (simp add: pre_def)
  next
    case True
    obtain d ds v vs where dv: "decl = d # ds" "key = v # vs" using assms(2,3) by (cases decl; cases key) auto
    have v: "v \<noteq> []" "CHR ''/'' \<notin> set v" using assms(4) dv by (auto simp: plain_value_def)
    have n: "CHR ''/'' \<notin> set (fst d)" using assms(1) dv by (auto simp: decl_ok_def)
    have "last v \<noteq> CHR ''/''" using v last_in_set[of v] by metis
    then have e: "\<not> ends_with (segment (fst d) v) ''/''" using not_ends_slash[of v "fst d @ ''=''"] v by (simp add: segment_def)
    have s: "split_on (CHR ''/'') (segment (fst d) v) = [segment (fst d) v]" using n v by (intro split_on_no_sep) (simp add: segment_def)
    have "?p = partition_path decl 1 vs (segment (fst d) v)" using True dv by (simp add: segment_def)
    then show ?thesis using partition_path_segments[of 1 vs decl "segment (fst d) v"] assms(1,3,4) dv e s True
      by (simp add: pre_def segment_def)
  qed
  have trim: "rev (dropWhile (\<lambda>c. c = CHR ''/'') (rev ?p)) = ?p"
    using p by (cases "?p" rule: rev_cases) (auto simp: ends_with_iff)
  have name: "generate_blob_name ts uuid ?p = ?p @ CHR ''/'' # ?file"
    using p by (simp add: generate_blob_name_def Let_def trim)
  have segs: "split_on (CHR ''/'') (generate_blob_name ts uuid ?p) = pre @ map2 segment (map fst decl) key @ [?file]"
    unfolding name using split_on_append_last[of "CHR ''/''" ?file ?p] p assms(7,9) by simp
  have "CHR ''='' \<notin> set ?file" using assms(8,10) by simp
  then have fil: "ignored_segment decl ?file" by (simp add: ignored_segment_def iffD2[OF split_once_None_iff])
  let ?m = "map_of (zip (map fst decl) key)"
  have "scan_segments b decl (pre @ map2 segment (map fst decl) key @ [?file]) Map.empty = Ok ?m" for b
    using scan_ignored[of pre decl b _ Map.empty] assms(6) scan_ignored[of "[?file]" decl b "[]"] fil
      scan_partition_segments[OF assms(1) subset_refl distinct_fst_decl[OF assms(1)] assms(3,4), of Map.empty b "[?file]"]
    by (simp add: pre_def)
  moreover have "check_present b decl ?m = Ok ()" for b
  proof -
    have "?m n \<noteq> None" if d: "(n, ty) \<in> set decl" for n ty
    proof -
      have "dom ?m = fst ` set decl" using dom_map_of_zip[of "map fst decl" key] assms(3) by simp
      then have "n \<in> dom ?m" using rev_image_eqI[OF d, of n fst] by simp
      then show ?thesis by blast
    qed
    then show ?thesis by (intro check_present_ok) auto
  qed
  ultimately show ?thesis by (simp add: partition_values_from_path_def segs)
qed

text \<open>C20: partition values survive the path.  The datums of a row's partition columns are spelled in the
  name of the blob the row is written to; reading that name gives every declared column the datum it had,
  provided no text value contains a percent sign (which the read path refuses), text is well-formed, dates
  are in PostgreSQL's range, and the table's prefix holds no segment of a partition column.\<close>

theorem partition_round_trip:
  assumes "convert_laws C" "decl_ok decl" "decl \<noteq> []" "length key = length decl"
    "\<forall>i < length decl. datum_to_partition_string C (ds ! i) (partition_oid (snd (decl ! i))) = Ok (key ! i)"
    "\<forall>v \<in> set key. CHR ''%'' \<notin> set v"
    "\<forall>i < length decl. snd (decl ! i) = Date \<longrightarrow> (\<exists>x. date_try C (datum_to_i32 (ds ! i)) = Inr x)"
    "\<forall>i < length decl. snd (decl ! i) = Text \<longrightarrow> (\<exists>t. varlena (ds ! i) = Some t \<and> utf8_valid (c_string t))"
    "\<not> ends_with base ''/''" "\<forall>seg \<in> set (split_on (CHR ''/'') base). ignored_segment decl seg"
    "CHR ''/'' \<notin> set ts" "CHR ''='' \<notin> set ts" "CHR ''/'' \<notin> set uuid" "CHR ''='' \<notin> set uuid"
  shows "\<exists>m. partition_values_from_path (generate_blob_name ts uuid (partition_path decl 0 key base)) decl = Ok m
    \<and> (\<forall>i < length decl. \<exists>raw d. m (fst (decl ! i)) = Some raw \<and> parse_text_to_datum C (snd (decl ! i)) raw = Ok d
        \<and> datum_cell (partition_oid (snd (decl ! i))) d = datum_cell (partition_oid (snd (decl ! i))) (ds ! i))"
proof -
  have "plain_value (key ! i)" if i: "i < length decl" for i
    using convert_laws.partition_string_segment[OF assms(1)] assms(4,5,6) i by (auto simp: plain_value_def)
  then have plain: "\<forall>v \<in> set key. plain_value v" using assms(4) by (auto simp: in_set_conv_nth)
  let ?m = "map_of (zip (map fst decl) key)"
  have m: "?m (fst (decl ! i)) = Some (key ! i)" if i: "i < length decl" for i
    using map_of_zip_nth[of "map fst decl" key i] distinct_fst_decl[OF assms(2)] assms(4) i by simp
  have "\<exists>d. parse_text_to_datum C (snd (decl ! i)) (key ! i) = Ok d
      \<and> datum_cell (partition_oid (snd (decl ! i))) d = datum_cell (partition_oid (snd (decl ! i))) (ds ! i)" if i: "i < length decl" for i
    using i assms(5,7,8) by (intro convert_laws.partition_value_roundtrip[OF assms(1)]) blast+
  then show ?thesis
    using partition_values_of_name[OF assms(2,3,4) plain assms(9-14)] m by (intro exI[of _ ?m]) blast
qed

theorem partition_round_trip_witness:
  "\<exists>m. partition_values_from_path (generate_blob_name ''t'' ''u'' (partition_path [(''region'', Text), (''year'', Int4)] 0 [''eu'', ''2024''] ''sales''))
      [(''region'', Text), (''year'', Int4)] = Ok m \<and> m ''year'' \<noteq> None"
proof -
  let ?decl = "[(''region'', Text), (''year'', Int4)]"
  let ?ds = "[Datum 0 (Some ''eu'') None, word_datum 2024]"
  have u: "from_utf8_lossy ''eu'' = ''eu''" "utf8_valid ''eu''" by code_simp+
  have s: "datum_to_partition_string plain_convert (?ds ! 0) (partition_oid Text) = Ok ''eu''"
    by (simp add: datum_to_partition_string_def oid_defs text_datum_to_str_def c_string_def byte_val_def u check_text_partition_def starts_with_def)
  have y: "datum_to_partition_string plain_convert (?ds ! 1) (partition_oid Int4) = Ok ''2024''"
    using show_2024 by (simp add: datum_to_partition_string_def oid_defs datum_to_i32_def word_datum_def int_to_partition_string_def)
  have "decl_ok ?decl" by (simp add: decl_ok_def to_ascii_lowercase_def)
  moreover have "\<forall>i < length ?decl. datum_to_partition_string plain_convert (?ds ! i) (partition_oid (snd (?decl ! i))) = Ok ([''eu'', ''2024''] ! i)"
    using s y by (simp add: less_Suc_eq)
  moreover have "\<forall>i < length ?decl. snd (?decl ! i) = Text \<longrightarrow> (\<exists>t. varlena (?ds ! i) = Some t \<and> utf8_valid (c_string t))"
    using u by (simp add: less_Suc_eq c_string_def byte_val_def)
  moreover have "\<forall>seg \<in> set (split_on (CHR ''/'') ''sales''). ignored_segment ?decl seg" by (simp add: ignored_segment_def)
  moreover have "\<not> ends_with ''sales'' ''/''" by (simp add: ends_with_def starts_with_def)
  ultimately obtain m where m: "partition_values_from_path (generate_blob_name ''t'' ''u'' (partition_path ?decl 0 [''eu'', ''2024''] ''sales'')) ?decl = Ok m"
    "\<forall>i < length ?decl. \<exists>raw d. m (fst (?decl ! i)) = Some raw \<and> parse_text_to_datum plain_convert (snd (?decl ! i)) raw = Ok d
        \<and> datum_cell (partition_oid (snd (?decl ! i))) d = datum_cell (partition_oid (snd (?decl ! i))) (?ds ! i)"
    using partition_round_trip[OF pc.convert_laws_axioms, of ?decl "[''eu'', ''2024'']" ?ds "''sales''" "''t''" "''u''"]
    by (auto simp: less_Suc_eq)
  then show ?thesis using m(2)[rule_format, of 1] by auto
qed

end
