(* ===== verification/Parallel.thy ===== *)
theory Parallel
  imports Catalog
begin

text \<open>
  \<^verbatim>\<open>src/fdw/parallel.rs\<close> and the range producers of \<^verbatim>\<open>src/fdw/scan.rs\<close>: how the blobs of a scan are
  handed out.  A sequential scan walks its own list; the workers of a parallel scan share a cursor in a
  dynamic shared memory (DSM) segment, into which the leader has serialized the list.

  The segment is the record \<open>dsm_segment\<close>: the header's fields, and the bytes after it.  The cursor is a
  machine word, on which \<^verbatim>\<open>fetch_add\<close> wraps.  Relaxed atomic additions on one location are totally ordered,
  so a run of the workers is a sequence of calls.

  Both producers refine a queue; the interface is the locale \<open>range_producer\<close>, in which the distribution
  of the blobs is proved once.
\<close>

type_synonym blob_ref = "string \<times> string"

section \<open>The segment\<close>

record dsm_segment =
  cursor :: "64 word"
  n_blobs :: nat
  total_payload_bytes :: nat
  payload :: string

definition HEADER_BYTES :: nat where "HEADER_BYTES = 24"

definition dsm_size_for :: "blob_ref list \<Rightarrow> nat" where
  "dsm_size_for blobs = HEADER_BYTES + sum_list (map (\<lambda>(n, e). 8 + length n + length e) blobs)"

text \<open>\<^verbatim>\<open>(len as u32).to_le_bytes()\<close> and \<^verbatim>\<open>u32::from_le_bytes\<close>.\<close>

definition u32_to_le :: "nat \<Rightarrow> string" where
  "u32_to_le n = map (\<lambda>i. char_of (n div 256 ^ i mod 256)) [0..<4]"

definition u32_of_le :: "string \<Rightarrow> nat" where
  "u32_of_le s = (\<Sum>i<4. byte_val (s ! i) * 256 ^ i)"

definition dsm_entry :: "blob_ref \<Rightarrow> string" where
  "dsm_entry b = (case b of (name, etag) \<Rightarrow> u32_to_le (length name) @ u32_to_le (length etag) @ name @ etag)"

definition dsm_serialize_blobs :: "nat \<Rightarrow> blob_ref list \<Rightarrow> dsm_segment" where
  "dsm_serialize_blobs dst_len blobs =
    \<lparr> cursor = 0, n_blobs = length blobs, total_payload_bytes = dst_len - HEADER_BYTES, payload = concat (map dsm_entry blobs) \<rparr>"

text \<open>Copying \<open>n\<close> bytes from an offset of the payload; outside the segment is what must never happen.\<close>

definition outside :: fdw_error where
  "outside = Panic ''read outside the segment''"

definition read_at :: "string \<Rightarrow> nat \<Rightarrow> nat \<Rightarrow> string fdw_result" where
  "read_at mem off n = (if off + n \<le> length mem then Ok (take n (drop off mem)) else Err outside)"

text \<open>\<open>utf8_error\<close> is the text of a failed UTF-8 check.\<close>

definition from_utf8 :: "(string \<Rightarrow> string) \<Rightarrow> string \<Rightarrow> string \<Rightarrow> string fdw_result" where
  "from_utf8 utf8_error what s =
    (if utf8_valid s then Ok s
     else Err (SchemaMismatch (''DSM payload contained non-UTF-8 '' @ what @ '': '' @ utf8_error s)))"

fun dsm_read_entries :: "(string \<Rightarrow> string) \<Rightarrow> dsm_segment \<Rightarrow> nat \<Rightarrow> nat \<Rightarrow> blob_ref list fdw_result" where
  "dsm_read_entries ue seg 0 bytes_read = Ok []"
| "dsm_read_entries ue seg (Suc k) bytes_read =
    (if bytes_read + 8 > total_payload_bytes seg then Err (SchemaMismatch ''DSM payload truncated'')
     else
      and_then (read_at (payload seg) bytes_read 4) (\<lambda>nl_buf.
      and_then (read_at (payload seg) (bytes_read + 4) 4) (\<lambda>el_buf.
      let nl = u32_of_le nl_buf; el = u32_of_le el_buf; at = bytes_read + 8 in
      if at + nl + el > total_payload_bytes seg then Err (SchemaMismatch ''DSM payload out of bounds'')
      else
       and_then (read_at (payload seg) at nl) (\<lambda>name_bytes.
       and_then (read_at (payload seg) (at + nl) el) (\<lambda>etag_bytes.
       and_then (from_utf8 ue ''blob name'' name_bytes) (\<lambda>name.
       and_then (from_utf8 ue ''etag'' etag_bytes) (\<lambda>etag.
       and_then (dsm_read_entries ue seg k (at + nl + el)) (\<lambda>out. Ok ((name, etag) # out)))))))))"

text \<open>The vector is allocated for all entries at once: its size in bytes must fit an \<^verbatim>\<open>isize\<close>.\<close>

definition dsm_deserialize_blobs :: "(string \<Rightarrow> string) \<Rightarrow> dsm_segment \<Rightarrow> blob_ref list fdw_result" where
  "dsm_deserialize_blobs ue seg =
    (if n_blobs seg * 48 \<ge> 2 ^ 63 then Err (Panic ''capacity overflow'')
     else dsm_read_entries ue seg (n_blobs seg) 0)"

section \<open>Handing out blobs\<close>

record sequential_ranges =
  sr_blobs :: "blob_ref list"
  sr_cursor :: nat

definition nth_opt :: "'a list \<Rightarrow> nat \<Rightarrow> 'a option" where
  "nth_opt xs i = (if i < length xs then Some (xs ! i) else None)"

definition sequential_next_blob :: "sequential_ranges \<Rightarrow> blob_ref option \<times> sequential_ranges" where
  "sequential_next_blob s =
    (case nth_opt (sr_blobs s) (sr_cursor s) of
       None \<Rightarrow> (None, s)
     | Some b \<Rightarrow> (Some b, s \<lparr> sr_cursor := sr_cursor s + 1 \<rparr>))"

text \<open>The producer that \<^verbatim>\<open>build_state\<close> gives the scan state of \<^verbatim>\<open>begin_foreign_scan\<close>.\<close>

definition sequential_over :: "blob_ref list \<Rightarrow> sequential_ranges" where
  "sequential_over listed = \<lparr> sr_blobs = listed, sr_cursor = 0 \<rparr>"

text \<open>A worker's producer: its copy of the list.  The shared segment is the state.\<close>

definition parallel_next_blob :: "blob_ref list \<Rightarrow> dsm_segment \<Rightarrow> blob_ref option \<times> dsm_segment" where
  "parallel_next_blob blobs seg = (nth_opt blobs (unat (cursor seg)), seg \<lparr> cursor := cursor seg + 1 \<rparr>)"

section \<open>The callbacks\<close>

definition estimate_dsm_foreign_scan :: "blob_ref list \<Rightarrow> nat" where
  "estimate_dsm_foreign_scan blobs = dsm_size_for blobs"

definition initialize_dsm_foreign_scan :: "blob_ref list \<Rightarrow> dsm_segment" where
  "initialize_dsm_foreign_scan blobs = dsm_serialize_blobs (dsm_size_for blobs) blobs"

definition re_initialize_dsm_foreign_scan :: "dsm_segment \<Rightarrow> dsm_segment" where
  "re_initialize_dsm_foreign_scan seg = seg \<lparr> cursor := 0 \<rparr>"

definition initialize_worker_foreign_scan :: "(string \<Rightarrow> string) \<Rightarrow> bool \<Rightarrow> dsm_segment \<Rightarrow> blob_ref list fdw_result" where
  "initialize_worker_foreign_scan ue rel_is_null seg =
    and_then (dsm_deserialize_blobs ue seg) (\<lambda>blobs.
    if rel_is_null then Err (SchemaMismatch ''parallel worker init: ss_currentRelation is null'') else Ok blobs)"

text \<open>The options the planner callbacks read off the catalog: the first element of that name counts.\<close>

definition first_option :: "string \<Rightarrow> def_list \<Rightarrow> string option option" where
  "first_option key l =
    (case l of
       None \<Rightarrow> None
     | Some defs \<Rightarrow> map_option snd (find (\<lambda>(name, v). from_utf8_lossy name = key) (List.map_filter id defs)))"

definition read_sorted_opt :: "def_list option \<Rightarrow> bool" where
  "read_sorted_opt table =
    (case table of
       None \<Rightarrow> False
     | Some l \<Rightarrow> (case first_option ''sorted'' l of Some (Some v) \<Rightarrow> trim (from_utf8_lossy v) \<noteq> [] | _ \<Rightarrow> False))"

definition read_parallel_workers_opt :: "def_list option \<Rightarrow> int option" where
  "read_parallel_workers_opt table =
    (case table of
       None \<Rightarrow> None
     | Some l \<Rightarrow> (case first_option ''parallel_workers'' l of Some (Some v) \<Rightarrow> parse_i32 (from_utf8_lossy v) | _ \<Rightarrow> None))"

datatype cmd_type = CMD_SELECT | CMD_UPDATE | CMD_INSERT | CMD_DELETE | CMD_OTHER string

text \<open>\<open>cmd\<close> is the command of the query, \<open>None\<close> when the planner gives none.\<close>

definition is_foreign_scan_parallel_safe :: "cmd_type option \<Rightarrow> def_list option option \<Rightarrow> bool" where
  "is_foreign_scan_parallel_safe cmd rte =
    (case cmd of
       None \<Rightarrow> False
     | Some c \<Rightarrow>
         if c \<noteq> CMD_SELECT then False
         else (case rte of
             None \<Rightarrow> False
           | Some table \<Rightarrow>
               if read_parallel_workers_opt table = Some 0 then False
               else if read_sorted_opt table then False
               else True))"

text \<open>The workers of the partial path that \<^verbatim>\<open>get_foreign_paths\<close> adds, if it adds one.\<close>

definition partial_path_workers :: "cmd_type option \<Rightarrow> def_list option \<Rightarrow> int \<Rightarrow> int option" where
  "partial_path_workers cmd table cluster_cap =
    (if cmd = Some CMD_SELECT \<and> \<not> read_sorted_opt table then
       (let pw_opt = read_parallel_workers_opt table in
        if pw_opt \<noteq> Some 0 then Some (max 1 (case pw_opt of Some n \<Rightarrow> n | None \<Rightarrow> cluster_cap)) else None)
     else None)"

section \<open>Runs\<close>

text \<open>A run is the sequence of calls to \<^verbatim>\<open>next_blob\<close> in their order on the shared cursor: who calls, and
  what it is given.\<close>

fun calls :: "('w \<Rightarrow> 's \<Rightarrow> 'b option \<times> 's) \<Rightarrow> 'w list \<Rightarrow> 's \<Rightarrow> ('w \<times> 'b option) list" where
  "calls next [] s = []"
| "calls next (w # ws) s = (let (b, s') = next w s in (w, b) # calls next ws s')"

definition handed :: "('w \<times> 'b option) list \<Rightarrow> 'b list" where
  "handed trace = List.map_filter snd trace"

datatype participant = Leader | Worker nat

text \<open>Every participant calls \<^verbatim>\<open>next_blob\<close> of its own producer.  The leader has the one its \<^verbatim>\<open>begin_foreign_scan\<close>
  made, \<open>sequential_over\<close> the whole list: \<^verbatim>\<open>initialize_dsm_foreign_scan\<close> only reads the scan state (it takes a
  shared reference) and returns a segment.  A worker has the producer on the shared cursor that
  \<^verbatim>\<open>initialize_worker_foreign_scan\<close> makes.\<close>

definition gather_next ::
  "blob_ref list \<Rightarrow> participant \<Rightarrow> sequential_ranges \<times> dsm_segment \<Rightarrow> blob_ref option \<times> sequential_ranges \<times> dsm_segment" where
  "gather_next blobs p = (\<lambda>(own, seg).
    case p of
      Leader \<Rightarrow> (let (b, own') = sequential_next_blob own in (b, own', seg))
    | Worker _ \<Rightarrow> (let (b, seg') = parallel_next_blob blobs seg in (b, own, seg')))"

definition gather_calls ::
  "(string \<Rightarrow> string) \<Rightarrow> blob_ref list \<Rightarrow> participant list \<Rightarrow> (participant \<times> blob_ref option) list fdw_result" where
  "gather_calls ue blobs schedule =
    (let seg = initialize_dsm_foreign_scan blobs in
     and_then (initialize_worker_foreign_scan ue False seg) (\<lambda>copy.
     Ok (calls (gather_next copy) schedule (sequential_over blobs, seg))))"

section \<open>Lemmas: the segment\<close>

lemma length_u32_to_le [simp]: "length (u32_to_le n) = 4"
  by (simp add: u32_to_le_def)

lemma base_256_digits:
  "(n :: nat) mod 256 + n div 256 mod 256 * 256 + n div 65536 mod 256 * 65536 + n div 16777216 * 16777216 = n"
proof -
  have "n = n mod 256 + 256 * (n div 256)" "n div 256 = n div 256 mod 256 + 256 * (n div 65536)"
    "n div 65536 = n div 65536 mod 256 + 256 * (n div 16777216)"
    using mod_mult_div_eq[of n 256] mod_mult_div_eq[of "n div 256" 256] mod_mult_div_eq[of "n div 65536" 256]
    by (simp_all add: div_mult2_eq[symmetric])
  then show ?thesis
    by linarith
qed

lemma u32_le_inverse:
  assumes "n < 2 ^ 32"
  shows "u32_of_le (u32_to_le n) = n"
proof -
  have upt4: "[0..<4] = [0, 1, 2, 3 :: nat]"
    by (simp add: upt_rec)
  have sum4: "(\<Sum>i<4. f i) = f 0 + f 1 + f 2 + f (3 :: nat)" for f :: "nat \<Rightarrow> nat"
    by (simp add: eval_nat_numeral)
  have "n div 16777216 mod 256 = n div 16777216"
    using assms by (intro mod_less) (simp add: div_less_iff_less_mult)
  then show ?thesis
    using base_256_digits[of n] by (simp add: u32_of_le_def u32_to_le_def upt4 sum4 byte_val_def)
qed

lemma length_dsm_entry [simp]: "length (dsm_entry (n, e)) = 8 + length n + length e"
  by (simp add: dsm_entry_def)

lemma dsm_entry_pair: "dsm_entry (n, e) = u32_to_le (length n) @ u32_to_le (length e) @ n @ e"
  by (simp add: dsm_entry_def)

lemma dsm_size_payload:
  "dsm_size_for blobs - HEADER_BYTES = length (concat (map dsm_entry blobs))"
  by (induction blobs) (auto simp: dsm_size_for_def)

lemma read_at_middle: "read_at (xs @ ys @ zs) (length xs) (length ys) = Ok ys"
  by (simp add: read_at_def)

lemma read_at_ok:
  assumes "mem = xs @ ys @ zs" "off = length xs" "n = length ys"
  shows "read_at mem off n = Ok ys"
  using assms read_at_middle by simp

definition storable :: "blob_ref \<Rightarrow> bool" where
  "storable b \<longleftrightarrow> utf8_valid (fst b) \<and> utf8_valid (snd b) \<and> length (fst b) < 2 ^ 32 \<and> length (snd b) < 2 ^ 32"

lemma dsm_read_entries_written:
  assumes "list_all storable blobs" "payload seg = pre @ concat (map dsm_entry blobs)"
    and "total_payload_bytes seg = length (payload seg)"
  shows "dsm_read_entries ue seg (length blobs) (length pre) = Ok blobs"
  using assms
proof (induction blobs arbitrary: pre)
  case Nil
  then show ?case by simp
next
  case (Cons b blobs)
  obtain n e where b: "b = (n, e)" by (cases b)
  let ?rest = "concat (map dsm_entry blobs)"
  have p: "payload seg = pre @ u32_to_le (length n) @ u32_to_le (length e) @ n @ e @ ?rest"
    using Cons.prems(2) by (simp add: b dsm_entry_pair)
  have reads:
    "read_at (payload seg) (length pre) 4 = Ok (u32_to_le (length n))"
    "read_at (payload seg) (length pre + 4) 4 = Ok (u32_to_le (length e))"
    "read_at (payload seg) (length pre + 8) (length n) = Ok n"
    "read_at (payload seg) (length pre + 8 + length n) (length e) = Ok e"
    by (rule read_at_ok[where xs = pre] read_at_ok[where xs = "pre @ u32_to_le (length n)"]
        read_at_ok[where xs = "pre @ u32_to_le (length n) @ u32_to_le (length e)"]
        read_at_ok[where xs = "pre @ u32_to_le (length n) @ u32_to_le (length e) @ n"]; simp add: p)+
  have le: "u32_of_le (u32_to_le (length n)) = length n" "u32_of_le (u32_to_le (length e)) = length e"
    using Cons.prems by (simp_all add: b storable_def u32_le_inverse)
  have "dsm_read_entries ue seg (length blobs) (length (pre @ dsm_entry b)) = Ok blobs"
    using Cons.prems by (intro Cons.IH) simp_all
  then have ih: "dsm_read_entries ue seg (length blobs) (length pre + 8 + length n + length e) = Ok blobs"
    by (simp add: b add.assoc)
  have total: "length pre + 8 + length n + length e \<le> total_payload_bytes seg"
    using Cons.prems(3) by (simp add: p)
  then have guards: "\<not> length pre + 8 > total_payload_bytes seg" "\<not> length pre + 8 + length n + length e > total_payload_bytes seg"
    by simp_all
  have valid: "utf8_valid n" "utf8_valid e"
    using Cons.prems(1) by (simp_all add: b storable_def)
  show ?case
    by (simp only: b list.size(4) add_0_right add_Suc_right One_nat_def dsm_read_entries.simps(2) guards reads le Let_def
        from_utf8_def valid ih if_True if_False and_then.simps)
qed

lemma dsm_read_entries_inside:
  "total_payload_bytes seg \<le> length (payload seg) \<Longrightarrow> dsm_read_entries ue seg k r \<noteq> Err outside"
proof (induction k arbitrary: r)
  case 0
  then show ?case by simp
next
  case (Suc k)
  have utf8: "from_utf8 ue w s \<noteq> Err outside" for w s
    by (simp add: from_utf8_def outside_def)
  have read: "read_at (payload seg) a n \<noteq> Err outside" if "a + n \<le> total_payload_bytes seg" for a n
    using that Suc.prems by (simp add: read_at_def)
  have step: "and_then x f \<noteq> Err outside" if "x \<noteq> Err outside" "\<And>y. f y \<noteq> Err outside" for x :: "'x fdw_result" and f :: "'x \<Rightarrow> blob_ref list fdw_result"
    using that by (cases x) simp_all
  have own: "Err (SchemaMismatch m) \<noteq> Err outside" for m :: string
    by (simp add: outside_def)
  show ?case
    unfolding dsm_read_entries.simps Let_def
    by (split if_split, intro conjI impI own step read, simp, simp,
        split if_split, intro conjI impI own step read, simp, simp)
      (simp_all add: utf8 Suc.IH[OF Suc.prems])
qed

section \<open>Lemmas: distribution\<close>

text \<open>What the scan relies on: a producer is a queue.  \<open>can n s\<close> says that \<open>n\<close> more calls may be made.\<close>

locale range_producer =
  fixes next_blob :: "'s \<Rightarrow> 'b option \<times> 's"
    and remaining :: "'s \<Rightarrow> 'b list"
    and can :: "nat \<Rightarrow> 's \<Rightarrow> bool"
  assumes next_blob_head: "can (Suc n) s \<Longrightarrow> next_blob s = (b, s') \<Longrightarrow> b = (case remaining s of [] \<Rightarrow> None | x # _ \<Rightarrow> Some x)"
    and next_blob_tail: "can (Suc n) s \<Longrightarrow> next_blob s = (b, s') \<Longrightarrow> remaining s' = tl (remaining s)"
    and next_blob_can: "can (Suc n) s \<Longrightarrow> next_blob s = (b, s') \<Longrightarrow> can n s'"
begin

lemma calls_are_the_queue:
  "can (length ws) s \<Longrightarrow>
    map snd (calls (\<lambda>_. next_blob) ws s)
      = map Some (take (length ws) (remaining s)) @ replicate (length ws - length (remaining s)) None"
proof (induction ws arbitrary: s)
  case Nil
  then show ?case by simp
next
  case (Cons w ws)
  obtain b s' where n: "next_blob s = (b, s')" by (cases "next_blob s")
  have can: "can (Suc (length ws)) s" using Cons.prems by simp
  note ih = Cons.IH[OF next_blob_can[OF can n]]
  show ?case
    using ih next_blob_head[OF can n] next_blob_tail[OF can n]
    by (cases "remaining s") (simp_all add: n)
qed

lemma handed_prefix:
  assumes "can (length ws) s"
  shows "handed (calls (\<lambda>_. next_blob) ws s) = take (length ws) (remaining s)"
proof -
  have "handed t = map the (filter (\<lambda>x. x \<noteq> None) (map snd t))" for t :: "('w \<times> 'b option) list"
    by (induction t) (auto simp: handed_def map_filter_simps split: option.splits)
  from this[of "calls (\<lambda>_. next_blob) ws s"] show ?thesis
    by (simp only: calls_are_the_queue[OF assms]) (simp add: filter_map o_def)
qed

lemma handed_all:
  assumes "can (length ws) s" "None \<in> snd ` set (calls (\<lambda>_. next_blob) ws s)"
  shows "handed (calls (\<lambda>_. next_blob) ws s) = remaining s"
proof -
  have "None \<in> set (map snd (calls (\<lambda>_. next_blob) ws s))"
    using assms(2) by simp
  then have "length (remaining s) < length ws"
    by (auto simp only: calls_are_the_queue[OF assms(1)] set_append set_map set_replicate_conv_if split: if_splits)
  then show ?thesis
    using handed_prefix[OF assms(1)] by simp
qed

end

lemma nth_opt_drop: "nth_opt xs i = (case drop i xs of [] \<Rightarrow> None | x # _ \<Rightarrow> Some x)"
  by (cases "i < length xs") (simp_all add: nth_opt_def Cons_nth_drop_Suc[symmetric])

interpretation sr: range_producer sequential_next_blob "\<lambda>s. drop (sr_cursor s) (sr_blobs s)" "\<lambda>_ _. True"
  by unfold_locales
    (auto simp: sequential_next_blob_def nth_opt_drop drop_Suc tl_drop split: list.splits option.splits)

lemma unat_cursor_plus: "unat c + Suc n < 2 ^ 64 \<Longrightarrow> unat (c + 1 :: 64 word) = Suc (unat c)"
  by (simp add: unat_word_ariths)

interpretation pr: range_producer "parallel_next_blob blobs" "\<lambda>s. drop (unat (cursor s)) blobs"
    "\<lambda>n s. unat (cursor s) + n < 2 ^ 64" for blobs
  by unfold_locales
    (auto simp: parallel_next_blob_def nth_opt_drop drop_Suc tl_drop unat_cursor_plus)

definition is_leader :: "participant \<Rightarrow> bool" where
  "is_leader p \<longleftrightarrow> p = Leader"

lemma gather_leader_part:
  "filter (\<lambda>c. is_leader (fst c)) (calls (gather_next blobs) ps (own, seg))
    = calls (\<lambda>_. sequential_next_blob) (filter is_leader ps) own"
  by (induction ps arbitrary: own seg)
    (auto simp: gather_next_def is_leader_def case_prod_beta Let_def split: participant.splits)

lemma gather_worker_part:
  "filter (\<lambda>c. \<not> is_leader (fst c)) (calls (gather_next blobs) ps (own, seg))
    = calls (\<lambda>_. parallel_next_blob blobs) (filter (\<lambda>p. \<not> is_leader p) ps) seg"
  by (induction ps arbitrary: own seg)
    (auto simp: gather_next_def is_leader_def case_prod_beta Let_def split: participant.splits)

lemma gather_workers_only:
  "Leader \<notin> set ps \<Longrightarrow> calls (gather_next blobs) ps (own, seg) = calls (\<lambda>_. parallel_next_blob blobs) ps seg"
  by (induction ps arbitrary: seg) (auto simp: gather_next_def case_prod_beta Let_def split: participant.splits)

lemma calls_fst: "map fst (calls nx ps s) = ps"
  by (induction ps arbitrary: s) (simp_all add: case_prod_beta)

lemma mset_handed_partition:
  "mset (handed t) = mset (handed (filter P t)) + mset (handed (filter (\<lambda>x. \<not> P x) t))"
  by (induction t) (auto simp: handed_def map_filter_simps split: option.splits)

section \<open>The contract\<close>

lemma dsm_round_trip:
  assumes "list_all storable blobs" "length blobs * 48 < 2 ^ 63"
  shows "dsm_deserialize_blobs ue (initialize_dsm_foreign_scan blobs) = Ok blobs"
proof -
  let ?seg = "initialize_dsm_foreign_scan blobs"
  have "dsm_read_entries ue ?seg (length blobs) (length ([] :: string)) = Ok blobs"
    by (rule dsm_read_entries_written[OF assms(1)])
      (simp_all add: initialize_dsm_foreign_scan_def dsm_serialize_blobs_def dsm_size_payload)
  then show ?thesis
    using assms(2) by (simp add: dsm_deserialize_blobs_def initialize_dsm_foreign_scan_def dsm_serialize_blobs_def)
qed

lemma gather_calls_ok:
  assumes "list_all storable blobs" "length blobs * 48 < 2 ^ 63"
  shows "gather_calls ue blobs schedule
    = Ok (calls (gather_next blobs) schedule (\<lparr> sr_blobs = blobs, sr_cursor = 0 \<rparr>, initialize_dsm_foreign_scan blobs))"
  by (simp add: gather_calls_def initialize_worker_foreign_scan_def sequential_over_def Let_def dsm_round_trip[OF assms])

lemma initial_cursor [simp]: "cursor (initialize_dsm_foreign_scan blobs) = 0"
  by (simp add: initialize_dsm_foreign_scan_def dsm_serialize_blobs_def)

text \<open>C13: the workers of a parallel scan share the blobs without loss or repetition.  The leader
  serializes the list into the segment, every worker reads it back unchanged, and however their calls to
  \<^verbatim>\<open>next_blob\<close> interleave the blobs are handed out once each, in list order: after \<open>k\<close> calls the first \<open>k\<close>
  of them, and all of them once some worker has been told there is no more.\<close>

theorem workers_exactly_once:
  assumes "list_all storable blobs" and "length blobs * 48 < 2 ^ 63"
    and "length schedule < 2 ^ 64" and "Leader \<notin> set schedule"
  shows "\<exists>trace. gather_calls ue blobs schedule = Ok trace
    \<and> map fst trace = schedule
    \<and> handed trace = take (length schedule) blobs
    \<and> (None \<in> snd ` set trace \<longrightarrow> handed trace = blobs)"
proof -
  let ?own = "\<lparr> sr_blobs = blobs, sr_cursor = 0 \<rparr>" and ?seg = "initialize_dsm_foreign_scan blobs"
  let ?trace = "calls (gather_next blobs) schedule (?own, ?seg)"
  have t: "?trace = calls (\<lambda>_. parallel_next_blob blobs) schedule ?seg"
    by (rule gather_workers_only[OF assms(4)])
  show ?thesis
    using assms(3) pr.handed_prefix[where s = ?seg and ws = schedule] pr.handed_all[where s = ?seg and ws = schedule]
    by (simp add: gather_calls_ok[OF assms(1,2)] calls_fst t)
qed

theorem workers_exactly_once_witness:
  "\<exists>trace. gather_calls id [(''a.parquet'', ''1''), (''b.parquet'', ''2'')] [Worker 1, Worker 0, Worker 1] = Ok trace
    \<and> handed trace = [(''a.parquet'', ''1''), (''b.parquet'', ''2'')]"
proof -
  have "utf8_valid ''a.parquet''" "utf8_valid ''b.parquet''" "utf8_valid ''1''" "utf8_valid ''2''"
    by code_simp+
  then have s: "list_all storable [(''a.parquet'', ''1''), (''b.parquet'', ''2'')]"
    by (simp add: storable_def)
  show ?thesis
    using workers_exactly_once[OF s, of "[Worker 1, Worker 0, Worker 1]" id] by fastforce
qed

text \<open>C14: when the leader takes part as well, which is PostgreSQL's default, every blob is read twice.
  The leader walks its own list from the start instead of the shared cursor, so once it and some worker
  have run dry the blobs handed out are all blobs of the scan, and all blobs of the scan again.\<close>

theorem leader_repeats_blobs:
  assumes "list_all storable blobs" and "length blobs * 48 < 2 ^ 63" and "length schedule < 2 ^ 64"
    and "gather_calls ue blobs schedule = Ok trace"
    and "(Leader, None) \<in> set trace" and "(Worker w, None) \<in> set trace"
  shows "mset (handed trace) = mset blobs + mset blobs"
proof -
  let ?own = "\<lparr> sr_blobs = blobs, sr_cursor = 0 \<rparr>" and ?seg = "initialize_dsm_foreign_scan blobs"
  let ?l = "filter is_leader schedule" and ?w = "filter (\<lambda>p. \<not> is_leader p) schedule"
  let ?lt = "calls (\<lambda>_. sequential_next_blob) ?l ?own" and ?wt = "calls (\<lambda>_. parallel_next_blob blobs) ?w ?seg"
  have trace: "trace = calls (gather_next blobs) schedule (?own, ?seg)"
    using assms(4) by (simp add: gather_calls_ok[OF assms(1,2)])
  have lt: "filter (\<lambda>c. is_leader (fst c)) trace = ?lt" and wt: "filter (\<lambda>c. \<not> is_leader (fst c)) trace = ?wt"
    by (simp_all add: trace gather_leader_part gather_worker_part)
  have "(Leader, None) \<in> set ?lt" "(Worker w, None) \<in> set ?wt"
    using assms(5,6) by (simp_all only: lt[symmetric] wt[symmetric]) (simp_all add: is_leader_def)
  then have dry: "None \<in> snd ` set ?lt" "None \<in> snd ` set ?wt"
    by force+
  have "length ?w < 2 ^ 64"
    using assms(3) length_filter_le[of "\<lambda>p. \<not> is_leader p" schedule] by (rule le_less_trans[rotated])
  then have "handed ?lt = blobs" "handed ?wt = blobs"
    using sr.handed_all[OF _ dry(1)] pr.handed_all[OF _ dry(2)] by simp_all
  then show ?thesis
    by (simp add: mset_handed_partition[of trace "\<lambda>c. is_leader (fst c)"] lt wt)
qed

theorem leader_repeats_blobs_witness:
  "\<exists>trace. gather_calls id [(''a.parquet'', ''1'')] [Worker 0, Leader, Worker 0, Leader] = Ok trace
    \<and> mset (handed trace) = {# (''a.parquet'', ''1''), (''a.parquet'', ''1'') #}"
proof -
  let ?t = "[(Worker 0, Some (''a.parquet'', ''1'')), (Leader, Some (''a.parquet'', ''1'')), (Worker 0, None), (Leader, None)]"
  have "utf8_valid ''a.parquet''" "utf8_valid ''1''"
    by code_simp+
  then have s: "list_all storable [(''a.parquet'', ''1'')]"
    by (simp add: storable_def)
  have "gather_calls id [(''a.parquet'', ''1'')] [Worker 0, Leader, Worker 0, Leader] = Ok ?t"
    using s by (simp add: gather_calls_ok gather_next_def sequential_next_blob_def parallel_next_blob_def nth_opt_def)
  then show ?thesis
    using leader_repeats_blobs[OF s, of "[Worker 0, Leader, Worker 0, Leader]" id ?t 0] by simp
qed

text \<open>C29: reading a segment stays inside it.  Whatever the header and the bytes say, as long as the
  segment holds the number of payload bytes its header declares, no copy leaves it: the result is the
  list, or one of the reported errors.\<close>

theorem dsm_deserialize_inside:
  assumes "total_payload_bytes seg \<le> length (payload seg)"
  shows "dsm_deserialize_blobs ue seg \<noteq> Err outside"
  using dsm_read_entries_inside[OF assms] by (simp add: dsm_deserialize_blobs_def outside_def)

theorem dsm_deserialize_inside_witness:
  "dsm_deserialize_blobs id \<lparr> cursor = 0, n_blobs = 1, total_payload_bytes = 9, payload = u32_to_le 7 @ u32_to_le 0 @ ''x'' \<rparr>
    \<noteq> Err outside"
  by (rule dsm_deserialize_inside) simp

section \<open>The planner's gate\<close>

lemma partial_path_implies_safe:
  assumes "partial_path_workers cmd table cap = Some n"
  shows "is_foreign_scan_parallel_safe cmd (Some table)" and "1 \<le> n"
  using assms by (auto simp: partial_path_workers_def is_foreign_scan_parallel_safe_def Let_def split: if_splits)

lemma safe_is_select: "is_foreign_scan_parallel_safe cmd rte \<Longrightarrow> cmd = Some CMD_SELECT"
  by (auto simp: is_foreign_scan_parallel_safe_def split: option.splits if_splits)

end
