(* ===== verification/Scan_Handoff.thy ===== *)
theory Scan_Handoff
  imports Parallel
begin

text \<open>
  \<^verbatim>\<open>src/fdw/modify/scan_handoff.rs\<close>: the backend-local stacks, one per relation, through which a scan
  hands its blob list, with the ETags it saw, to the modify path.  The map is the thread-local state;
  a stack is a list with its top at the end, as the \<^verbatim>\<open>Vec\<close> has it.
\<close>

type_synonym handoff = "nat \<Rightarrow> blob_ref list list option"

definition publish :: "nat \<Rightarrow> blob_ref list \<Rightarrow> handoff \<Rightarrow> handoff" where
  "publish relid blobs h = h(relid \<mapsto> (case h relid of None \<Rightarrow> [] | Some entry \<Rightarrow> entry) @ [blobs])"

text \<open>Popping the stack of a relation; an emptied stack is removed from the map.\<close>

definition pop_entry :: "nat \<Rightarrow> blob_ref list list \<Rightarrow> handoff \<Rightarrow> blob_ref list option \<times> handoff" where
  "pop_entry relid entry h =
    (let v = (if entry = [] then None else Some (last entry)); rest = butlast entry
     in (v, h(relid := (if rest = [] then None else Some rest))))"

definition take_handoff :: "nat \<Rightarrow> handoff \<Rightarrow> blob_ref list option \<times> handoff" where
  "take_handoff relid h = (case h relid of None \<Rightarrow> (None, h) | Some entry \<Rightarrow> pop_entry relid entry h)"

definition stacked_count :: "nat \<Rightarrow> handoff \<Rightarrow> nat" where
  "stacked_count relid h = (case h relid of None \<Rightarrow> 0 | Some entry \<Rightarrow> length entry)"

definition ambiguous_handoff :: "nat \<Rightarrow> nat \<Rightarrow> fdw_error" where
  "ambiguous_handoff relid n = SchemaMismatch
    (''ambiguous scan_handoff for relid '' @ show_nat relid @ '': '' @ show_nat n
     @ '' concurrent scans of the same foreign table in one statement (e.g. a self-referential UPDATE). ''
     @ ''v1 does not yet match the modify subtree to its driving scan; ''
     @ ''rewrite the query so the source rows come from a non-foreign ''
     @ ''source (CTE, materialised subquery) or use two distinct foreign ''
     @ ''tables over the same data'')"

definition take_unique :: "nat \<Rightarrow> handoff \<Rightarrow> blob_ref list option fdw_result \<times> handoff" where
  "take_unique relid h =
    (case h relid of
       None \<Rightarrow> (Ok None, h)
     | Some entry \<Rightarrow>
         if length entry > 1 then (Err (ambiguous_handoff relid (length entry)), h(relid := None))
         else (case pop_entry relid entry h of (v, h') \<Rightarrow> (Ok v, h')))"

definition discard :: "nat \<Rightarrow> handoff \<Rightarrow> handoff" where
  "discard relid h = (case h relid of None \<Rightarrow> h | Some entry \<Rightarrow> snd (pop_entry relid entry h))"

section \<open>Lemmas\<close>

text \<open>No stack in the map is empty.\<close>

definition handoff_ok :: "handoff \<Rightarrow> bool" where
  "handoff_ok h \<longleftrightarrow> (\<forall>relid. h relid \<noteq> Some [])"

lemma handoff_ok_steps:
  assumes "handoff_ok h"
  shows "handoff_ok (publish relid blobs h)" "handoff_ok (snd (take_handoff relid h))"
    "handoff_ok (snd (take_unique relid h))" "handoff_ok (discard relid h)"
  using assms
  by (auto simp: handoff_ok_def publish_def take_handoff_def take_unique_def discard_def pop_entry_def Let_def
      split: option.splits)

lemma other_relations:
  assumes "r \<noteq> relid"
  shows "publish relid blobs h r = h r" "snd (take_unique relid h) r = h r" "discard relid h r = h r"
  using assms by (auto simp: publish_def take_unique_def discard_def pop_entry_def Let_def split: option.splits)

lemma take_unique_Some:
  assumes "take_unique relid h = (Ok (Some blobs), h')"
  shows "h relid = Some [blobs]" and "h' = h(relid := None)"
proof -
  obtain entry where e: "h relid = Some entry" "length entry \<le> 1" "entry \<noteq> []" "blobs = last entry"
    "h' = h(relid := (if butlast entry = [] then None else Some (butlast entry)))"
    using assms by (auto simp: take_unique_def pop_entry_def Let_def split: option.splits if_splits)
  then obtain x where "entry = [x]" by (cases entry) auto
  then show "h relid = Some [blobs]" "h' = h(relid := None)" using e by simp_all
qed

lemma publish_take_unique:
  assumes "h relid = None"
  shows "take_unique relid (publish relid blobs h) = (Ok (Some blobs), h)"
  using assms by (simp add: take_unique_def publish_def pop_entry_def fun_upd_idem)

lemma publish_discard:
  assumes "handoff_ok h"
  shows "discard relid (publish relid blobs h) = h"
  using assms by (auto simp: discard_def publish_def pop_entry_def Let_def fun_upd_idem handoff_ok_def split: option.splits)

text \<open>An entry left behind by a statement that ended in an error makes the next UPDATE or DELETE of the
  relation fail, whose own scan is the only one in its statement.\<close>

lemma leftover_entry_refuses:
  assumes "h relid = Some [old]"
  shows "take_unique relid (publish relid blobs h) = (Err (ambiguous_handoff relid 2), h(relid := None))"
  using assms by (simp add: take_unique_def publish_def numeral_2_eq_2)

end
