(* ===== verification/Scan.thy ===== *)
theory Scan
  imports Insert Multifile Glob Pushdown_Walk Commit Parallel Scan_Handoff
begin

text \<open>
  \<^verbatim>\<open>src/fdw/scan.rs\<close>: setting up a foreign scan (listing, projection, pushed quals, list-time pruning,
  sorted mode), the loop that finds the next row across batches and blobs, and the callbacks that hand
  a row to the executor with a synthetic ctid.

  The executor's node is the record \<open>scan_node\<close>: the columns of the relation, the plan with its
  \<^verbatim>\<open>fdw_private\<close> list and quals, and the command.  The parquet crate's reader is the record
  \<open>parquet_reader\<close>: opening a blob, its metadata and schema, and building the stream of batches for a
  choice of row groups, columns and row predicates.  The blob service is a parameter per client.

  The loop of \<^verbatim>\<open>next_row\<close> is a \<open>partial_function\<close>: that it returns is a theorem.
\<close>

section \<open>Listing the blobs\<close>

definition glob_source_list ::
  "'s blob_service \<Rightarrow> glob_pattern \<Rightarrow> 's \<Rightarrow> blob_ref list fdw_result \<times> 's" where
  "glob_source_list svc g s =
    st_then (list_with_prefix_etags svc (prefix g) s) (\<lambda>listed s'.
    (Ok (sort_key fst (filter (\<lambda>(name, _). regex g name) listed)), s'))"

definition head_etag_source_list :: "'s blob_service \<Rightarrow> string \<Rightarrow> 's \<Rightarrow> blob_ref list fdw_result \<times> 's" where
  "head_etag_source_list svc name s =
    st_then (head_etag svc name s) (\<lambda>etag s'. (Ok [(name, etag)], s'))"

definition plan_source_list ::
  "(string \<Rightarrow> string + regex) \<Rightarrow> 's blob_service \<Rightarrow> string \<Rightarrow> 's \<Rightarrow> blob_ref list fdw_result \<times> 's" where
  "plan_source_list regex_new svc pattern s =
    (if CHR ''*'' \<notin> set pattern \<and> CHR ''?'' \<notin> set pattern then head_etag_source_list svc pattern s
     else (case parse_glob regex_new pattern of
             Inl e \<Rightarrow> (Err e, s)
           | Inr g \<Rightarrow> glob_source_list svc g s))"

section \<open>Columns and projection\<close>

fun scan_oids :: "pg_attribute list \<Rightarrow> nat list fdw_result" where
  "scan_oids [] = Ok []"
| "scan_oids (att # atts) =
    (if attisdropped att then Err (SchemaMismatch
       (''dropped column at attnum '' @ show_int (attnum att) @ '' not supported''))
     else and_then (scan_oids atts) (\<lambda>oids. Ok (atttypid att # oids)))"

text \<open>The parquet index of each column: storage columns are numbered in order, partition columns have
  none.\<close>

fun storage_map :: "nat list \<Rightarrow> nat \<Rightarrow> nat \<Rightarrow> nat \<Rightarrow> nat option list" where
  "storage_map part i next 0 = []"
| "storage_map part i next (Suc n) =
    (if i \<in> set part then None # storage_map part (i + 1) next n
     else Some next # storage_map part (i + 1) (next + 1) n)"

text \<open>Planning: the attribute numbers of the target list and of the quals at the scan, as
  \<^verbatim>\<open>pull_varattnos\<close> collects them; \<^verbatim>\<open>bms_next_member\<close> gives them in ascending order.\<close>

definition build_projection_intlist :: "int set \<Rightarrow> int set list \<Rightarrow> int list" where
  "build_projection_intlist target quals =
    (let attnums = filter (\<lambda>a. a \<ge> 1) (sorted_list_of_set (target \<union> \<Union> (set quals)))
     in if attnums = [] then [1] else attnums)"

definition plan_fdw_private :: "cmd_type option \<Rightarrow> int set \<Rightarrow> int set list \<Rightarrow> int list option" where
  "plan_fdw_private cmd target quals =
    (if cmd = Some CMD_SELECT then Some (build_projection_intlist target quals) else None)"

definition decode_projection :: "nat \<Rightarrow> int list option \<Rightarrow> nat list fdw_result" where
  "decode_projection natts fdw_private =
    (case fdw_private of
       None \<Rightarrow> Ok [0..<natts]
     | Some l \<Rightarrow>
         try_map (\<lambda>a. if 0 \<le> a - 1 \<and> a - 1 < int natts then Ok (nat (a - 1))
           else Err (SchemaMismatch (''projected attnum '' @ show_int a @ '' out of range (natts='' @ show_nat natts @ '')'')))
           (if l = [] then [1] else l))"

section \<open>The state of a scan\<close>

record scan_plan =
  fdw_private :: "int list option"
  plan_qual :: "pg_node list option"

record scan_node =
  sn_tupdesc :: "pg_attribute list"
  sn_plan :: "scan_plan option"
  sn_cmd :: "cmd_type option"

record 'c scan_core =
  core_client :: "'c azure_client"
  core_blobs :: "blob_ref list"
  core_oids :: "nat list"
  core_projection :: "nat list"
  core_attno_map :: "nat list"
  core_quals :: "pushed_expr list option"
  core_table_opts :: table_options
  core_part :: "nat list"
  core_keys :: partition_decl
  core_storage :: "nat option list"

record ('c, 'p) scan_state =
  sc_client :: "'c azure_client"
  sc_blobs :: "blob_ref list"
  sc_cur_blob :: nat
  sc_cur_stream :: "parquet_stream option"
  sc_cur_batch :: "record_batch option"
  sc_cur_row :: nat
  sc_oids :: "nat list"
  sc_projection :: "nat list"
  sc_attno_map :: "nat list"
  sc_quals :: "pushed_expr list option"
  sc_producer :: 'p
  sc_table_opts :: table_options
  sc_table :: "blob_id_entry list"
  sc_base :: "32 word"
  sc_row_in_blob :: nat
  sc_part :: "nat list"
  sc_keys :: partition_decl
  sc_storage :: "nat option list"
  sc_datums :: "pg_datum list"
  sc_sorted :: "merger option"
  sc_notices :: "string list"

section \<open>Setting up a scan\<close>

text \<open>List-time pruning keeps a blob whose path does not parse: the scan skips it with a notice.\<close>

definition keep_listed ::
  "convert_lib \<Rightarrow> pushed_expr list \<Rightarrow> nat list \<Rightarrow> partition_decl \<Rightarrow> blob_ref \<Rightarrow> bool fdw_result" where
  "keep_listed C quals part keys b =
    (case partition_values_from_path (fst b) keys of
       Inl _ \<Rightarrow> Ok True
     | Inr parsed \<Rightarrow> evaluate_partition_quals_against_blob C quals part parsed keys)"

fun prune_listed ::
  "convert_lib \<Rightarrow> pushed_expr list \<Rightarrow> nat list \<Rightarrow> partition_decl \<Rightarrow> blob_ref list \<Rightarrow> blob_ref list fdw_result" where
  "prune_listed C quals part keys [] = Ok []"
| "prune_listed C quals part keys (b # bs) =
    and_then (keep_listed C quals part keys b) (\<lambda>keep.
    and_then (prune_listed C quals part keys bs) (\<lambda>rest. Ok (if keep then b # rest else rest)))"

definition scan_quals :: "server_options \<Rightarrow> scan_node \<Rightarrow> pushed_expr list" where
  "scan_quals server node =
    (if enable_pushdown server then (case sn_plan node of None \<Rightarrow> [] | Some p \<Rightarrow> walk_quals (plan_qual p)) else [])"

definition build_scan_state_core ::
  "('tok, 'url, 'c) azure_sdk \<Rightarrow> ('c azure_client \<Rightarrow> 's blob_service) \<Rightarrow> (string \<Rightarrow> string + regex) \<Rightarrow> convert_lib
    \<Rightarrow> foreign_catalog \<Rightarrow> scan_node \<Rightarrow> nat \<Rightarrow> 's \<Rightarrow> 'c scan_core fdw_result \<times> 's" where
  "build_scan_state_core sdk svc regex_new C cat node relid s =
    (case read_all_options (url_host sdk) cat relid of
       Inl e \<Rightarrow> (Err e, s)
     | Inr (server_opts, um_opts, table_opts) \<Rightarrow>
    (case connect sdk server_opts um_opts (container table_opts) of
       Inl e \<Rightarrow> (Err e, s)
     | Inr client \<Rightarrow>
    st_then (plan_source_list regex_new (svc client) (filename table_opts) s) (\<lambda>listed s'.
    (and_then (scan_oids (sn_tupdesc node)) (\<lambda>oids.
     and_then (resolve_partitions (sn_tupdesc node) (partition_columns table_opts)) (\<lambda>part.
     let storage = storage_map part 0 0 (length oids); keys = partition_keys table_opts;
         private = (case sn_plan node of None \<Rightarrow> None | Some p \<Rightarrow> fdw_private p) in
     and_then (decode_projection (length oids) private) (\<lambda>idxs.
     let (partition_quals, storage_raw) = split_quals_by_target (scan_quals server_opts node) part in
     and_then (if partition_quals = [] \<or> keys = [] then Ok listed
               else prune_listed C partition_quals part keys listed) (\<lambda>blobs.
     let storage_quals = List.map_filter (translate_qual_to_parquet_idx storage) storage_raw in
     Ok \<lparr> core_client = client, core_blobs = blobs, core_oids = oids, core_projection = idxs, core_attno_map = idxs,
          core_quals = (if storage_quals = [] then None else Some storage_quals), core_table_opts = table_opts,
          core_part = part, core_keys = keys, core_storage = storage \<rparr>)))), s'))))"

definition assemble_scan_state :: "'c scan_core \<Rightarrow> 'p \<Rightarrow> ('c, 'p) scan_state" where
  "assemble_scan_state core producer =
    \<lparr> sc_client = core_client core, sc_blobs = core_blobs core, sc_cur_blob = 0, sc_cur_stream = None,
      sc_cur_batch = None, sc_cur_row = 0, sc_oids = core_oids core, sc_projection = core_projection core,
      sc_attno_map = core_attno_map core, sc_quals = core_quals core, sc_producer = producer,
      sc_table_opts = core_table_opts core, sc_table = [], sc_base = 0, sc_row_in_blob = 0, sc_part = core_part core,
      sc_keys = core_keys core, sc_storage = core_storage core, sc_datums = [], sc_sorted = None, sc_notices = [] \<rparr>"

section \<open>Opening a blob\<close>

record 'f parquet_reader =
  rd_new :: "string \<Rightarrow> string + 'f"
  rd_meta :: "'f \<Rightarrow> row_group list"
  rd_meta_schema :: "'f \<Rightarrow> string + schema"
  rd_schema :: "'f \<Rightarrow> schema"
  rd_build :: "'f \<Rightarrow> nat list option \<Rightarrow> nat list option \<Rightarrow> predicate list option \<Rightarrow> string + parquet_stream"

record read_options =
  ro_projection :: "nat list option"
  ro_row_filter :: "predicate list option"

definition open_stream :: "'f parquet_reader \<Rightarrow> string \<Rightarrow> read_options \<Rightarrow> parquet_stream fdw_result" where
  "open_stream R blob opts =
    and_then (pq_result (rd_new R blob)) (\<lambda>b. pq_result (rd_build R b None (ro_projection opts) (ro_row_filter opts)))"

definition qual_row_filter :: "arrow_cmp \<Rightarrow> pushed_expr list \<Rightarrow> predicate list option" where
  "qual_row_filter K exprs = (if exprs = [] then None else build_row_filter K exprs)"

definition keep_row_groups :: "pushed_expr list \<Rightarrow> 'f parquet_reader \<Rightarrow> 'f \<Rightarrow> nat list option fdw_result" where
  "keep_row_groups exprs R b =
    (if exprs = [] then Ok None
     else (case rd_meta_schema R b of
             Inl _ \<Rightarrow> Ok None
           | Inr sch \<Rightarrow> prune_row_groups (rd_meta R b) exprs sch))"

definition open_scan_stream ::
  "arrow_cmp \<Rightarrow> 'f parquet_reader \<Rightarrow> nat list \<Rightarrow> pushed_expr list option \<Rightarrow> string \<Rightarrow> parquet_stream fdw_result" where
  "open_scan_stream K R projection quals blob =
    (case quals of
       None \<Rightarrow> open_stream R blob \<lparr> ro_projection = Some projection, ro_row_filter = None \<rparr>
     | Some exprs \<Rightarrow>
         and_then (pq_result (rd_new R blob)) (\<lambda>b.
         and_then (keep_row_groups exprs R b) (\<lambda>keep.
         pq_result (rd_build R b keep (Some projection) (qual_row_filter K exprs)))))"

text \<open>The partition values of a blob: its datums, or the notice with which it is skipped.\<close>

fun cast_partitions ::
  "convert_lib \<Rightarrow> string \<Rightarrow> (string \<rightharpoonup> string) \<Rightarrow> partition_decl \<Rightarrow> (string + pg_datum list) fdw_result" where
  "cast_partitions C blob parsed [] = Ok (Inr [])"
| "cast_partitions C blob parsed ((key, ty) # keys) =
    (case parsed key of
       None \<Rightarrow> Err (Panic ''partition_values_from_path validated presence'')
     | Some raw \<Rightarrow>
         (case parse_text_to_datum C ty raw of
            Inl e \<Rightarrow> Ok (Inl (''skipping blob '' @ quoted blob @ '': partition cast failed for '' @ quoted key @ '': '' @ error_to_string e))
          | Inr d \<Rightarrow> and_then (cast_partitions C blob parsed keys) (\<lambda>r. Ok (map_sum id (Cons d) r))))"

definition partition_datums ::
  "convert_lib \<Rightarrow> string \<Rightarrow> partition_decl \<Rightarrow> (string + pg_datum list) fdw_result" where
  "partition_datums C blob keys =
    (case partition_values_from_path blob keys of
       Inl e \<Rightarrow> Ok (Inl (''skipping blob '' @ quoted blob @ '': '' @ error_to_string e))
     | Inr parsed \<Rightarrow> cast_partitions C blob parsed keys)"

section \<open>The next row\<close>

datatype 'a flow = Continue | Return 'a

type_synonym row_ref = "record_batch \<times> nat"

definition open_next_blob ::
  "arrow_cmp \<Rightarrow> 'f parquet_reader \<Rightarrow> blob_ref \<Rightarrow> ('c, 'p) scan_state \<Rightarrow> row_ref option fdw_result flow \<times> ('c, 'p) scan_state" where
  "open_next_blob K R b st =
    (let st1 = st \<lparr> sc_base := of_nat (length (sc_table st)),
                    sc_table := sc_table st @ [\<lparr> be_name = fst b, chunk_base_row = 0, be_etag = snd b \<rparr>],
                    sc_row_in_blob := 0 \<rparr> in
     (case open_scan_stream K R (sc_projection st) (sc_quals st) (fst b) of
        Inl e \<Rightarrow> (Return (Err e), st1)
      | Inr stream \<Rightarrow> (Continue, st1 \<lparr> sc_cur_stream := Some stream \<rparr>)))"

definition advance_blob ::
  "arrow_cmp \<Rightarrow> convert_lib \<Rightarrow> 'f parquet_reader \<Rightarrow> ('p \<Rightarrow> blob_ref option \<times> 'p) \<Rightarrow> ('c, 'p) scan_state
    \<Rightarrow> row_ref option fdw_result flow \<times> ('c, 'p) scan_state" where
  "advance_blob K C R next_blob st =
    (case next_blob (sc_producer st) of
       (None, p) \<Rightarrow> (Return (Ok None), st \<lparr> sc_producer := p \<rparr>)
     | (Some b, p) \<Rightarrow>
         (let st1 = st \<lparr> sc_producer := p \<rparr> in
          if sc_keys st = [] then open_next_blob K R b st1
          else (case partition_datums C (fst b) (sc_keys st) of
                  Inl e \<Rightarrow> (Return (Err e), st1)
                | Inr (Inl msg) \<Rightarrow> (Continue, st1 \<lparr> sc_notices := sc_notices st1 @ [msg] \<rparr>)
                | Inr (Inr datums) \<Rightarrow> open_next_blob K R b (st1 \<lparr> sc_datums := datums \<rparr>))))"

definition pull_batch ::
  "arrow_cmp \<Rightarrow> convert_lib \<Rightarrow> 'f parquet_reader \<Rightarrow> ('p \<Rightarrow> blob_ref option \<times> 'p) \<Rightarrow> ('c, 'p) scan_state
    \<Rightarrow> row_ref option fdw_result flow \<times> ('c, 'p) scan_state" where
  "pull_batch K C R next_blob st =
    (case sc_cur_stream st of
       Some (Inr batch # rest) \<Rightarrow> (Continue, st \<lparr> sc_cur_stream := Some rest, sc_cur_batch := Some batch \<rparr>)
     | Some (Inl e # rest) \<Rightarrow> (Return (Err (Parquet e)), st \<lparr> sc_cur_stream := Some rest \<rparr>)
     | Some [] \<Rightarrow> (Continue, st \<lparr> sc_cur_stream := None, sc_cur_blob := sc_cur_blob st + 1 \<rparr>)
     | None \<Rightarrow> advance_blob K C R next_blob st)"

text \<open>One turn of the loop.\<close>

definition scan_step ::
  "arrow_cmp \<Rightarrow> convert_lib \<Rightarrow> 'f parquet_reader \<Rightarrow> ('p \<Rightarrow> blob_ref option \<times> 'p) \<Rightarrow> ('c, 'p) scan_state
    \<Rightarrow> row_ref option fdw_result flow \<times> ('c, 'p) scan_state" where
  "scan_step K C R next_blob st =
    (case sc_cur_batch st of
       Some batch \<Rightarrow>
         if sc_cur_row st < num_rows batch
         then (Return (Ok (Some (batch, sc_cur_row st))), st \<lparr> sc_cur_row := sc_cur_row st + 1 \<rparr>)
         else pull_batch K C R next_blob (st \<lparr> sc_cur_batch := None, sc_cur_row := 0 \<rparr>)
     | None \<Rightarrow> pull_batch K C R next_blob st)"

partial_function (option) scan_loop ::
  "arrow_cmp \<Rightarrow> convert_lib \<Rightarrow> 'f parquet_reader \<Rightarrow> ('p \<Rightarrow> blob_ref option \<times> 'p) \<Rightarrow> ('c, 'p) scan_state
    \<Rightarrow> (row_ref option fdw_result \<times> ('c, 'p) scan_state) option" where
  "scan_loop K C R next_blob st =
    (case scan_step K C R next_blob st of
       (Continue, st') \<Rightarrow> scan_loop K C R next_blob st'
     | (Return r, st') \<Rightarrow> Some (r, st'))"

definition scan_next_row ::
  "debug_fmt \<Rightarrow> arrow_cmp \<Rightarrow> convert_lib \<Rightarrow> 'f parquet_reader \<Rightarrow> ('p \<Rightarrow> blob_ref option \<times> 'p) \<Rightarrow> ('c, 'p) scan_state
    \<Rightarrow> (row_ref option fdw_result \<times> ('c, 'p) scan_state) option" where
  "scan_next_row D K C R next_blob st =
    (case sc_sorted st of
       Some m \<Rightarrow>
         (case next_row D m of
            Inl e \<Rightarrow> Some (Err e, st)
          | Inr (r, m') \<Rightarrow> Some (Ok r, st \<lparr> sc_sorted := Some m' \<rparr>))
     | None \<Rightarrow> scan_loop K C R next_blob st)"

section \<open>Sorted mode\<close>

definition resolve_attno_by_name :: "pg_attribute list \<Rightarrow> string \<Rightarrow> nat fdw_result" where
  "resolve_attno_by_name atts name =
    ok_or (find_attr atts name) (SchemaMismatch (''column '' @ quoted name @ '' not found on foreign table''))"

definition check_sort_column :: "scan_node \<Rightarrow> nat list \<Rightarrow> string \<Rightarrow> unit fdw_result" where
  "check_sort_column node part name =
    and_then (resolve_attno_by_name (sn_tupdesc node) name) (\<lambda>attno.
    if attno \<in> set part then Err (SchemaMismatch (''sort column '' @ quoted name
      @ '' is a partition column; partition values are constant per blob''))
    else Ok ())"

definition sort_column_index :: "scan_node \<Rightarrow> nat option list \<Rightarrow> string \<Rightarrow> nat fdw_result" where
  "sort_column_index node storage name =
    and_then (resolve_attno_by_name (sn_tupdesc node) name) (\<lambda>attno.
    ok_or (if attno < length storage then storage ! attno else None)
      (SchemaMismatch (''sort column '' @ quoted name @ '' has no parquet index (storage_attno map miss)'')))"

text \<open>Opening one blob of the merge: the types of its sort columns and its stream of all columns.\<close>

definition open_sorted_blob ::
  "'f parquet_reader \<Rightarrow> nat list \<Rightarrow> string \<Rightarrow> (data_type list \<times> parquet_stream) fdw_result" where
  "open_sorted_blob R idxs blob =
    and_then (pq_result (rd_new R blob)) (\<lambda>b.
    let sch = rd_schema R b in
    and_then (try_map (\<lambda>i. if i \<ge> length sch then Err (SchemaMismatch (''sort column index '' @ show_nat i
        @ '' out of range for blob '' @ quoted blob @ '' (parquet has '' @ show_nat (length sch) @ '' columns)''))
      else Ok (field_type (sch ! i))) idxs) (\<lambda>types.
    and_then (pq_result (rd_build R b None None None)) (\<lambda>stream. Ok (types, stream))))"

fun same_sort_types :: "debug_fmt \<Rightarrow> string \<Rightarrow> nat list \<Rightarrow> data_type list \<Rightarrow> data_type list \<Rightarrow> unit fdw_result" where
  "same_sort_types D blob (i # idxs) (t # ts) (f # fs) =
    (if t \<noteq> f then Err (SchemaMismatch (''blob '' @ quoted blob @ '' disagrees on the type of sort column at parquet index ''
       @ show_nat i @ '': '' @ type_dbg D t @ '' vs '' @ type_dbg D f @ '' '' @ em_dash
       @ '' all merged blobs must share the same physical type''))
     else same_sort_types D blob idxs ts fs)"
| "same_sort_types D blob _ _ _ = Ok ()"

text \<open>The results are taken in blob order; the first blob's types must be those of every other.\<close>

fun open_sorted_blobs ::
  "debug_fmt \<Rightarrow> 'f parquet_reader \<Rightarrow> nat list \<Rightarrow> data_type list option \<Rightarrow> blob_ref list \<Rightarrow> parquet_stream list fdw_result" where
  "open_sorted_blobs D R idxs first [] = Ok []"
| "open_sorted_blobs D R idxs first (b # bs) =
    and_then (open_sorted_blob R idxs (fst b)) (\<lambda>(types, stream).
    and_then (case first of None \<Rightarrow> Ok () | Some ft \<Rightarrow> same_sort_types D (fst b) idxs types ft) (\<lambda>_.
    and_then (open_sorted_blobs D R idxs (Some (case first of None \<Rightarrow> types | Some ft \<Rightarrow> ft)) bs) (\<lambda>rest.
    Ok (stream # rest))))"

definition build_sorted_stream_if_active ::
  "bool \<Rightarrow> debug_fmt \<Rightarrow> 'f parquet_reader \<Rightarrow> scan_node \<Rightarrow> blob_ref list \<Rightarrow> table_options \<Rightarrow> nat list \<Rightarrow> nat option list
    \<Rightarrow> merger option fdw_result" where
  "build_sorted_stream_if_active enable_multifile D R node listed table_opts part storage =
    (if \<not> enable_multifile then Ok None
     else if sorted_cols table_opts = [] then Ok None
     else if sn_cmd node \<noteq> Some CMD_SELECT then Ok None
     else if part \<noteq> [] then Err (SchemaMismatch (''sorted merge is not supported on partitioned tables in v1; ''
       @ ''combine partition pruning OR sorted merge, not both''))
     else
      and_then (try_map (check_sort_column node part) (sorted_cols table_opts)) (\<lambda>_.
      if length listed > 256 then Err (SchemaMismatch (''sorted-merge cannot open '' @ show_nat (length listed)
        @ '' blobs at once (cap 256) '' @ em_dash @ '' narrow the filename glob or partition filter''))
      else
       and_then (try_map (sort_column_index node storage) (sorted_cols table_opts)) (\<lambda>idxs.
       and_then (open_sorted_blobs D R idxs None listed) (\<lambda>streams.
       and_then (merger_new D streams (map fst listed) idxs) (\<lambda>m. Ok (Some m))))))"

section \<open>The entry points\<close>

text \<open>The backend as the scan sees it: the store and the handoff stacks.\<close>

record 's scan_env =
  env_store :: 's
  env_handoff :: handoff

definition scan_build_state ::
  "bool \<Rightarrow> debug_fmt \<Rightarrow> ('tok, 'url, 'c) azure_sdk \<Rightarrow> ('c azure_client \<Rightarrow> 's blob_service) \<Rightarrow> ('c azure_client \<Rightarrow> 'f parquet_reader)
    \<Rightarrow> (string \<Rightarrow> string + regex) \<Rightarrow> convert_lib \<Rightarrow> foreign_catalog \<Rightarrow> scan_node \<Rightarrow> nat \<Rightarrow> 's scan_env
    \<Rightarrow> ('c, sequential_ranges) scan_state fdw_result \<times> 's scan_env" where
  "scan_build_state enable_multifile D sdk svc R regex_new C cat node relid env =
    (case build_scan_state_core sdk svc regex_new C cat node relid (env_store env) of
       (Inl e, s) \<Rightarrow> (Err e, env \<lparr> env_store := s \<rparr>)
     | (Inr core, s) \<Rightarrow>
         (let env1 = env \<lparr> env_store := s, env_handoff := publish relid (core_blobs core) (env_handoff env) \<rparr> in
          (case build_sorted_stream_if_active enable_multifile D (R (core_client core)) node (core_blobs core)
                  (core_table_opts core) (core_part core) (core_storage core) of
             Inl e \<Rightarrow> (Err e, env1)
           | Inr merge \<Rightarrow>
               (let core1 = (if merge \<noteq> None
                     then core \<lparr> core_projection := [0..<length (core_oids core)], core_attno_map := [0..<length (core_oids core)] \<rparr>
                     else core) in
                (Ok ((assemble_scan_state core1 (sequential_over (core_blobs core))) \<lparr> sc_sorted := merge \<rparr>), env1)))))"

definition build_state_for_parallel_worker ::
  "('tok, 'url, 'c) azure_sdk \<Rightarrow> ('c azure_client \<Rightarrow> 's blob_service) \<Rightarrow> (string \<Rightarrow> string + regex) \<Rightarrow> convert_lib
    \<Rightarrow> foreign_catalog \<Rightarrow> scan_node \<Rightarrow> nat \<Rightarrow> 'p \<Rightarrow> 's \<Rightarrow> ('c, 'p) scan_state fdw_result \<times> 's" where
  "build_state_for_parallel_worker sdk svc regex_new C cat node relid producer s =
    st_then (build_scan_state_core sdk svc regex_new C cat node relid s) (\<lambda>core s'.
    (Ok (assemble_scan_state core producer), s'))"

definition begin_foreign_scan ::
  "bool \<Rightarrow> debug_fmt \<Rightarrow> ('tok, 'url, 'c) azure_sdk \<Rightarrow> ('c azure_client \<Rightarrow> 's blob_service) \<Rightarrow> ('c azure_client \<Rightarrow> 'f parquet_reader)
    \<Rightarrow> (string \<Rightarrow> string + regex) \<Rightarrow> convert_lib \<Rightarrow> foreign_catalog \<Rightarrow> scan_node \<Rightarrow> nat \<Rightarrow> bool \<Rightarrow> int \<Rightarrow> 's scan_env
    \<Rightarrow> ('c, sequential_ranges) scan_state option fdw_result \<times> 's scan_env" where
  "begin_foreign_scan enable_multifile D sdk svc R regex_new C cat node relid explain_only worker_number env =
    (if explain_only then (Ok None, env)
     else if worker_number \<ge> 0 then (Ok None, env)
     else st_then (scan_build_state enable_multifile D sdk svc R regex_new C cat node relid env) (\<lambda>st env'. (Ok (Some st), env')))"

text \<open>\<open>rel\<close> is the relation of the node, when it has one.\<close>

definition re_scan_foreign_scan ::
  "bool \<Rightarrow> debug_fmt \<Rightarrow> 'f parquet_reader \<Rightarrow> scan_node \<Rightarrow> nat option \<Rightarrow> ('c, sequential_ranges) scan_state \<Rightarrow> handoff
    \<Rightarrow> ('c, sequential_ranges) scan_state fdw_result \<times> handoff" where
  "re_scan_foreign_scan enable_multifile D R node rel st h =
    (let st1 = st \<lparr> sc_cur_stream := None, sc_cur_batch := None, sc_cur_row := 0, sc_cur_blob := 0, sc_table := [],
                    sc_base := 0, sc_row_in_blob := 0, sc_producer := sequential_over (sc_blobs st) \<rparr> in
     (case (if sc_sorted st1 \<noteq> None
            then build_sorted_stream_if_active enable_multifile D R node (sc_blobs st1) (sc_table_opts st1) (sc_part st1) (sc_storage st1)
            else Ok (sc_sorted st1)) of
        Inl e \<Rightarrow> (Err e, h)
      | Inr merge \<Rightarrow>
          (Ok (st1 \<lparr> sc_sorted := merge \<rparr>),
           (case rel of None \<Rightarrow> h | Some relid \<Rightarrow> publish relid (sc_blobs st1) (discard relid h)))))"

definition end_foreign_scan ::
  "nat option \<Rightarrow> ('c, 'p) scan_state option \<Rightarrow> handoff \<Rightarrow> ('c, 'p) scan_state option \<times> handoff" where
  "end_foreign_scan rel fdw_state h =
    (case fdw_state of
       None \<Rightarrow> (None, h)
     | Some _ \<Rightarrow> (None, case rel of None \<Rightarrow> h | Some relid \<Rightarrow> discard relid h))"

section \<open>Handing a row to the executor\<close>

definition register_chunk_if_boundary ::
  "blob_id_entry list \<Rightarrow> 32 word \<Rightarrow> nat \<Rightarrow> blob_id_entry list fdw_result" where
  "register_chunk_if_boundary tab base row =
    (if row = 0 then Ok tab
     else if row mod chunk_rows \<noteq> 0 then Ok tab
     else
      (let base_idx = unat base; expected_entries = base_idx + row div chunk_rows + 1 in
       if length tab \<ge> expected_entries then Ok tab
       else if base_idx < length tab
       then Ok (tab @ [\<lparr> be_name = be_name (tab ! base_idx), chunk_base_row = row, be_etag = be_etag (tab ! base_idx) \<rparr>])
       else Err (Panic ''index out of bounds'')))"

record tuple_slot =
  tts_values :: "pg_datum option list"
  tts_tid :: "item_pointer option"

fun fill_columns ::
  "convert_lib \<Rightarrow> nat list \<Rightarrow> record_batch \<Rightarrow> nat \<Rightarrow> nat \<Rightarrow> nat list \<Rightarrow> pg_datum option list \<Rightarrow> pg_datum option list fdw_result" where
  "fill_columns C oids batch row k [] vals = Ok vals"
| "fill_columns C oids batch row k (rel_col # cols) vals =
    (if rel_col \<ge> length oids then Err (SchemaMismatch (''attno_map['' @ show_nat k @ ''] = '' @ show_nat rel_col
       @ '' >= natts '' @ show_nat (length oids)))
     else if k \<ge> length (columns batch) then Err (Panic ''index out of bounds'')
     else
      and_then (arrow_value_to_datum C (columns batch ! k) row (oids ! rel_col)) (\<lambda>d.
      fill_columns C oids batch row (k + 1) cols (vals[rel_col := d])))"

definition inject_partitions :: "nat \<Rightarrow> nat list \<Rightarrow> pg_datum list \<Rightarrow> pg_datum option list \<Rightarrow> pg_datum option list" where
  "inject_partitions natts part datums vals =
    foldl (\<lambda>v (attno, d). if attno \<ge> natts then v else v[attno := Some d]) vals (zip part datums)"

text \<open>\<open>old\<close> is what the executor's slot holds before the call.\<close>

definition fill_slot ::
  "convert_lib \<Rightarrow> ('c, 'p) scan_state \<Rightarrow> record_batch \<Rightarrow> nat \<Rightarrow> pg_datum option list \<Rightarrow> pg_datum option list fdw_result" where
  "fill_slot C st batch row old =
    (let natts = length (sc_oids st);
         start = (if length (sc_attno_map st) < natts then replicate natts None else old) in
     and_then (fill_columns C (sc_oids st) batch row 0 (sc_attno_map st) start) (\<lambda>vals.
     Ok (inject_partitions natts (sc_part st) (sc_datums st) vals)))"

definition emit_row ::
  "convert_lib \<Rightarrow> record_batch \<Rightarrow> nat \<Rightarrow> pg_datum option list \<Rightarrow> ('c, 'p) scan_state
    \<Rightarrow> (tuple_slot \<times> ('c, 'p) scan_state) fdw_result" where
  "emit_row C batch row old st =
    and_then (if sc_sorted st = None then register_chunk_if_boundary (sc_table st) (sc_base st) (sc_row_in_blob st)
              else Ok (sc_table st)) (\<lambda>tab.
    and_then (fill_slot C st batch row old) (\<lambda>vals.
    Ok (\<lparr> tts_values = vals,
          tts_tid = (if sc_sorted st = None then Some (to_ctid (from_absolute (sc_base st) (of_nat (sc_row_in_blob st)))) else None) \<rparr>,
        st \<lparr> sc_table := tab, sc_row_in_blob := sc_row_in_blob st + 1 \<rparr>)))"

text \<open>The outer option is \<open>None\<close> when the call does not return.\<close>

definition iterate_foreign_scan ::
  "debug_fmt \<Rightarrow> arrow_cmp \<Rightarrow> convert_lib \<Rightarrow> 'f parquet_reader \<Rightarrow> ('p \<Rightarrow> blob_ref option \<times> 'p) \<Rightarrow> pg_datum option list
    \<Rightarrow> ('c, 'p) scan_state \<Rightarrow> (tuple_slot option \<times> ('c, 'p) scan_state) fdw_result option" where
  "iterate_foreign_scan D K C R next_blob old st =
    map_option (\<lambda>(r, st').
      and_then r (\<lambda>row.
      (case row of
         None \<Rightarrow> Ok (None, st')
       | Some (batch, i) \<Rightarrow> and_then (emit_row C batch i old st') (\<lambda>(tup, st''). Ok (Some tup, st'')))))
     (scan_next_row D K C R next_blob st)"

text \<open>The executor's calls, one per element of \<open>olds\<close>, until the scan reports its end: the tuples it is
  given.\<close>

fun scan_run ::
  "debug_fmt \<Rightarrow> arrow_cmp \<Rightarrow> convert_lib \<Rightarrow> 'f parquet_reader \<Rightarrow> ('p \<Rightarrow> blob_ref option \<times> 'p) \<Rightarrow> pg_datum option list list
    \<Rightarrow> ('c, 'p) scan_state \<Rightarrow> tuple_slot list fdw_result option" where
  "scan_run D K C R next_blob [] st = Some (Ok [])"
| "scan_run D K C R next_blob (old # olds) st =
    Option.bind (iterate_foreign_scan D K C R next_blob old st) (\<lambda>r.
    (case r of
       Inl e \<Rightarrow> Some (Err e)
     | Inr (None, _) \<Rightarrow> Some (Ok [])
     | Inr (Some tup, st') \<Rightarrow>
         map_option (\<lambda>rest. and_then rest (\<lambda>tups. Ok (tup # tups))) (scan_run D K C R next_blob olds st')))"

section \<open>The loop returns\<close>

definition stream_left :: "('c, 'p) scan_state \<Rightarrow> nat" where
  "stream_left st = (case sc_cur_stream st of None \<Rightarrow> 0 | Some s \<Rightarrow> Suc (length s))"

lemma scan_loop_Return: "scan_step K C R nb st = (Return r, st') \<Longrightarrow> scan_loop K C R nb st = Some (r, st')"
  by (subst scan_loop.simps) simp

lemma scan_loop_Continue: "scan_step K C R nb st = (Continue, st') \<Longrightarrow> scan_loop K C R nb st = scan_loop K C R nb st'"
  by (subst scan_loop.simps) simp

lemma open_next_blob_producer: "open_next_blob K R b st = (f, st') \<Longrightarrow> sc_producer st' = sc_producer st"
  by (auto simp: open_next_blob_def Let_def split: sum.splits)

text \<open>A turn that goes on either takes an item off the stream or ends it, or takes a blob from the
  producer.\<close>

lemma scan_step_Continue:
  assumes "scan_step K C R nb st = (Continue, st')"
  shows "sc_producer st' = sc_producer st \<and> stream_left st' < stream_left st
    \<or> (\<exists>b. nb (sc_producer st) = (Some b, sc_producer st'))"
proof -
  have adv: "\<exists>b. nb (sc_producer s) = (Some b, sc_producer st')" if "advance_blob K C R nb s = (Continue, st')" for s
    using that
    by (auto simp: advance_blob_def Let_def split: prod.splits option.splits if_splits sum.splits dest!: open_next_blob_producer)
  have pull: "sc_producer st' = sc_producer s \<and> stream_left st' < stream_left s \<or> (\<exists>b. nb (sc_producer s) = (Some b, sc_producer st'))"
    if "pull_batch K C R nb s = (Continue, st')" for s
    using that adv[of s] by (auto simp: pull_batch_def stream_left_def split: option.splits list.splits sum.splits)
  show ?thesis
    using assms pull[of st] pull[of "st \<lparr> sc_cur_batch := None, sc_cur_row := 0 \<rparr>"]
    by (auto simp: scan_step_def stream_left_def split: option.splits if_splits)
qed

text \<open>What the scan asks of its producer: the queue of \<open>range_producer\<close>, of blobs.\<close>

locale blob_producer = range_producer next_blob remaining can
  for next_blob :: "'s \<Rightarrow> blob_ref option \<times> 's" and remaining :: "'s \<Rightarrow> blob_ref list" and can :: "nat \<Rightarrow> 's \<Rightarrow> bool"
begin

lemma scan_loop_returns:
  fixes st :: "('c, 's) scan_state"
  assumes "can (Suc (length (remaining (sc_producer st)))) (sc_producer st)"
  shows "\<exists>r st'. scan_loop K C R next_blob st = Some (r, st')"
  using assms
proof (induction st rule: wf_induct_rule[OF wf_measures[of "[\<lambda>st. length (remaining (sc_producer st)), stream_left]"]])
  case (1 st)
  show ?case
  proof (cases "scan_step K C R next_blob st")
    case (Pair f st')
    show ?thesis
    proof (cases f)
      case (Return r)
      then show ?thesis using Pair scan_loop_Return by blast
    next
      case Continue
      then have step: "scan_step K C R next_blob st = (Continue, st')" using Pair by simp
      have "can (Suc (length (remaining (sc_producer st')))) (sc_producer st')
        \<and> (st', st) \<in> measures [\<lambda>st. length (remaining (sc_producer st)), stream_left]"
        using scan_step_Continue[OF step]
      proof (elim disjE conjE exE)
        assume "sc_producer st' = sc_producer st" "stream_left st' < stream_left st"
        then show ?thesis using 1(2) by simp
      next
        fix b assume n: "next_blob (sc_producer st) = (Some b, sc_producer st')"
        then obtain x xs where r: "remaining (sc_producer st) = x # xs"
          using next_blob_head[OF 1(2)] by (auto split: list.splits)
        then have "remaining (sc_producer st') = xs" using next_blob_tail[OF 1(2) n] by simp
        then show ?thesis using next_blob_can[OF 1(2) n] r by simp
      qed
      then show ?thesis using 1(1) scan_loop_Continue[OF step] by metis
    qed
  qed
qed

end

interpretation ss: blob_producer sequential_next_blob "\<lambda>s. drop (sr_cursor s) (sr_blobs s)" "\<lambda>_ _. True"
  by unfold_locales

interpretation ps: blob_producer "parallel_next_blob copy" "\<lambda>s. drop (unat (cursor s)) copy"
    "\<lambda>n s. unat (cursor s) + n < 2 ^ 64" for copy
  by unfold_locales

section \<open>Setting up: facts\<close>

lemma glob_source_list_sorted:
  assumes "glob_source_list svc g s = (Ok l, s')"
  shows "sorted (map fst l)" and "\<forall>b \<in> set l. regex g (fst b)"
proof -
  obtain listed where "l = sort_key fst (filter (\<lambda>(name, _). regex g name) listed)"
    using assms by (auto simp: glob_source_list_def result_simps)
  then show "sorted (map fst l)" "\<forall>b \<in> set l. regex g (fst b)"
    by auto
qed

lemma length_storage_map: "length (storage_map part i k n) = n"
  by (induction n arbitrary: i k) simp_all

lemma storage_map_identity: "storage_map [] i i n = map Some [i..<i + n]"
  by (induction n arbitrary: i) (simp_all add: upt_conv_Cons)

lemma prune_listed_subset: "prune_listed C quals part keys bs = Ok kept \<Longrightarrow> set kept \<subseteq> set bs"
  by (induction bs arbitrary: kept) (fastforce simp: result_simps split: if_splits)+

text \<open>The projection of a partitioned table does not go through the storage map: with the partition
  column first, the column that is parquet column 0 is asked for as column 1.\<close>

lemma projection_skips_storage_map:
  "decode_projection 2 (Some [2]) = Ok [1] \<and> storage_map [0] 0 0 2 ! 1 = Some 0"
  by (simp add: decode_projection_def numeral_2_eq_2)

lemma try_map_all:
  assumes "try_map f xs = Ok ys" "\<And>x y. f x = Ok y \<Longrightarrow> P y"
  shows "\<forall>y \<in> set ys. P y"
  using assms(1) by (induction xs arbitrary: ys) (auto simp: result_simps dest: assms(2))

lemma decode_projection_bounds:
  assumes "decode_projection natts priv = Ok idxs"
  shows "\<forall>i \<in> set idxs. i < natts"
proof (cases priv)
  case None
  then show ?thesis using assms by (auto simp: decode_projection_def)
next
  case (Some l)
  show ?thesis
    using assms unfolding decode_projection_def Some option.case
    by (rule try_map_all) (auto split: if_splits)
qed

end
