(* ===== verification/Scan_Rows.thy ===== *)
theory Scan_Rows
  imports Scan
begin

text \<open>
  What a sequential scan delivers: every row of every blob once, in order, and a ctid that the modify path
  resolves to that row; and that a pushed row filter breaks this.
\<close>

section \<open>The rows of a sequential scan\<close>

text \<open>The rows still to come from the open blob.\<close>

definition cur_pending :: "('c, 'p) scan_state \<Rightarrow> row_ref list" where
  "cur_pending st =
    (case sc_cur_batch st of None \<Rightarrow> [] | Some b \<Rightarrow> map (Pair b) [sc_cur_row st ..< num_rows b])
    @ (case sc_cur_stream st of None \<Rightarrow> [] | Some s \<Rightarrow> stream_rows s)"

definition stream_fine :: "('c, 'p) scan_state \<Rightarrow> bool" where
  "stream_fine st \<longleftrightarrow> (case sc_cur_stream st of None \<Rightarrow> True | Some s \<Rightarrow> list_all (\<lambda>x. \<not> isl x) s)
    \<and> (sc_cur_batch st = None \<longrightarrow> sc_cur_row st = 0)"

lemma position_only [simp]:
  "cur_pending (st \<lparr> sc_table := t, sc_row_in_blob := r \<rparr>) = cur_pending st"
  "stream_fine (st \<lparr> sc_table := t, sc_row_in_blob := r \<rparr>) = stream_fine st"
  by (simp_all add: cur_pending_def stream_fine_def cong: option.case_cong)

definition moved ::
  "parquet_stream option \<Rightarrow> record_batch option \<Rightarrow> nat \<Rightarrow> nat \<Rightarrow> ('c, 'p) scan_state \<Rightarrow> ('c, 'p) scan_state" where
  "moved s b i n st = st \<lparr> sc_cur_stream := s, sc_cur_batch := b, sc_cur_row := i, sc_cur_blob := n \<rparr>"

lemma moved_moved [simp]: "moved s b i n (moved s' b' i' n' st) = moved s b i n st"
  by (simp add: moved_def)

lemma moved_self: "moved (sc_cur_stream st) (sc_cur_batch st) (sc_cur_row st) (sc_cur_blob st) st = st"
  by (simp add: moved_def)

lemma stream_rows_Inr [simp]: "stream_rows (Inr b # s) = map (Pair b) [0..<num_rows b] @ stream_rows s"
  by (simp add: stream_rows_def)

lemma stream_rows_Nil [simp]: "stream_rows [] = []"
  by (simp add: stream_rows_def)

lemma scan_step_row:
  assumes "sc_cur_batch st = Some b" "sc_cur_row st < num_rows b"
  shows "scan_step K C R nb st = (Return (Ok (Some (b, sc_cur_row st))), moved (sc_cur_stream st) (Some b) (Suc (sc_cur_row st)) (sc_cur_blob st) st)"
  using assms by (simp add: scan_step_def moved_def)

lemma scan_step_pull:
  assumes "case sc_cur_batch st of None \<Rightarrow> sc_cur_row st = 0 | Some b \<Rightarrow> num_rows b \<le> sc_cur_row st"
    and "sc_cur_stream st = Some (Inr b # s)"
  shows "scan_step K C R nb st = (Continue, moved (Some s) (Some b) 0 (sc_cur_blob st) st)"
  using assms by (auto simp: scan_step_def pull_batch_def moved_def split: option.splits)

lemma scan_step_stream_end:
  assumes "case sc_cur_batch st of None \<Rightarrow> sc_cur_row st = 0 | Some b \<Rightarrow> num_rows b \<le> sc_cur_row st"
    and "sc_cur_stream st = Some []"
  shows "scan_step K C R nb st = (Continue, moved None None 0 (Suc (sc_cur_blob st)) st)"
  using assms by (auto simp: scan_step_def pull_batch_def moved_def split: option.splits)

lemma exhausted_batch:
  assumes "stream_fine st" "\<not> (\<exists>b. sc_cur_batch st = Some b \<and> sc_cur_row st < num_rows b)"
  shows "case sc_cur_batch st of None \<Rightarrow> sc_cur_row st = 0 | Some b \<Rightarrow> num_rows b \<le> sc_cur_row st"
  using assms by (auto simp: stream_fine_def split: option.splits)

lemma scan_loop_batch_row:
  assumes "stream_fine st" "cur_pending st = x # xs" "sc_cur_batch st = Some b" "sc_cur_row st < num_rows b"
  shows "\<exists>s b i n. scan_loop K C R nb st = Some (Ok (Some x), moved s b i n st)
    \<and> stream_fine (moved s b i n st) \<and> cur_pending (moved s b i n st) = xs"
proof -
  let ?st = "moved (sc_cur_stream st) (Some b) (Suc (sc_cur_row st)) (sc_cur_blob st) st"
  have x: "x = (b, sc_cur_row st)" and xs: "cur_pending ?st = xs"
    using assms(2-4) by (simp_all add: cur_pending_def moved_def upt_conv_Cons)
  have "stream_fine ?st"
    using assms(1) by (simp add: stream_fine_def moved_def)
  moreover have "scan_loop K C R nb st = Some (Ok (Some x), ?st)"
    using scan_loop_Return[OF scan_step_row[OF assms(3,4)]] by (simp add: x)
  ultimately show ?thesis using xs by blast
qed

lemma scan_loop_row:
  assumes "stream_fine st" "cur_pending st = x # xs"
  shows "\<exists>s b i n. scan_loop K C R nb st = Some (Ok (Some x), moved s b i n st)
    \<and> stream_fine (moved s b i n st) \<and> cur_pending (moved s b i n st) = xs"
  using assms
proof (induction "stream_left st" arbitrary: st)
  case 0
  then have none: "sc_cur_stream st = None"
    by (simp add: stream_left_def split: option.splits)
  with 0 obtain b where b: "sc_cur_batch st = Some b" "sc_cur_row st < num_rows b"
    by (auto simp: cur_pending_def upt_eq_Cons_conv split: option.splits)
  then show ?case by (rule scan_loop_batch_row[OF 0(2,3)])
next
  case (Suc n)
  then obtain s where s: "sc_cur_stream st = Some s"
    by (auto simp: stream_left_def split: option.splits)
  show ?case
  proof (cases "\<exists>b. sc_cur_batch st = Some b \<and> sc_cur_row st < num_rows b")
    case True
    then obtain b where b: "sc_cur_batch st = Some b" "sc_cur_row st < num_rows b" by blast
    then show ?thesis by (rule scan_loop_batch_row[OF Suc(3,4)])
  next
    case False
    note idle = exhausted_batch[OF Suc(3) False]
    then have p: "cur_pending st = stream_rows s"
      by (auto simp: cur_pending_def s split: option.splits)
    show ?thesis
    proof (cases s)
      case Nil
      then show ?thesis using p Suc(4) by simp
    next
      case (Cons a s')
      then obtain b where a: "a = Inr b"
        using Suc(3) by (cases a) (auto simp: stream_fine_def s)
      let ?st = "moved (Some s') (Some b) 0 (sc_cur_blob st) st"
      have "n = stream_left ?st" "stream_fine ?st" "cur_pending ?st = x # xs"
        using Suc(2,3,4) p by (simp_all add: stream_left_def moved_def stream_fine_def cur_pending_def s Cons a)
      moreover have "scan_loop K C R nb st = scan_loop K C R nb ?st"
        using s by (intro scan_loop_Continue scan_step_pull[OF idle]) (simp add: Cons a)
      ultimately show ?thesis using Suc(1)[of ?st] by simp
    qed
  qed
qed

lemma scan_loop_blob_end:
  assumes "stream_fine st" "cur_pending st = []"
  shows "\<exists>n. scan_loop K C R nb st = scan_loop K C R nb (moved None None 0 n st)"
  using assms
proof (induction "stream_left st" arbitrary: st)
  case 0
  then have "sc_cur_stream st = None"
    by (simp add: stream_left_def split: option.splits)
  moreover from this 0 have "case sc_cur_batch st of None \<Rightarrow> sc_cur_row st = 0 | Some b \<Rightarrow> num_rows b \<le> sc_cur_row st"
    by (auto simp: cur_pending_def stream_fine_def split: option.splits)
  ultimately have "scan_step K C R nb st = scan_step K C R nb (moved None None 0 (sc_cur_blob st) st)"
    by (auto simp: scan_step_def moved_def split: option.splits intro!: arg_cong[where f = "pull_batch K C R nb"])
  then have "scan_loop K C R nb st = scan_loop K C R nb (moved None None 0 (sc_cur_blob st) st)"
    by (subst (1 2) scan_loop.simps) simp
  then show ?case ..
next
  case (Suc n)
  then obtain s where s: "sc_cur_stream st = Some s"
    by (auto simp: stream_left_def split: option.splits)
  have idle: "case sc_cur_batch st of None \<Rightarrow> sc_cur_row st = 0 | Some b \<Rightarrow> num_rows b \<le> sc_cur_row st"
    using Suc(3,4) by (auto simp: cur_pending_def stream_fine_def s split: option.splits)
  show ?case
  proof (cases s)
    case Nil
    then have "scan_loop K C R nb st = scan_loop K C R nb (moved None None 0 (Suc (sc_cur_blob st)) st)"
      using s by (intro scan_loop_Continue scan_step_stream_end[OF idle]) simp
    then show ?thesis ..
  next
    case (Cons a s')
    then obtain b where a: "a = Inr b"
      using Suc(3) by (cases a) (auto simp: stream_fine_def s)
    let ?st = "moved (Some s') (Some b) 0 (sc_cur_blob st) st"
    have "n = stream_left ?st" "stream_fine ?st" "cur_pending ?st = []"
      using Suc(2,3,4) by (simp_all add: stream_left_def moved_def stream_fine_def cur_pending_def s Cons a)
    moreover have "scan_loop K C R nb st = scan_loop K C R nb ?st"
      using s by (intro scan_loop_Continue scan_step_pull[OF idle]) (simp add: Cons a)
    ultimately show ?thesis using Suc(1)[of ?st] by simp
  qed
qed

definition nchunks :: "nat \<Rightarrow> nat" where
  "nchunks n = max (div_ceil n chunk_rows) 1"

lemma nchunks_Suc: "nchunks (Suc r) = (if r \<noteq> 0 \<and> r mod chunk_rows = 0 then Suc (nchunks r) else nchunks r)"
proof (cases "Suc r mod chunk_rows = 0")
  case True
  then have "r mod chunk_rows = chunk_rows - 1" "Suc r div chunk_rows = Suc (r div chunk_rows)"
    by (simp_all add: mod_Suc div_Suc split: if_splits)
  then show ?thesis using True by (simp add: nchunks_def div_ceil_def)
next
  case False
  then have "Suc r div chunk_rows = r div chunk_rows"
    by (simp add: div_Suc)
  moreover have "1 \<le> r div chunk_rows" if nz: "r \<noteq> 0" "r mod chunk_rows = 0"
    using nz dvd_imp_le[of chunk_rows r] by (simp add: div_greater_zero_iff Suc_le_eq dvd_eq_mod_eq_0)
  ultimately show ?thesis using False by (simp add: nchunks_def div_ceil_def)
qed

lemma nchunks_pos: "0 < nchunks n"
  by (simp add: nchunks_def)

lemma nchunks_0: "nchunks 0 = 1"
  by (simp add: nchunks_def div_ceil_def)

text \<open>The rows of a list of blobs, each with the base identifier of its blob and its row number.\<close>

fun addressed :: "nat \<Rightarrow> row_ref list list \<Rightarrow> (nat \<times> nat \<times> row_ref) list" where
  "addressed base [] = []"
| "addressed base (rows # rest) =
    map (\<lambda>(r, x). (base, r, x)) (enumerate 0 rows) @ addressed (base + nchunks (length rows)) rest"

definition opened_rows :: "arrow_cmp \<Rightarrow> 'f parquet_reader \<Rightarrow> ('c, 'p) scan_state \<Rightarrow> blob_ref \<Rightarrow> row_ref list" where
  "opened_rows K R st b = stream_rows (projr (open_scan_stream K R (sc_projection st) (sc_quals st) (fst b)))"

definition opens_fine :: "arrow_cmp \<Rightarrow> 'f parquet_reader \<Rightarrow> ('c, 'p) scan_state \<Rightarrow> blob_ref \<Rightarrow> bool" where
  "opens_fine K R st b \<longleftrightarrow>
    (case open_scan_stream K R (sc_projection st) (sc_quals st) (fst b) of Inl _ \<Rightarrow> False | Inr s \<Rightarrow> list_all (\<lambda>x. \<not> isl x) s)"

definition blobs_left :: "('c, sequential_ranges) scan_state \<Rightarrow> blob_ref list" where
  "blobs_left st = drop (sr_cursor (sc_producer st)) (sr_blobs (sc_producer st))"

definition next_base :: "('c, 'p) scan_state \<Rightarrow> nat" where
  "next_base st = (if sc_table st = [] then 0 else unat (sc_base st) + nchunks (sc_row_in_blob st + length (cur_pending st)))"

definition to_come :: "arrow_cmp \<Rightarrow> 'f parquet_reader \<Rightarrow> ('c, sequential_ranges) scan_state \<Rightarrow> (nat \<times> nat \<times> row_ref) list" where
  "to_come K R st =
    map (\<lambda>(r, x). (unat (sc_base st), r, x)) (enumerate (sc_row_in_blob st) (cur_pending st))
    @ addressed (next_base st) (map (opened_rows K R st) (blobs_left st))"

text \<open>The invariant between two calls: the chunk table has an entry for every chunk of the open blob up to
  the rows returned, and there are identifiers left for all chunks to come.\<close>

definition scan_inv :: "arrow_cmp \<Rightarrow> 'f parquet_reader \<Rightarrow> ('c, sequential_ranges) scan_state \<Rightarrow> bool" where
  "scan_inv K R st \<longleftrightarrow>
    sc_sorted st = None \<and> sc_keys st = [] \<and> stream_fine st
    \<and> (if sc_table st = [] then cur_pending st = []
       else length (sc_table st) = unat (sc_base st) + nchunks (sc_row_in_blob st))
    \<and> list_all (opens_fine K R st) (blobs_left st)
    \<and> next_base st + sum_list (map (\<lambda>b. nchunks (length (opened_rows K R st b))) (blobs_left st)) \<le> 2 ^ 32"

definition frame :: "('c, 'p) scan_state \<Rightarrow> nat list \<times> nat list \<times> nat list \<times> pg_datum list" where
  "frame st = (sc_oids st, sc_attno_map st, sc_part st, sc_datums st)"

lemma register_chunk_length:
  assumes "length tab = unat base + nchunks r"
  shows "\<exists>tab'. register_chunk_if_boundary tab base r = Ok tab' \<and> length tab' = unat base + nchunks (Suc r)"
proof (cases "r \<noteq> 0 \<and> r mod chunk_rows = 0")
  case True
  then have "nchunks r = r div chunk_rows"
    by (auto simp: nchunks_def div_ceil_def dvd_eq_mod_eq_0 elim!: dvdE)
  then show ?thesis
    using True assms nchunks_Suc[of r] nchunks_pos[of r] by (simp add: register_chunk_if_boundary_def Let_def)
next
  case False
  then show ?thesis
    using assms nchunks_Suc[of r] by (auto simp: register_chunk_if_boundary_def)
qed

text \<open>What the next row of the scan is, and the state the row is emitted from.\<close>

definition row_found ::
  "arrow_cmp \<Rightarrow> 'f parquet_reader \<Rightarrow> ('c, sequential_ranges) scan_state \<Rightarrow> (nat \<times> nat \<times> row_ref) list \<Rightarrow> nat \<Rightarrow> nat
    \<Rightarrow> ('c, sequential_ranges) scan_state \<Rightarrow> bool" where
  "row_found K R st rest base r st' \<longleftrightarrow>
    sc_sorted st' = None \<and> frame st' = frame st \<and> unat (sc_base st') = base \<and> sc_row_in_blob st' = r
    \<and> length (sc_table st') = base + nchunks r
    \<and> (\<forall>tab. length tab = base + nchunks (Suc r) \<longrightarrow>
        (let st'' = st' \<lparr> sc_table := tab, sc_row_in_blob := Suc r \<rparr> in scan_inv K R st'' \<and> to_come K R st'' = rest))"

lemma pending_row_found:
  assumes inv: "scan_inv K R st" and p: "cur_pending st = x # xs"
  shows "\<exists>rest st'. to_come K R st = (unat (sc_base st), sc_row_in_blob st, x) # rest
    \<and> scan_loop K C R nb st = Some (Ok (Some x), st') \<and> row_found K R st rest (unat (sc_base st)) (sc_row_in_blob st) st'"
proof -
  obtain s b i n where st': "scan_loop K C R nb st = Some (Ok (Some x), moved s b i n st)"
    "stream_fine (moved s b i n st)" "cur_pending (moved s b i n st) = xs"
  proof -
    have "stream_fine st" using inv by (simp add: scan_inv_def)
    from scan_loop_row[OF this p, of K C R nb] show ?thesis by (elim exE conjE) (rule that)
  qed
  have t: "sc_table st \<noteq> []" "length (sc_table st) = unat (sc_base st) + nchunks (sc_row_in_blob st)"
    using inv p by (auto simp: scan_inv_def split: if_splits)
  let ?after = "\<lambda>tab. moved s b i n st \<lparr> sc_table := tab, sc_row_in_blob := Suc (sc_row_in_blob st) \<rparr>"
  have pend: "cur_pending (?after tab) = xs" "stream_fine (?after tab)" for tab
    using st'(2,3) by simp_all
  have same: "opened_rows K R (?after tab) = opened_rows K R st" "opens_fine K R (?after tab) = opens_fine K R st"
    "blobs_left (?after tab) = blobs_left st" for tab
    by (simp_all add: opened_rows_def opens_fine_def blobs_left_def moved_def fun_eq_iff)
  have fields: "sc_base (?after tab) = sc_base st" "sc_row_in_blob (?after tab) = Suc (sc_row_in_blob st)" "sc_table (?after tab) = tab"
    "sc_sorted (?after tab) = sc_sorted st" "sc_keys (?after tab) = sc_keys st" for tab
    by (simp_all add: moved_def)
  have nb: "next_base (?after tab) = next_base st" if "length tab = unat (sc_base st) + nchunks (Suc (sc_row_in_blob st))" for tab
  proof -
    have "tab \<noteq> []" using that nchunks_pos[of "Suc (sc_row_in_blob st)"] by auto
    then show ?thesis using t(1) p by (simp only: next_base_def pend fields) simp
  qed
  let ?rest = "map (\<lambda>(r, x). (unat (sc_base st), r, x)) (enumerate (Suc (sc_row_in_blob st)) xs)
    @ addressed (next_base st) (map (opened_rows K R st) (blobs_left st))"
  have after: "scan_inv K R (?after tab) \<and> to_come K R (?after tab) = ?rest"
    if "length tab = unat (sc_base st) + nchunks (Suc (sc_row_in_blob st))" for tab
  proof -
    have "tab \<noteq> []" using that nchunks_pos[of "Suc (sc_row_in_blob st)"] by auto
    then show ?thesis
      using inv that st'(2,3) by (simp add: scan_inv_def to_come_def pend same nb[OF that] fields)
  qed
  have "sc_sorted (moved s b i n st) = None" "frame (moved s b i n st) = frame st"
    "unat (sc_base (moved s b i n st)) = unat (sc_base st)" "sc_row_in_blob (moved s b i n st) = sc_row_in_blob st"
    "length (sc_table (moved s b i n st)) = unat (sc_base st) + nchunks (sc_row_in_blob st)"
    using inv t by (simp_all add: scan_inv_def frame_def moved_def)
  then have "row_found K R st ?rest (unat (sc_base st)) (sc_row_in_blob st) (moved s b i n st)"
    unfolding row_found_def Let_def using after by blast
  moreover have "to_come K R st = (unat (sc_base st), sc_row_in_blob st, x) # ?rest"
    by (simp add: to_come_def p)
  ultimately show ?thesis using st'(1) by blast
qed

lemma sequential_next_left:
  assumes "drop (sr_cursor p) (sr_blobs p) = b # bs"
  shows "sequential_next_blob p = (Some b, p \<lparr> sr_cursor := Suc (sr_cursor p) \<rparr>)"
    and "drop (Suc (sr_cursor p)) (sr_blobs p) = bs"
proof -
  show "sequential_next_blob p = (Some b, p \<lparr> sr_cursor := Suc (sr_cursor p) \<rparr>)"
    using assms by (simp add: sequential_next_blob_def nth_opt_drop)
  show "drop (Suc (sr_cursor p)) (sr_blobs p) = bs"
    using arg_cong[OF assms, of tl] by (simp add: drop_Suc tl_drop)
qed

text \<open>At the end of a blob the next one is opened; the rows to come are the same.\<close>

lemma next_blob_opened:
  assumes inv: "scan_inv K R st" and p: "cur_pending st = []" and left: "blobs_left st = b # bs"
  shows "\<exists>st'. scan_loop K C R sequential_next_blob st = scan_loop K C R sequential_next_blob st'
    \<and> scan_inv K R st' \<and> to_come K R st' = to_come K R st \<and> frame st' = frame st \<and> blobs_left st' = bs"
proof -
  obtain n where end_st: "scan_loop K C R sequential_next_blob st = scan_loop K C R sequential_next_blob (moved None None 0 n st)"
  proof -
    have "stream_fine st" using inv by (simp add: scan_inv_def)
    from scan_loop_blob_end[OF this p, of K C R sequential_next_blob] show ?thesis by (elim exE) (rule that)
  qed
  obtain s where s: "open_scan_stream K R (sc_projection st) (sc_quals st) (fst b) = Ok s" "list_all (\<lambda>x. \<not> isl x) s"
    using inv left by (auto simp: scan_inv_def opens_fine_def split: sum.splits)
  then have rows: "opened_rows K R st b = stream_rows s"
    by (simp add: opened_rows_def)
  let ?e = "\<lparr> be_name = fst b, chunk_base_row = 0, be_etag = snd b \<rparr>"
  define st' where "st' = (moved (Some s) None 0 n st) \<lparr> sc_producer := (sc_producer st) \<lparr> sr_cursor := Suc (sr_cursor (sc_producer st)) \<rparr>,
    sc_base := of_nat (length (sc_table st)), sc_table := sc_table st @ [?e], sc_row_in_blob := 0 \<rparr>"
  note producer = sequential_next_left[OF left[unfolded blobs_left_def]]
  have keys: "sc_keys st = []" "sc_sorted st = None"
    using inv by (simp_all add: scan_inv_def)
  have "scan_step K C R sequential_next_blob (moved None None 0 n st) = (Continue, st')"
    by (simp add: st'_def scan_step_def pull_batch_def advance_blob_def open_next_blob_def moved_def producer(1) keys s(1) Let_def)
  note opened = scan_loop_Continue[OF this]
  have fields: "sc_keys st' = []" "sc_sorted st' = None" "sc_row_in_blob st' = 0" "sc_table st' = sc_table st @ [?e]" "frame st' = frame st"
    by (simp_all add: st'_def moved_def keys frame_def)
  have pend: "cur_pending st' = stream_rows s" "stream_fine st'"
    using s(2) by (simp_all add: st'_def cur_pending_def stream_fine_def moved_def)
  have same: "opened_rows K R st' = opened_rows K R st" "opens_fine K R st' = opens_fine K R st" "blobs_left st' = bs"
    using producer(2) by (simp_all add: st'_def opened_rows_def opens_fine_def blobs_left_def moved_def fun_eq_iff)
  have len: "length (sc_table st) = next_base st"
    using inv p by (auto simp: scan_inv_def next_base_def split: if_splits)
  have small: "next_base st < 2 ^ 32"
    using inv nchunks_pos[of "length (opened_rows K R st b)"] by (simp add: scan_inv_def left)
  then have base: "unat (sc_base st') = next_base st"
    by (simp add: st'_def len unat_of_nat_small)
  have nb: "next_base st' = next_base st + nchunks (length (stream_rows s))"
    by (simp add: next_base_def pend fields base)
  have "scan_inv K R st'"
    using inv by (simp add: scan_inv_def pend same nb left rows fields base len nchunks_0)
  moreover have "to_come K R st' = to_come K R st"
    by (simp add: to_come_def pend same nb p left rows fields base)
  ultimately show ?thesis using end_st opened same(3) fields(5) by auto
qed

lemma scan_loop_next:
  assumes "scan_inv K R st"
  shows "case to_come K R st of
      [] \<Rightarrow> \<exists>st'. scan_loop K C R sequential_next_blob st = Some (Ok None, st')
    | (base, r, x) # rest \<Rightarrow> \<exists>st'. scan_loop K C R sequential_next_blob st = Some (Ok (Some x), st') \<and> row_found K R st rest base r st'"
  using assms
proof (induction "blobs_left st" arbitrary: st)
  case Nil
  show ?case
  proof (cases "cur_pending st")
    case Nil': Nil
    obtain n where e: "scan_loop K C R sequential_next_blob st = scan_loop K C R sequential_next_blob (moved None None 0 n st)"
    proof -
      have "stream_fine st" using Nil(2) by (simp add: scan_inv_def)
      from scan_loop_blob_end[OF this Nil', of K C R sequential_next_blob] show ?thesis by (elim exE) (rule that)
    qed
    have "sequential_next_blob (sc_producer st) = (None, sc_producer st)"
      using Nil(1) by (simp add: sequential_next_blob_def nth_opt_drop blobs_left_def[symmetric])
    then have "scan_step K C R sequential_next_blob (moved None None 0 n st) = (Return (Ok None), moved None None 0 n st)"
      by (simp add: scan_step_def pull_batch_def advance_blob_def moved_def)
    from scan_loop_Return[OF this] show ?thesis
      using Nil(1)[symmetric] Nil' e by (simp add: to_come_def)
  next
    case (Cons x xs)
    from pending_row_found[OF Nil(2) this, of C sequential_next_blob] show ?thesis
      by (elim exE conjE) auto
  qed
next
  case (Cons b bs)
  show ?case
  proof (cases "cur_pending st")
    case Nil
    obtain st' where st': "scan_loop K C R sequential_next_blob st = scan_loop K C R sequential_next_blob st'"
      "scan_inv K R st'" "to_come K R st' = to_come K R st" "frame st' = frame st" "blobs_left st' = bs"
    proof -
      from next_blob_opened[OF Cons(3) Nil Cons(2)[symmetric], of C] show ?thesis by (elim exE conjE) (rule that)
    qed
    have "row_found K R st' = row_found K R st"
      by (simp add: row_found_def fun_eq_iff st'(4))
    then show ?thesis
      using Cons(1)[OF st'(5)[symmetric] st'(2)] by (simp only: st'(1) st'(3))
  next
    case (Cons x xs)
    from pending_row_found[OF \<open>scan_inv K R st\<close> this, of C sequential_next_blob] show ?thesis
      by (elim exE conjE) auto
  qed
qed

text \<open>The tuple of a row: its columns, and the ctid of its address.\<close>

definition tuple_of ::
  "convert_lib \<Rightarrow> ('c, 'p) scan_state \<Rightarrow> pg_datum option list \<times> nat \<times> nat \<times> row_ref \<Rightarrow> tuple_slot fdw_result" where
  "tuple_of C st = (\<lambda>(old, base, r, batch, i).
    and_then (fill_slot C st batch i old) (\<lambda>vals.
    Ok \<lparr> tts_values = vals, tts_tid = Some (to_ctid (from_absolute (of_nat base) (of_nat r))) \<rparr>))"

lemma tuple_of_frame: "frame st' = frame st \<Longrightarrow> tuple_of C st' = tuple_of C st"
  by (simp add: tuple_of_def fill_slot_def frame_def fun_eq_iff)

lemma emit_row_found:
  assumes "row_found K R st rest base r st'"
  shows "(\<exists>e. tuple_of C st (old, base, r, batch, i) = Err e \<and> emit_row C batch i old st' = Err e)
    \<or> (\<exists>t st''. tuple_of C st (old, base, r, batch, i) = Ok t \<and> emit_row C batch i old st' = Ok (t, st'')
        \<and> scan_inv K R st'' \<and> to_come K R st'' = rest \<and> frame st'' = frame st)"
proof -
  have f: "sc_sorted st' = None" "frame st' = frame st" "unat (sc_base st') = base" "sc_row_in_blob st' = r"
    and len: "length (sc_table st') = base + nchunks r"
    using assms by (simp_all add: row_found_def)
  obtain tab where tab: "register_chunk_if_boundary (sc_table st') (sc_base st') r = Ok tab" "length tab = base + nchunks (Suc r)"
    using register_chunk_length[of "sc_table st'" "sc_base st'" r] len f(3) by auto
  let ?st = "st' \<lparr> sc_table := tab, sc_row_in_blob := Suc r \<rparr>"
  have after: "scan_inv K R ?st" "to_come K R ?st = rest"
    using assms tab(2) by (simp_all add: row_found_def Let_def)
  have fr: "frame ?st = frame st"
    using f(2) by (simp add: frame_def)
  have base: "of_nat base = sc_base st'"
    by (simp add: f(3)[symmetric])
  have t: "tuple_of C st (old, base, r, batch, i) = and_then (fill_slot C st' batch i old) (\<lambda>vals.
      Ok \<lparr> tts_values = vals, tts_tid = Some (to_ctid (from_absolute (sc_base st') (of_nat r))) \<rparr>)"
    using tuple_of_frame[OF f(2), of C] by (simp add: base[symmetric] fun_eq_iff) (simp add: tuple_of_def)
  have e: "emit_row C batch i old st' = and_then (fill_slot C st' batch i old) (\<lambda>vals.
      Ok (\<lparr> tts_values = vals, tts_tid = Some (to_ctid (from_absolute (sc_base st') (of_nat r))) \<rparr>, ?st))"
    using tab(1) f by (simp add: emit_row_def)
  show ?thesis
    using after fr by (cases "fill_slot C st' batch i old") (simp_all add: t e)
qed

text \<open>The run of the executor's calls returns, and gives the tuples of the rows to come, or stops with the
  first error in converting one.\<close>

lemma scan_run_rows:
  assumes "scan_inv K R st"
  shows "scan_run D K C R sequential_next_blob olds st = Some (try_map (tuple_of C st) (zip olds (to_come K R st)))"
  using assms
proof (induction olds arbitrary: st)
  case Nil
  then show ?case by simp
next
  case (Cons old olds)
  have seq: "scan_next_row D K C R sequential_next_blob st = scan_loop K C R sequential_next_blob st"
    using Cons.prems by (simp add: scan_next_row_def scan_inv_def)
  note nxt = scan_loop_next[OF Cons.prems, of C] and ih = Cons.IH
  show ?case
  proof (cases "to_come K R st")
    case Nil
    then show ?thesis using nxt seq by (auto simp: iterate_foreign_scan_def)
  next
    case (Cons h rest)
    obtain base r batch i where h: "h = (base, r, batch, i)" by (cases h) auto
    obtain st' where st': "scan_loop K C R sequential_next_blob st = Some (Ok (Some (batch, i)), st')" "row_found K R st rest base r st'"
      using nxt by (auto simp: Cons h)
    show ?thesis
      using emit_row_found[OF st'(2), of C old batch i]
    proof (elim disjE exE conjE)
      fix e assume "tuple_of C st (old, base, r, batch, i) = Err e" "emit_row C batch i old st' = Err e"
      then show ?thesis by (simp add: iterate_foreign_scan_def seq st'(1) Cons h)
    next
      fix t st'' assume t: "tuple_of C st (old, base, r, batch, i) = Ok t" "emit_row C batch i old st' = Ok (t, st'')"
        and st'': "scan_inv K R st''" "to_come K R st'' = rest" "frame st'' = frame st"
      then show ?thesis
        using ih[OF st''(1)] tuple_of_frame[OF st''(3), of C]
        by (simp add: iterate_foreign_scan_def seq st'(1) Cons h)
    qed
  qed
qed

section \<open>Addresses\<close>

text \<open>The rows of a list of blobs in scan order, as the number of the blob and of the row in it.\<close>

definition row_addresses :: "'a list list \<Rightarrow> (nat \<times> nat) list" where
  "row_addresses rowss = concat (map (\<lambda>i. map (Pair i) [0..<length (rowss ! i)]) [0..<length rowss])"

lemma row_addresses_Cons:
  "row_addresses (rows # rest) = map (Pair 0) [0..<length rows] @ map (\<lambda>(i, r). (Suc i, r)) (row_addresses rest)"
proof -
  have "[0..<length (rows # rest)] = 0 # map Suc [0..<length rest]"
    by (simp add: map_Suc_upt upt_conv_Cons del: upt_Suc)
  then show ?thesis
    by (simp only: row_addresses_def list.map concat.simps nth_Cons_0 map_map)
      (simp add: map_concat o_def)
qed

lemma row_addresses_range: "(i, r) \<in> set (row_addresses rowss) \<Longrightarrow> i < length rowss \<and> r < length (rowss ! i)"
  by (auto simp: row_addresses_def)

lemma addressed_addresses:
  "addressed base rowss = map (\<lambda>(i, r). (base + sum_list (map (\<lambda>rows. nchunks (length rows)) (take i rowss)), r, rowss ! i ! r))
    (row_addresses rowss)"
proof (induction rowss arbitrary: base)
  case Nil
  then show ?case by (simp add: row_addresses_def)
next
  case (Cons rows rest)
  have "map (\<lambda>(r, x). (base, r, x)) (enumerate 0 rows) = map (\<lambda>r. (base, r, rows ! r)) [0..<length rows]"
    by (rule nth_equalityI) (simp_all add: nth_enumerate_eq)
  then show ?case
    by (simp add: Cons.IH row_addresses_Cons case_prod_beta o_def add.assoc)
qed

lemma base_id_chunks:
  "base_id footer listed i = sum_list (map (\<lambda>b. nchunks (footer_count footer (fst b))) (take i listed))"
  by (simp add: base_id_def length_concat o_def case_prod_beta length_blob_chunks nchunks_def)

lemma table_chunks:
  assumes "build_blob_table footer listed = Ok tab"
  shows "length tab = sum_list (map (\<lambda>b. nchunks (footer_count footer (fst b))) listed)"
proof -
  from build_blob_table_Ok[OF assms] show ?thesis
    by (simp add: length_concat o_def case_prod_beta length_blob_chunks nchunks_def)
qed

lemma assembled_inv:
  assumes "core_keys core = []" "list_all (opens_fine K R (assemble_scan_state core (sequential_over listed))) listed"
    and "sum_list (map (\<lambda>b. nchunks (length (opened_rows K R (assemble_scan_state core (sequential_over listed)) b))) listed) \<le> 2 ^ 32"
  shows "scan_inv K R (assemble_scan_state core (sequential_over listed))"
    and "to_come K R (assemble_scan_state core (sequential_over listed))
      = addressed 0 (map (opened_rows K R (assemble_scan_state core (sequential_over listed))) listed)"
proof -
  let ?st = "assemble_scan_state core (sequential_over listed)"
  have f: "sc_sorted ?st = None" "sc_keys ?st = []" "sc_table ?st = []" "cur_pending ?st = []" "stream_fine ?st" "blobs_left ?st = listed"
    using assms(1)
    by (simp_all add: assemble_scan_state_def cur_pending_def stream_fine_def blobs_left_def sequential_over_def)
  show "scan_inv K R ?st"
    unfolding scan_inv_def using assms(2,3) by (simp add: f next_base_def)
  show "to_come K R ?st = addressed 0 (map (opened_rows K R ?st) listed)"
    by (simp add: to_come_def f next_base_def)
qed

text \<open>A tuple of the scan: the row it carries and where its ctid leads.\<close>

definition tuple_addresses ::
  "convert_lib \<Rightarrow> ('c, 'p) scan_state \<Rightarrow> modify_plan \<Rightarrow> blob_ref \<Rightarrow> row_ref \<Rightarrow> nat \<Rightarrow> pg_datum option list \<Rightarrow> tuple_slot \<Rightarrow> bool" where
  "tuple_addresses C st plan b row r old t \<longleftrightarrow>
    fill_slot C st (fst row) (snd row) old = Ok (tts_values t)
    \<and> (case tts_tid t of
         None \<Rightarrow> False
       | Some c \<Rightarrow> (case resolve_to_source plan (from_ctid c) of
             Inl _ \<Rightarrow> False
           | Inr (base, r') \<Rightarrow> r' = r \<and> base < length (blob_table plan)
               \<and> be_name (blob_table plan ! base) = fst b \<and> be_etag (blob_table plan ! base) = snd b))"

lemma tuple_of_addresses:
  assumes "tuple_of C st (old, base_id footer listed i, r, row) = Ok t"
    and "build_blob_table footer listed = Ok (blob_table plan)" "distinct (map fst listed)" "length (blob_table plan) < 2 ^ 32"
    and "i < length listed" "r < footer_count footer (fst (listed ! i))"
  shows "tuple_addresses C st plan (listed ! i) row r old t"
proof -
  have name: "listed ! i = (fst (listed ! i), snd (listed ! i))" by simp
  from resolve_row[OF assms(2,3,5) name assms(6) refl assms(4)]
  show ?thesis
    using assms(1) by (cases row) (auto simp: tuple_of_def tuple_addresses_def result_simps)
qed

lemma try_map_length: "try_map f xs = Ok ys \<Longrightarrow> length ys = length xs"
  by (induction xs arbitrary: ys) (auto simp: result_simps)

lemma try_map_nth: "try_map f xs = Ok ys \<Longrightarrow> i < length xs \<Longrightarrow> f (xs ! i) = Ok (ys ! i)"
  by (induction xs arbitrary: ys i) (auto simp: result_simps nth_Cons split: nat.splits)

section \<open>Properties\<close>

text \<open>C15: fetching the next row always returns.  A sequential scan returns from every state; a worker of a
  parallel scan returns as long as the shared cursor has room for the blobs that are left.  So the
  loop over empty batches, finished streams, skipped blobs and newly opened ones ends.\<close>

theorem scan_next_row_returns:
  "(\<exists>r st'. scan_next_row D K C R sequential_next_blob st = Some (r, st'))
    \<and> (unat (cursor (sc_producer wst)) + Suc (length copy) < 2 ^ 64 \<longrightarrow>
        (\<exists>r st'. scan_next_row D K C R (parallel_next_blob copy) wst = Some (r, st')))"
proof (intro conjI impI)
  show "\<exists>r st'. scan_next_row D K C R sequential_next_blob st = Some (r, st')"
    using ss.scan_loop_returns[where st = st and K = K and C = C and R = R] by (auto simp: scan_next_row_def split: option.splits sum.splits)
  assume "unat (cursor (sc_producer wst)) + Suc (length copy) < 2 ^ 64"
  then have "unat (cursor (sc_producer wst)) + Suc (length (drop (unat (cursor (sc_producer wst))) copy)) < 2 ^ 64"
    by simp
  from ps.scan_loop_returns[OF this, where K = K and C = C and R = R]
  show "\<exists>r st'. scan_next_row D K C R (parallel_next_blob copy) wst = Some (r, st')"
    by (auto simp: scan_next_row_def split: option.splits sum.splits)
qed

text \<open>An instance of the reader: a file is one batch in one row group without statistics, predicates run on
  the columns they name, in schema order, and keep the rows they are true on.\<close>

definition select_columns :: "nat list \<Rightarrow> record_batch \<Rightarrow> record_batch" where
  "select_columns roots b =
    (let cols = sorted_list_of_set (set roots)
     in b \<lparr> batch_schema := map ((!) (batch_schema b)) cols, columns := map ((!) (columns b)) cols \<rparr>)"

fun run_filters :: "predicate list \<Rightarrow> record_batch \<Rightarrow> string + record_batch" where
  "run_filters [] b = Inr b"
| "run_filters (p # ps) b =
    (case run_predicate p (select_columns (mask_roots p) b) of
       Inl e \<Rightarrow> Inl (error_to_string e)
     | Inr sel \<Rightarrow>
         (case list_filter b (map (\<lambda>x. x = Some True) sel) of Inl e \<Rightarrow> Inl e | Inr b' \<Rightarrow> run_filters ps b'))"

definition list_reader :: "(string \<Rightarrow> record_batch option) \<Rightarrow> record_batch parquet_reader" where
  "list_reader files = \<lparr>
    rd_new = \<lambda>name. (case files name of None \<Rightarrow> Inl ''not found'' | Some b \<Rightarrow> Inr b),
    rd_meta = \<lambda>b. [map (\<lambda>_. \<lparr> statistics = None, num_values = num_rows b \<rparr>) (columns b)],
    rd_meta_schema = \<lambda>b. Inr (batch_schema b),
    rd_schema = batch_schema,
    rd_build = \<lambda>b keep proj filt.
      (if keep = Some [] then Inr []
       else (case run_filters (case filt of None \<Rightarrow> [] | Some ps \<Rightarrow> ps) b of
               Inl e \<Rightarrow> Inl e
             | Inr b' \<Rightarrow> Inr [Inr (case proj of None \<Rightarrow> b' | Some roots \<Rightarrow> select_columns roots b')])) \<rparr>"

definition id_batch :: "int list \<Rightarrow> record_batch" where
  "id_batch xs = \<lparr> batch_schema = [\<lparr> field_name = ''id'', field_type = Int64, nullable = True \<rparr>],
    columns = [\<lparr> data_type_of = Int64, cells = map (\<lambda>x. Some (CInt x)) xs \<rparr>], num_rows = length xs \<rparr>"

definition id_files :: "string \<Rightarrow> record_batch option" where
  "id_files name = (if name = ''a'' then Some (id_batch [1, 2, 3]) else if name = ''b'' then Some (id_batch [4]) else None)"

definition id_listed :: "blob_ref list" where
  "id_listed = [(''a'', ''e1''), (''b'', ''e2'')]"

definition id_core :: "pushed_expr list option \<Rightarrow> nat scan_core" where
  "id_core quals = \<lparr> core_client = \<lparr> client_inner = 0, client_account = ''acct'', client_container = ''c'' \<rparr>, core_blobs = id_listed,
    core_oids = [INT8OID], core_projection = [0], core_attno_map = [0], core_quals = quals,
    core_table_opts = \<lparr> container = ''c'', filename = ''*'', compression = Snappy, parallel_workers = None, partition_columns = [],
      partition_keys = [], sorted_cols = [], files_in_order = False \<rparr>,
    core_part = [], core_keys = [], core_storage = [Some 0] \<rparr>"

theorem scan_next_row_returns_witness:
  "\<exists>r st'. scan_next_row plain_dbg list_kernels plain_convert (list_reader id_files) (parallel_next_blob id_listed)
    (assemble_scan_state (id_core None) (initialize_dsm_foreign_scan id_listed)) = Some (r, st')"
proof -
  have "unat (cursor (sc_producer (assemble_scan_state (id_core None) (initialize_dsm_foreign_scan id_listed)))) + Suc (length id_listed) < 2 ^ 64"
    by (simp add: assemble_scan_state_def id_listed_def)
  then show ?thesis
    using scan_next_row_returns[where D = plain_dbg and K = list_kernels and C = plain_convert and R = "list_reader id_files"
        and copy = id_listed and wst = "assemble_scan_state (id_core None) (initialize_dsm_foreign_scan id_listed)"] by blast
qed

text \<open>C8: an UPDATE or DELETE of an unpartitioned table finds the rows the scan has shown.  A sequential scan
  over the listed blobs returns, and gives one tuple per row, blob by blob and row by row, until the
  executor stops calling or a value does not convert; and when the streams deliver as many rows as the
  footers count (no row filter or pruning took rows out), the ctid of every tuple, resolved with the chunk
  table that the modify path builds from the same list, leads to the blob the row is in, with its scan-time
  ETag, and to the row's number in it.  Partitioned tables are left out: there the scan skips a blob with a
  malformed path without giving it an identifier, while the modify path counts it.\<close>

theorem scan_ctids_resolve:
  fixes core :: "'c scan_core" and listed :: "blob_ref list"
  assumes "st = assemble_scan_state core (sequential_over listed)" and "core_keys core = []"
    and "list_all (opens_fine K R st) listed" and "distinct (map fst listed)"
    and "build_blob_table footer listed = Ok (blob_table plan)" and "length (blob_table plan) < 2 ^ 32"
    and "list_all (\<lambda>b. footer_count footer (fst b) = length (opened_rows K R st b)) listed"
  shows "\<exists>result. scan_run D K C R sequential_next_blob olds st = Some result
    \<and> (\<forall>ts. result = Ok ts \<longrightarrow>
        length ts = min (length olds) (length (row_addresses (map (opened_rows K R st) listed)))
        \<and> (\<forall>j < length ts. \<exists>i r. row_addresses (map (opened_rows K R st) listed) ! j = (i, r)
            \<and> tuple_addresses C st plan (listed ! i) (opened_rows K R st (listed ! i) ! r) r (olds ! j) (ts ! j)))"
proof -
  let ?rowss = "map (opened_rows K R st) listed"
  have counts: "map (\<lambda>b. nchunks (length (opened_rows K R st b))) listed = map (\<lambda>b. nchunks (footer_count footer (fst b))) listed"
    using assms(7) by (auto simp: list_all_iff)
  have "sum_list (map (\<lambda>b. nchunks (length (opened_rows K R st b))) listed) \<le> 2 ^ 32"
    unfolding counts using table_chunks[OF assms(5)] assms(6) by simp
  from assembled_inv[OF assms(2), of K R listed] assms(1,3) this
  have inv: "scan_inv K R st" and rows: "to_come K R st = addressed 0 ?rowss"
    by simp_all
  have "length ts = min (length olds) (length (row_addresses ?rowss))
    \<and> (\<forall>j < length ts. \<exists>i r. row_addresses ?rowss ! j = (i, r)
        \<and> tuple_addresses C st plan (listed ! i) (opened_rows K R st (listed ! i) ! r) r (olds ! j) (ts ! j))"
    if ok: "try_map (tuple_of C st) (zip olds (to_come K R st)) = Ok ts" for ts
  proof (intro conjI allI impI)
    show len: "length ts = min (length olds) (length (row_addresses ?rowss))"
      using try_map_length[OF ok] by (simp add: rows addressed_addresses)
    fix j assume j: "j < length ts"
    obtain i r where ir: "row_addresses ?rowss ! j = (i, r)" by fastforce
    have "(i, r) \<in> set (row_addresses ?rowss)"
      using j len ir by (metis min_less_iff_conj nth_mem)
    then have range: "i < length listed" "r < length (opened_rows K R st (listed ! i))"
      using row_addresses_range[of i r ?rowss] by auto
    have base: "sum_list (map (\<lambda>rows. nchunks (length rows)) (take i ?rowss)) = base_id footer listed i"
      by (simp add: base_id_chunks take_map[symmetric] o_def counts)
    have "tuple_of C st (olds ! j, base_id footer listed i, r, opened_rows K R st (listed ! i) ! r) = Ok (ts ! j)"
      using try_map_nth[OF ok, of j] j len ir range by (simp add: rows addressed_addresses base)
    moreover have "r < footer_count footer (fst (listed ! i))"
      using range assms(7) by (simp add: list_all_length)
    ultimately have "tuple_addresses C st plan (listed ! i) (opened_rows K R st (listed ! i) ! r) r (olds ! j) (ts ! j)"
      by (rule tuple_of_addresses[OF _ assms(5,4,6) range(1)])
    then show "\<exists>i r. row_addresses ?rowss ! j = (i, r)
        \<and> tuple_addresses C st plan (listed ! i) (opened_rows K R st (listed ! i) ! r) r (olds ! j) (ts ! j)"
      using ir by blast
  qed
  then show ?thesis
    using scan_run_rows[OF inv, of D C olds] by simp
qed

definition id_footer :: "string \<Rightarrow> int fdw_result" where
  "id_footer name = Ok (if name = ''a'' then 3 else 1)"

definition id_plan :: modify_plan where
  "id_plan = \<lparr> blob_table = [\<lparr> be_name = ''a'', chunk_base_row = 0, be_etag = ''e1'' \<rparr>, \<lparr> be_name = ''b'', chunk_base_row = 0, be_etag = ''e2'' \<rparr>],
    edits = [], plan_schema = [], pg_oids = [], update_attnums = [], plan_compression = Snappy, is_delete = True, ctid_attno = 1, edit_count = 0 \<rparr>"

lemma id_table: "build_blob_table id_footer id_listed = Ok (blob_table id_plan)"
  by (simp add: id_listed_def id_footer_def id_plan_def blob_row_count_def u32_MAX_def blob_chunks_def div_ceil_def)

abbreviation id_scan :: "pushed_expr list option \<Rightarrow> (nat, sequential_ranges) scan_state" where
  "id_scan quals \<equiv> assemble_scan_state (id_core quals) (sequential_over id_listed)"

lemma id_stream:
  "open_scan_stream list_kernels (list_reader id_files) [0] None ''a'' = Ok [Inr (id_batch [1, 2, 3])]"
  "open_scan_stream list_kernels (list_reader id_files) [0] None ''b'' = Ok [Inr (id_batch [4])]"
  by (simp_all add: open_scan_stream_def open_stream_def list_reader_def id_files_def select_columns_def id_batch_def)

lemma id_scan_fields:
  "sc_projection (assemble_scan_state (id_core quals) p) = [0]" "sc_quals (assemble_scan_state (id_core quals) p) = quals"
  "sc_oids (assemble_scan_state (id_core quals) p) = [INT8OID]" "sc_attno_map (assemble_scan_state (id_core quals) p) = [0]"
  "sc_part (assemble_scan_state (id_core quals) p) = []" "core_keys (id_core quals) = []"
  by (simp_all add: assemble_scan_state_def id_core_def)

lemma id_rows:
  "map (opened_rows list_kernels (list_reader id_files) (id_scan None)) id_listed
    = [map (Pair (id_batch [1, 2, 3])) [0..<3], map (Pair (id_batch [4])) [0..<1]]"
  by (simp add: opened_rows_def id_scan_fields id_listed_def id_stream stream_rows_def) (simp add: id_batch_def upt_rec)

theorem scan_ctids_resolve_witness:
  "\<exists>result. scan_run plain_dbg list_kernels plain_convert (list_reader id_files) sequential_next_blob (replicate 9 [None]) (id_scan None) = Some result
    \<and> (\<forall>ts. result = Ok ts \<longrightarrow> length ts = 4
        \<and> tuple_addresses plain_convert (id_scan None) id_plan (''b'', ''e2'') (id_batch [4], 0) 0 [None] (ts ! 3))"
proof -
  have fine: "list_all (opens_fine list_kernels (list_reader id_files) (id_scan None)) id_listed"
    by (simp add: id_listed_def opens_fine_def id_scan_fields id_stream)
  have counts: "list_all (\<lambda>b. footer_count id_footer (fst b) = length (opened_rows list_kernels (list_reader id_files) (id_scan None) b)) id_listed"
    using id_rows by (simp add: id_listed_def footer_count_def id_footer_def blob_row_count_def)
  have misc: "core_keys (id_core None) = []" "distinct (map fst id_listed)" "length (blob_table id_plan) < 2 ^ 32"
    by (simp_all add: id_core_def id_listed_def id_plan_def)
  have addresses: "row_addresses (map (opened_rows list_kernels (list_reader id_files) (id_scan None)) id_listed) = [(0, 0), (0, 1), (0, 2), (1, 0)]"
    unfolding id_rows by (simp add: row_addresses_def upt_rec)
  have row: "opened_rows list_kernels (list_reader id_files) (id_scan None) (id_listed ! 1) ! 0 = (id_batch [4], 0)" "id_listed ! 1 = (''b'', ''e2'')"
    using id_rows by (simp_all add: id_listed_def)
  obtain result where r: "scan_run plain_dbg list_kernels plain_convert (list_reader id_files) sequential_next_blob (replicate 9 [None]) (id_scan None) = Some result"
    and ts: "\<And>ts. result = Ok ts \<Longrightarrow> length ts = min (length (replicate 9 [None :: pg_datum option])) (length [(0, 0), (0, 1), (0, 2), (1 :: nat, 0 :: nat)])
      \<and> (\<forall>j < length ts. \<exists>i r. [(0, 0), (0, 1), (0, 2), (1, 0)] ! j = (i, r)
        \<and> tuple_addresses plain_convert (id_scan None) id_plan (id_listed ! i)
            (opened_rows list_kernels (list_reader id_files) (id_scan None) (id_listed ! i) ! r) r (replicate 9 [None] ! j) (ts ! j))"
    using scan_ctids_resolve[OF refl misc(1) fine misc(2) id_table misc(3) counts, of plain_dbg plain_convert "replicate 9 [None]"]
    unfolding addresses by (elim exE conjE) (rule that, assumption, blast)
  have "length ts = 4 \<and> tuple_addresses plain_convert (id_scan None) id_plan (''b'', ''e2'') (id_batch [4], 0) 0 [None] (ts ! 3)"
    if ok: "result = Ok ts" for ts
  proof -
    have len: "length ts = 4" using ts[OF ok] by simp
    then have "3 < length ts" by simp
    with ts[OF ok] obtain i r where "[(0, 0), (0, 1), (0, 2), (1, 0)] ! 3 = (i, r)"
      and t: "tuple_addresses plain_convert (id_scan None) id_plan (id_listed ! i)
        (opened_rows list_kernels (list_reader id_files) (id_scan None) (id_listed ! i) ! r) r (replicate 9 [None] ! 3) (ts ! 3)"
      by blast
    then have "i = 1" "r = 0" by simp_all
    then show ?thesis using t len row by simp
  qed
  then show ?thesis using r by blast
qed

text \<open>The set-up of a scan does not look at the command, so an UPDATE or DELETE gets the pushed quals of its
  plan like a SELECT.\<close>

lemma scan_setup_any_command:
  "build_scan_state_core sdk svc regex_new C cat (node \<lparr> sn_cmd := cmd \<rparr>) relid s = build_scan_state_core sdk svc regex_new C cat node relid s"
proof -
  have "sn_tupdesc (node \<lparr> sn_cmd := cmd \<rparr>) = sn_tupdesc node" "sn_plan (node \<lparr> sn_cmd := cmd \<rparr>) = sn_plan node" by simp_all
  then show ?thesis unfolding build_scan_state_core_def scan_quals_def by (simp only:)
qed

lemma nchunks_mono: "m \<le> n \<Longrightarrow> nchunks m \<le> nchunks n"
  by (rule lift_Suc_mono_le[of nchunks]) (simp add: nchunks_Suc)

text \<open>In an increasing list of row numbers with a number left out, those after it stand too early.\<close>

lemma position_after_gap:
  fixes ps :: "nat list"
  assumes "sorted_wrt (<) ps" "j < length ps" "p < ps ! j" "p \<notin> set ps"
  shows "j < ps ! j"
proof -
  have "set (take j ps) \<subseteq> {..<ps ! j} - {p}"
    using assms(1,2,4) in_set_takeD[of p j ps] by (auto simp: in_set_conv_nth[of _ "take j ps"] sorted_wrt_iff_nth_less)
  then have "card (set (take j ps)) \<le> card ({..<ps ! j} - {p})" by (intro card_mono) auto
  moreover have "distinct ps" using assms(1) by (simp add: strict_sorted_iff)
  then have "card (set (take j ps)) = j" using assms(2) by (simp add: distinct_card)
  ultimately show ?thesis using assms(3) by simp
qed

definition row_cells :: "row_ref \<Rightarrow> row" where
  "row_cells x = batch_rows (fst x) ! snd x"

lemma scan_run_first_blob:
  assumes "st = assemble_scan_state core (sequential_over (b # bs))" "core_keys core = []" "list_all (opens_fine K R st) (b # bs)"
    "build_blob_table footer (b # bs) = Ok (blob_table plan)" "length (blob_table plan) < 2 ^ 32"
    "list_all (\<lambda>b. length (opened_rows K R st b) \<le> footer_count footer (fst b)) (b # bs)"
    "scan_run D K C R sequential_next_blob olds st = Some (Ok ts)" "j < length olds" "j < length (opened_rows K R st b)"
  shows "tuple_of C st (olds ! j, 0, j, opened_rows K R st b ! j) = Ok (ts ! j)"
proof -
  let ?rowss = "map (opened_rows K R st) (b # bs)"
  have "sum_list (map (\<lambda>b. nchunks (length (opened_rows K R st b))) (b # bs)) \<le> sum_list (map (\<lambda>b. nchunks (footer_count footer (fst b))) (b # bs))"
    using assms(6) by (intro sum_list_mono nchunks_mono) (auto simp: list_all_iff)
  then have "sum_list (map (\<lambda>b. nchunks (length (opened_rows K R st b))) (b # bs)) \<le> 2 ^ 32"
    using table_chunks[OF assms(4)] assms(5) by simp
  from assembled_inv[OF assms(2), of K R "b # bs"] assms(1,3) this
  have inv: "scan_inv K R st" and rows: "to_come K R st = addressed 0 ?rowss" by simp_all
  have ok: "try_map (tuple_of C st) (zip olds (addressed 0 ?rowss)) = Ok ts"
    using scan_run_rows[OF inv, of D C olds] assms(7) by (simp add: rows)
  have "addressed 0 ?rowss ! j = (0, j, opened_rows K R st b ! j)" "j < length (addressed 0 ?rowss)"
    using assms(9) by (simp_all add: nth_append nth_enumerate_eq)
  then show ?thesis using try_map_nth[OF ok, of j] assms(8) by simp
qed

text \<open>C10: with a pushed row filter an UPDATE or DELETE edits the wrong rows.  The scan numbers the rows the
  filter lets through, the rewrite numbers all rows of the blob.  Let the reader deliver of the first
  blob, whose rows are \<open>rows\<close>, those with the numbers \<open>ps\<close>, in order.  When a row \<open>p\<close> before the row of the
  \<open>j\<close>-th tuple was filtered out, the tuple carries the row with the number \<open>ps ! j\<close>, and its ctid, resolved
  by the modify path, leads to the same blob but to a smaller row number.  (Unpartitioned tables; the set-up
  of the scan gives an UPDATE or DELETE the quals of its plan, lemma \<open>scan_setup_any_command\<close>.)\<close>

theorem filtered_scan_misaddresses:
  fixes core :: "'c scan_core" and rows :: "row list"
  assumes "st = assemble_scan_state core (sequential_over (b # bs))" and "core_keys core = []"
    and "list_all (opens_fine K R st) (b # bs)" and "distinct (map fst (b # bs))"
    and "build_blob_table footer (b # bs) = Ok (blob_table plan)" and "length (blob_table plan) < 2 ^ 32"
    and "list_all (\<lambda>b. length (opened_rows K R st b) \<le> footer_count footer (fst b)) (b # bs)"
    and "map row_cells (opened_rows K R st b) = map ((!) rows) ps" and "sorted_wrt (<) ps"
    and "scan_run D K C R sequential_next_blob olds st = Some (Ok ts)"
    and "j < length olds" and "j < length ps" and "p < ps ! j" and "p \<notin> set ps"
  shows "\<exists>x r. row_cells x = rows ! (ps ! j) \<and> r < ps ! j \<and> tuple_addresses C st plan b x r (olds ! j) (ts ! j)"
proof -
  let ?x = "opened_rows K R st b ! j"
  have len: "length (opened_rows K R st b) = length ps" using assms(8) by (metis length_map)
  have cells: "row_cells ?x = rows ! (ps ! j)" using arg_cong[OF assms(8), of "\<lambda>l. l ! j"] assms(12) len by simp
  have j: "j < footer_count footer (fst b)" using assms(7,12) len by simp
  have "tuple_of C st (olds ! j, base_id footer (b # bs) 0, j, ?x) = Ok (ts ! j)"
    using scan_run_first_blob[OF assms(1-3,5-7,10,11)] assms(12) len by (simp add: base_id_chunks)
  from tuple_of_addresses[OF this assms(5,4,6)] j
  have "tuple_addresses C st plan b ?x j (olds ! j) (ts ! j)" by simp
  then show ?thesis using cells position_after_gap[OF assms(9,12,13,14)] by blast
qed

theorem filtered_scan_misaddresses_witness:
  "\<exists>t x. scan_run plain_dbg list_kernels plain_convert (list_reader id_files) sequential_next_blob [[None], [None]]
      (assemble_scan_state (id_core (Some [col_eq 0 2])) (sequential_over [(''a'', ''e1'')])) = Some (Ok [t])
    \<and> row_cells x = [Some (CInt 2)] \<and> batch_rows (id_batch [1, 2, 3]) ! 0 = [Some (CInt 1)]
    \<and> tuple_addresses plain_convert (assemble_scan_state (id_core (Some [col_eq 0 2])) (sequential_over [(''a'', ''e1'')]))
        (id_plan \<lparr> blob_table := [\<lparr> be_name = ''a'', chunk_base_row = 0, be_etag = ''e1'' \<rparr>] \<rparr>) (''a'', ''e1'') x 0 [None] t"
proof -
  let ?st = "assemble_scan_state (id_core (Some [col_eq 0 2])) (sequential_over [(''a'', ''e1'')])"
  let ?plan = "id_plan \<lparr> blob_table := [\<lparr> be_name = ''a'', chunk_base_row = 0, be_etag = ''e1'' \<rparr>] \<rparr>"
  have stream: "open_scan_stream list_kernels (list_reader id_files) [0] (Some [col_eq 0 2]) ''a'' = Ok [Inr (id_batch [2])]"
    by code_simp
  note f = id_scan_fields
  have rows: "opened_rows list_kernels (list_reader id_files) ?st (''a'', ''e1'') = [(id_batch [2], 0)]"
    by (simp add: opened_rows_def f stream stream_rows_def) (simp add: id_batch_def)
  have fine: "list_all (opens_fine list_kernels (list_reader id_files) ?st) [(''a'', ''e1'')]"
    by (simp add: opens_fine_def f stream)
  have inv: "scan_inv list_kernels (list_reader id_files) ?st"
    "to_come list_kernels (list_reader id_files) ?st = [(0, 0, (id_batch [2], 0))]"
    using assembled_inv[of "id_core (Some [col_eq 0 2])" list_kernels "list_reader id_files" "[(''a'', ''e1'')]"] fine
    by (simp_all add: f rows nchunks_def div_ceil_def enumerate_eq_zip)
  have "\<exists>t. tuple_of plain_convert ?st ([None], 0, 0, (id_batch [2], 0)) = Ok t"
    by (simp add: tuple_of_def fill_slot_def f inject_partitions_def)
      (simp add: id_batch_def arrow_value_to_datum_def value_to_datum_def array_len_def downcast_def)
  then obtain t where run: "scan_run plain_dbg list_kernels plain_convert (list_reader id_files) sequential_next_blob [[None], [None]] ?st = Some (Ok [t])"
    using scan_run_rows[OF inv(1), of plain_dbg plain_convert "[[None], [None]]"] by (auto simp: inv(2) simp del: scan_run.simps)
  have table: "build_blob_table id_footer [(''a'', ''e1'')] = Ok (blob_table ?plan)"
    by (simp add: id_footer_def blob_row_count_def u32_MAX_def blob_chunks_def div_ceil_def)
  have cells: "map row_cells (opened_rows list_kernels (list_reader id_files) ?st (''a'', ''e1'')) = map ((!) (batch_rows (id_batch [1, 2, 3]))) [1]"
    unfolding rows by (simp add: row_cells_def batch_rows_def id_batch_def)
  have count: "list_all (\<lambda>b. length (opened_rows list_kernels (list_reader id_files) ?st b) \<le> footer_count id_footer (fst b)) [(''a'', ''e1'')]"
    by (simp add: rows footer_count_def id_footer_def blob_row_count_def)
  have misc: "core_keys (id_core (Some [col_eq 0 2])) = []" "distinct (map fst [(''a'', ''e1'')])" "length (blob_table ?plan) < 2 ^ 32"
    by (simp_all add: id_core_def)
  from filtered_scan_misaddresses[OF refl misc(1) fine misc(2) table misc(3) count cells _ run, of 0 0]
  obtain x where "row_cells x = batch_rows (id_batch [1, 2, 3]) ! 1" "tuple_addresses plain_convert ?st ?plan (''a'', ''e1'') x 0 [None] t"
    by auto
  moreover have "batch_rows (id_batch [1, 2, 3]) ! 1 = [Some (CInt 2)]" "batch_rows (id_batch [1, 2, 3]) ! 0 = [Some (CInt 1)]"
    by (simp_all add: batch_rows_def id_batch_def)
  ultimately show ?thesis using run by (intro exI[of _ t] exI[of _ x]) (simp only: conj_assoc)
qed

section \<open>Rescans\<close>

text \<open>A rescan of an unsorted scan starts over: the rows to come are all rows of the scan's blobs, from the
  first identifier on, and the list is published again.\<close>

lemma re_scan_starts_over:
  assumes "re_scan_foreign_scan em D R node (Some relid) st h = (Ok st', h')" "sc_sorted st = None"
  shows "to_come K R' st' = addressed 0 (map (opened_rows K R' st) (sc_blobs st))"
    and "h' = publish relid (sc_blobs st) (discard relid h)"
proof -
  have st': "st' = st \<lparr> sc_cur_stream := None, sc_cur_batch := None, sc_cur_row := 0, sc_cur_blob := 0, sc_table := [],
      sc_base := 0, sc_row_in_blob := 0, sc_producer := sequential_over (sc_blobs st), sc_sorted := None \<rparr>"
    and h': "h' = publish relid (sc_blobs st) (discard relid h)"
    using assms by (auto simp: re_scan_foreign_scan_def Let_def)
  have "opened_rows K R' st' = opened_rows K R' st" "cur_pending st' = []" "sc_table st' = []" "blobs_left st' = sc_blobs st"
    by (simp_all add: st' opened_rows_def cur_pending_def blobs_left_def sequential_over_def fun_eq_iff)
  then show "to_come K R' st' = addressed 0 (map (opened_rows K R' st) (sc_blobs st))"
    by (simp add: to_come_def next_base_def)
  show "h' = publish relid (sc_blobs st) (discard relid h)"
    by (rule h')
qed

end
