(* ===== verification/Modify.thy ===== *)
theory Modify
  imports Scan_Rows
begin

text \<open>
  The modify callbacks of \<^verbatim>\<open>src/fdw/modify/insert.rs\<close> and \<^verbatim>\<open>src/fdw/modify/update.rs\<close>: from
  \<^verbatim>\<open>BeginForeignModify\<close> through one call per row to \<^verbatim>\<open>EndForeignModify\<close>, with the state that
  \<^verbatim>\<open>ri_FdwState\<close> holds in between (\<^verbatim>\<open>src/fdw/modify/mod.rs\<close>) and the helpers of \<^verbatim>\<open>src/fdw/mod.rs\<close>.

  What PostgreSQL hands over is the record \<open>modify_node\<close>; opening a blob's footer is the parameter
  \<open>footer_rows\<close>.  The property is what a whole DELETE does.
\<close>

section \<open>What the executor hands over\<close>

text \<open>\<open>mt_outer\<close>: \<open>None\<close> without an outer plan state, \<open>Some None\<close> without its plan,
  \<open>Some (Some None)\<close> with an empty target list, else the attribute number found for \<^verbatim>\<open>ctid\<close>.\<close>

record modify_node =
  mt_operation :: cmd_type
  mt_subplan :: int
  mt_update_colnos :: "int list option list option"
  mt_outer :: "int option option option"

definition update_cols_for_subplan :: "modify_node \<Rightarrow> nat list fdw_result" where
  "update_cols_for_subplan node =
    (if mt_operation node \<noteq> CMD_UPDATE then Ok []
     else if mt_subplan node < 0 then Ok []
     else (case mt_update_colnos node of
             None \<Rightarrow> Ok []
           | Some ls \<Rightarrow>
               if nat (mt_subplan node) < length ls
               then Ok (case ls ! nat (mt_subplan node) of
                          None \<Rightarrow> []
                        | Some cell \<Rightarrow> map (\<lambda>a. nat (a - 1)) (filter (\<lambda>a. a \<ge> 1) cell))
               else Err (Panic ''list_nth out of range'')))"

section \<open>Building the plan of an UPDATE or DELETE\<close>

fun plan_attrs :: "pg_attribute list \<Rightarrow> (pg_attribute list \<times> nat list) fdw_result" where
  "plan_attrs [] = Ok ([], [])"
| "plan_attrs (att # atts) =
    (if attisdropped att then Err (SchemaMismatch (''dropped column at attnum '' @ show_int (attnum att)))
     else and_then (plan_attrs atts) (\<lambda>(as, oids). Ok (att # as, atttypid att # oids)))"

fun reject_partition_update :: "nat list \<Rightarrow> nat list \<Rightarrow> string list \<Rightarrow> unit fdw_result" where
  "reject_partition_update [] part names = Ok ()"
| "reject_partition_update (col # cols) part names =
    (if col \<in> set part then Err (SchemaMismatch (''cannot UPDATE partition column ''
       @ quoted (if col < length names then names ! col else ''attno='' @ show_nat col) @ '' '' @ em_dash
       @ '' partition values are encoded in the blob path, not the parquet data. DELETE + INSERT to relocate.''))
     else reject_partition_update cols part names)"

definition find_ctid_attno :: "modify_node \<Rightarrow> int fdw_result" where
  "find_ctid_attno node =
    (case mt_outer node of
       None \<Rightarrow> Err (SchemaMismatch ''ModifyTableState has no outer PlanState (subplan)'')
     | Some None \<Rightarrow> Err (SchemaMismatch ''outer PlanState has no Plan node'')
     | Some (Some None) \<Rightarrow> Ok 0
     | Some (Some (Some attno)) \<Rightarrow> Ok attno)"

definition missing_handoff :: "nat \<Rightarrow> fdw_error" where
  "missing_handoff relid = SchemaMismatch (''no scan-time blob list published for relid '' @ show_nat relid
    @ ''; UPDATE/DELETE requires a preceding ForeignScan that publishes etags via scan_handoff'')"

text \<open>What follows once the blob list is known.\<close>

definition finish_plan ::
  "(string \<Rightarrow> int fdw_result) \<Rightarrow> table_options \<Rightarrow> pg_attribute list \<Rightarrow> modify_node \<Rightarrow> bool \<Rightarrow> blob_ref list \<Rightarrow> modify_plan fdw_result" where
  "finish_plan footer_rows table_opts tupdesc node is_del listed =
    and_then (build_blob_table footer_rows listed) (\<lambda>tab.
    and_then (plan_attrs tupdesc) (\<lambda>(attrs, oids).
    and_then (pg_attrs_to_arrow_schema attrs) (\<lambda>sch.
    and_then (if is_del then Ok [] else update_cols_for_subplan node) (\<lambda>cols.
    and_then (if \<not> is_del \<and> partition_columns table_opts \<noteq> []
              then reject_partition_update cols (List.map_filter (find_attr tupdesc) (partition_columns table_opts))
                (map (\<lambda>att. from_utf8_lossy (c_string (attname att))) tupdesc)
              else Ok ()) (\<lambda>_.
    and_then (find_ctid_attno node) (\<lambda>attno.
    Ok \<lparr> blob_table = tab, edits = [], plan_schema = sch, pg_oids = oids, update_attnums = cols,
         plan_compression = compression table_opts, is_delete = is_del, ctid_attno = attno, edit_count = 0 \<rparr>))))))"

definition build_plan ::
  "('tok, 'url, 'c) azure_sdk \<Rightarrow> ('c azure_client \<Rightarrow> string \<Rightarrow> int fdw_result) \<Rightarrow> foreign_catalog \<Rightarrow> nat \<Rightarrow> pg_attribute list
    \<Rightarrow> modify_node \<Rightarrow> bool \<Rightarrow> handoff \<Rightarrow> (modify_plan \<times> 'c azure_client) fdw_result \<times> handoff" where
  "build_plan sdk footer_rows cat relid tupdesc node is_del h =
    (case read_all_options (url_host sdk) cat relid of
       Inl e \<Rightarrow> (Err e, h)
     | Inr (server_opts, um_opts, table_opts) \<Rightarrow>
    (case connect sdk server_opts um_opts (container table_opts) of
       Inl e \<Rightarrow> (Err e, h)
     | Inr client \<Rightarrow>
    st_then (take_unique relid h) (\<lambda>found h'.
    (case found of
       None \<Rightarrow> (Err (missing_handoff relid), h')
     | Some listed \<Rightarrow>
         (and_then (finish_plan (footer_rows client) table_opts tupdesc node is_del listed) (\<lambda>plan. Ok (plan, client)), h')))))"

section \<open>The state between the callbacks\<close>

datatype ('w, 'c) fdw_modify_state = InsertState "'w insert_state" "'c azure_client" | UpdateState modify_plan "'c azure_client"

record ('s, 'w, 'c) session =
  ses_backend :: "'s backend"
  ses_handoff :: handoff
  ri_FdwState :: "('w, 'c) fdw_modify_state option"

definition take_state :: "('s, 'w, 'c) session \<Rightarrow> ('w, 'c) fdw_modify_state option \<times> ('s, 'w, 'c) session" where
  "take_state ses = (ri_FdwState ses, ses \<lparr> ri_FdwState := None \<rparr>)"

definition state_client :: "('w, 'c) fdw_modify_state \<Rightarrow> 'c azure_client" where
  "state_client st = (case st of InsertState _ c \<Rightarrow> c | UpdateState _ c \<Rightarrow> c)"

fun cmd_number :: "cmd_type \<Rightarrow> string" where
  "cmd_number CMD_SELECT = ''1''"
| "cmd_number CMD_UPDATE = ''2''"
| "cmd_number CMD_INSERT = ''3''"
| "cmd_number CMD_DELETE = ''4''"
| "cmd_number (CMD_OTHER n) = n"

definition begin_state ::
  "('tok, 'url, 'c) azure_sdk \<Rightarrow> ('c azure_client \<Rightarrow> string \<Rightarrow> int fdw_result) \<Rightarrow> foreign_catalog \<Rightarrow> nat \<Rightarrow> pg_attribute list
    \<Rightarrow> modify_node \<Rightarrow> handoff \<Rightarrow> ('w, 'c) fdw_modify_state fdw_result \<times> handoff" where
  "begin_state sdk footer_rows cat relid tupdesc node h =
    (case mt_operation node of
       CMD_INSERT \<Rightarrow> (and_then (build_state sdk cat relid tupdesc) (\<lambda>(st, c). Ok (InsertState st c)), h)
     | CMD_UPDATE \<Rightarrow> st_then (build_plan sdk footer_rows cat relid tupdesc node False h) (\<lambda>(p, c) h'. (Ok (UpdateState p c), h'))
     | CMD_DELETE \<Rightarrow> st_then (build_plan sdk footer_rows cat relid tupdesc node True h) (\<lambda>(p, c) h'. (Ok (UpdateState p c), h'))
     | other \<Rightarrow> (Err (SchemaMismatch (''unsupported CmdType '' @ cmd_number other)), h))"

definition begin_foreign_modify ::
  "('tok, 'url, 'c) azure_sdk \<Rightarrow> ('c azure_client \<Rightarrow> string \<Rightarrow> int fdw_result) \<Rightarrow> foreign_catalog \<Rightarrow> nat \<Rightarrow> pg_attribute list
    \<Rightarrow> modify_node \<Rightarrow> bool \<Rightarrow> ('s, 'w, 'c) session \<Rightarrow> unit fdw_result \<times> ('s, 'w, 'c) session" where
  "begin_foreign_modify sdk footer_rows cat relid tupdesc node explain_only ses =
    (if explain_only then (Ok (), ses)
     else (case begin_state sdk footer_rows cat relid tupdesc node (ses_handoff ses) of
             (Inl e, h) \<Rightarrow> (Err e, ses \<lparr> ses_handoff := h \<rparr>)
           | (Inr st, h) \<Rightarrow>
               (Ok (), ses \<lparr> ses_backend := (ses_backend ses) \<lparr> slot := snd (open_statement (slot (ses_backend ses))) \<rparr>,
                             ses_handoff := h, ri_FdwState := Some st \<rparr>)))"

section \<open>One row\<close>

text \<open>The plan slot: the columns of its descriptor, and what \<^verbatim>\<open>ExecGetJunkAttribute\<close> gives for an attribute
  number: \<open>None\<close> for null, \<open>Some None\<close> for a null pointer.\<close>

record plan_slot =
  ps_tupdesc :: "pg_attribute list"
  ps_junk :: "int \<Rightarrow> item_pointer option option"

definition read_ctid_via_junk :: "plan_slot \<Rightarrow> int \<Rightarrow> row_id fdw_result" where
  "read_ctid_via_junk ps attno =
    and_then (if attno = 0
              then ok_or (map_option (\<lambda>i. int i + 1) (position (\<lambda>att. \<not> attisdropped att \<and> c_string (attname att) = ''ctid'') (ps_tupdesc ps)))
                (SchemaMismatch ''could not find resjunk ctid column on plan slot tupdesc'')
              else Ok attno) (\<lambda>a.
    and_then (ok_or (ps_junk ps a) (SchemaMismatch ''resjunk ctid is NULL on UPDATE/DELETE plan slot'')) (\<lambda>datum.
    and_then (ok_or datum (SchemaMismatch ''resjunk ctid datum unexpectedly null'')) (\<lambda>ip.
    Ok (from_ctid ip))))"

definition datum_to_single_row_array ::
  "convert_lib \<Rightarrow> arrow_ops \<Rightarrow> nat \<Rightarrow> pg_datum option \<Rightarrow> schema \<Rightarrow> nat \<Rightarrow> arrow_array fdw_result" where
  "datum_to_single_row_array C A oid datum sch col =
    (if col < length sch then
       and_then (builders_new C [sch ! col]) (\<lambda>b.
       and_then (append_one C 0 oid datum b) (\<lambda>b'.
       and_then (builders_finish A b') (\<lambda>rb.
       if columns rb = [] then Err (Panic ''index out of bounds'') else Ok (hd (columns rb)))))
     else Err (Panic ''index out of bounds''))"

definition update_plan_of :: "string \<Rightarrow> ('s, 'w, 'c) session \<Rightarrow> (modify_plan \<times> 'c azure_client) fdw_result" where
  "update_plan_of callback ses =
    (case ri_FdwState ses of
       None \<Rightarrow> Err (SchemaMismatch (callback @ '' called without initialised ri_FdwState''))
     | Some (InsertState _ _) \<Rightarrow> Err (SchemaMismatch (callback @ '' on non-update state''))
     | Some (UpdateState p c) \<Rightarrow> Ok (p, c))"

definition exec_foreign_delete :: "plan_slot \<Rightarrow> ('s, 'w, 'c) session \<Rightarrow> ('s, 'w, 'c) session fdw_result" where
  "exec_foreign_delete ps ses =
    and_then (update_plan_of ''exec_foreign_delete'' ses) (\<lambda>(plan, client).
    and_then (read_ctid_via_junk ps (ctid_attno plan)) (\<lambda>rid.
    and_then (record_delete rid plan) (\<lambda>plan'.
    Ok (ses \<lparr> ri_FdwState := Some (UpdateState plan' client) \<rparr>))))"

fun override_values ::
  "convert_lib \<Rightarrow> arrow_ops \<Rightarrow> modify_plan \<Rightarrow> pg_datum option list \<Rightarrow> nat list \<Rightarrow> row_override \<Rightarrow> row_override fdw_result" where
  "override_values C A plan vals [] ovr = Ok ovr"
| "override_values C A plan vals (col # cols) ovr =
    (if col \<ge> length (plan_schema plan) then Err (SchemaMismatch (''update_attnums col '' @ show_nat col
       @ '' >= tupdesc natts '' @ show_nat (length (plan_schema plan))))
     else if col \<ge> length vals \<or> col \<ge> length (modify_plan.pg_oids plan) then Err (Panic ''index out of bounds'')
     else
      and_then (datum_to_single_row_array C A (modify_plan.pg_oids plan ! col) (vals ! col) (plan_schema plan) col) (\<lambda>one.
      override_values C A plan vals cols (ovr[col := Some one])))"

definition exec_foreign_update ::
  "convert_lib \<Rightarrow> arrow_ops \<Rightarrow> pg_datum option list \<Rightarrow> plan_slot \<Rightarrow> ('s, 'w, 'c) session \<Rightarrow> ('s, 'w, 'c) session fdw_result" where
  "exec_foreign_update C A vals ps ses =
    and_then (update_plan_of ''exec_foreign_update'' ses) (\<lambda>(plan, client).
    and_then (read_ctid_via_junk ps (ctid_attno plan)) (\<lambda>rid.
    and_then (override_values C A plan vals (update_attnums plan) (replicate (length (plan_schema plan)) None)) (\<lambda>ovr.
    and_then (record_update rid ovr plan) (\<lambda>plan'.
    Ok (ses \<lparr> ri_FdwState := Some (UpdateState plan' client) \<rparr>)))))"

definition exec_foreign_insert ::
  "convert_lib \<Rightarrow> arrow_ops \<Rightarrow> 'w parquet_lib \<Rightarrow> (nat \<Rightarrow> string \<times> string) \<Rightarrow> (partition_key list \<Rightarrow> partition_key list)
    \<Rightarrow> pg_datum option list \<Rightarrow> ('s, 'w, 'c) session \<Rightarrow> ('s, 'w, 'c) session fdw_result" where
  "exec_foreign_insert C A L stamp order vals ses =
    (case ri_FdwState ses of
       None \<Rightarrow> Err (SchemaMismatch ''exec_foreign_insert called without initialised ri_FdwState'')
     | Some (UpdateState _ _) \<Rightarrow> Err (SchemaMismatch ''exec_foreign_insert on non-insert state'')
     | Some (InsertState st client) \<Rightarrow>
         and_then (insert_row C A L stamp order vals st) (\<lambda>st'.
         Ok (ses \<lparr> ri_FdwState := Some (InsertState st' client) \<rparr>)))"

section \<open>The end of the statement\<close>

text \<open>On success the coordinator of the statement is dropped; after an error it stays, for the transaction
  callback.\<close>

definition close_on_success :: "unit fdw_result \<times> ('s, 'w, 'c) session \<Rightarrow> unit fdw_result \<times> ('s, 'w, 'c) session" where
  "close_on_success out =
    st_then out (\<lambda>_ ses. (Ok (), ses \<lparr> ses_backend := (ses_backend ses) \<lparr> slot := snd (close_statement_success (slot (ses_backend ses))) \<rparr> \<rparr>))"

definition end_foreign_modify ::
  "('c azure_client \<Rightarrow> 's blob_service) \<Rightarrow> convert_lib \<Rightarrow> arrow_ops \<Rightarrow> 'w parquet_lib \<Rightarrow> (partition_key list \<Rightarrow> partition_key list)
    \<Rightarrow> (nat \<Rightarrow> string) \<Rightarrow> bool \<Rightarrow> ('s, 'w, 'c) session \<Rightarrow> unit fdw_result \<times> ('s, 'w, 'c) session" where
  "end_foreign_modify svc C A L order uuid aborted ses =
    (case take_state ses of
       (None, ses1) \<Rightarrow> (Ok (), ses1)
     | (Some st, ses1) \<Rightarrow>
         if aborted then (Ok (), ses1)
         else close_on_success
          (case st of
             InsertState s client \<Rightarrow>
               (case finalize_and_upload (svc client) C A L order s (store (ses_backend ses1)) of
                  (r, s') \<Rightarrow> (r, ses1 \<lparr> ses_backend := (ses_backend ses1) \<lparr> store := s' \<rparr> \<rparr>))
           | UpdateState p client \<Rightarrow>
               (case commit_plan (svc client) L A uuid p (ses_backend ses1) of
                  (r, be) \<Rightarrow> (r, ses1 \<lparr> ses_backend := be \<rparr>))))"

section \<open>Refusals and early ends\<close>

lemma reject_partition_update_iff:
  "reject_partition_update cols part names = Ok () \<longleftrightarrow> set cols \<inter> set part = {}"
  by (induction cols) auto

text \<open>Without a blob list from a scan no plan is built, and with two there is none either.\<close>

lemma no_handoff_refused:
  assumes "read_all_options (url_host sdk) cat relid = Ok (server, um, table)" "connect sdk server um (container table) = Ok client"
  shows "h relid = None \<Longrightarrow> build_plan sdk footer_rows cat relid tupdesc node is_del h = (Err (missing_handoff relid), h)"
    and "h relid = Some (a # b # rest) \<Longrightarrow> build_plan sdk footer_rows cat relid tupdesc node is_del h
      = (Err (ambiguous_handoff relid (length rest + 2)), h(relid := None))"
  using assms by (simp_all add: build_plan_def take_unique_def)

text \<open>A statement in an aborted transaction, and one that never began, leave the store alone.\<close>

lemma end_without_commit:
  assumes "aborted \<or> ri_FdwState ses = None"
  shows "end_foreign_modify svc C A L order uuid aborted ses = (Ok (), ses \<lparr> ri_FdwState := None \<rparr>)"
  using assms by (auto simp: end_foreign_modify_def take_state_def split: option.splits)

section \<open>A run of deletions\<close>

text \<open>The calls the executor makes for a DELETE whose rows arrive in \<open>slots\<close>.\<close>

definition delete_statement ::
  "('c azure_client \<Rightarrow> 's blob_service) \<Rightarrow> convert_lib \<Rightarrow> arrow_ops \<Rightarrow> 'w parquet_lib \<Rightarrow> (partition_key list \<Rightarrow> partition_key list)
    \<Rightarrow> (nat \<Rightarrow> string) \<Rightarrow> ('tok, 'url, 'c) azure_sdk \<Rightarrow> ('c azure_client \<Rightarrow> string \<Rightarrow> int fdw_result) \<Rightarrow> foreign_catalog \<Rightarrow> nat
    \<Rightarrow> pg_attribute list \<Rightarrow> modify_node \<Rightarrow> plan_slot list \<Rightarrow> ('s, 'w, 'c) session \<Rightarrow> unit fdw_result \<times> ('s, 'w, 'c) session" where
  "delete_statement svc C A L order uuid sdk footer_rows cat relid tupdesc node slots ses =
    st_then (begin_foreign_modify sdk footer_rows cat relid tupdesc node False ses) (\<lambda>_ ses1.
    (case try_fold exec_foreign_delete slots ses1 of
       Inl e \<Rightarrow> (Err e, ses1)
     | Inr ses2 \<Rightarrow> end_foreign_modify svc C A L order uuid False ses2))"

text \<open>Deletions that resolve are all recorded, and change only the edits and their number.\<close>

lemma deletes_recorded:
  assumes "\<forall>rid \<in> set rids. \<exists>t. resolve_to_source plan rid = Ok t" "edit_count plan + length rids \<le> MAX_EDITS_PER_STATEMENT"
  shows "\<exists>es. try_fold record_op (map Del rids) plan = Ok (plan \<lparr> edits := es, edit_count := edit_count plan + length rids \<rparr>)
    \<and> fst ` set es = fst ` set (edits plan) \<union> (\<lambda>rid. fst (projr (resolve_to_source plan rid))) ` set rids"
  using assms
proof (induction rids arbitrary: plan)
  case Nil
  then show ?case by (intro exI[of _ "edits plan"]) simp
next
  case (Cons rid rids)
  obtain base r where t: "resolve_to_source plan rid = Ok (base, r)" using Cons.prems(1) by fastforce
  have m: "edit_count plan < MAX_EDITS_PER_STATEMENT" "min (edit_count plan + 1) usize_MAX = edit_count plan + 1"
    using Cons.prems(2) by (simp_all add: MAX_EDITS_PER_STATEMENT_def usize_MAX_def)
  define es where "es = AList.update base ((edits_of plan base) \<lparr> deletes := insert (r mod 2 ^ 32) (deletes (edits_of plan base)) \<rparr>) (edits plan)"
  let ?p = "plan \<lparr> edits := es, edit_count := edit_count plan + 1 \<rparr>"
  have step: "record_op (Del rid) plan = Ok ?p"
    using t m by (simp add: record_delete_def check_edit_budget_def es_def Let_def)
  have res: "resolve_to_source ?p x = resolve_to_source plan x" for x by (rule resolve_cong) simp
  have "\<forall>x \<in> set rids. \<exists>t. resolve_to_source ?p x = Ok t" using Cons.prems(1) res by simp
  moreover have "edit_count ?p + length rids \<le> MAX_EDITS_PER_STATEMENT" using Cons.prems(2) by simp
  ultimately obtain fs where fs: "try_fold record_op (map Del rids) ?p = Ok (?p \<lparr> edits := fs, edit_count := edit_count ?p + length rids \<rparr>)"
    "fst ` set fs = fst ` set (edits ?p) \<union> (\<lambda>rid. fst (projr (resolve_to_source ?p rid))) ` set rids"
    using Cons.IH by blast
  have "fst ` set es = insert base (fst ` set (edits plan))" by (simp add: es_def dom_update)
  then show ?case using fs(1) fs(2)[unfolded res] step t by (intro exI[of _ fs]) simp
qed

lemma exec_deletes:
  assumes "ri_FdwState ses = Some (UpdateState plan client)"
    "map (\<lambda>ps. read_ctid_via_junk ps (ctid_attno plan)) slots = map Inr rids" "try_fold record_op (map Del rids) plan = Ok plan'"
  shows "try_fold exec_foreign_delete slots ses = Ok (ses \<lparr> ri_FdwState := Some (UpdateState plan' client) \<rparr>)"
  using assms
proof (induction slots arbitrary: ses plan rids)
  case Nil
  then show ?case by simp
next
  case (Cons ps slots)
  obtain rid rest where rids: "rids = rid # rest" "read_ctid_via_junk ps (ctid_attno plan) = Ok rid"
    "map (\<lambda>ps. read_ctid_via_junk ps (ctid_attno plan)) slots = map Inr rest"
    using Cons.prems(2) by (cases rids) auto
  then obtain mid where mid: "record_delete rid plan = Ok mid" "try_fold record_op (map Del rest) mid = Ok plan'"
    using Cons.prems(3) by (auto simp: result_simps)
  have "ctid_attno mid = ctid_attno plan" using mid(1) by (auto simp: record_delete_def result_simps Let_def)
  moreover have "exec_foreign_delete ps ses = Ok (ses \<lparr> ri_FdwState := Some (UpdateState mid client) \<rparr>)"
    using Cons.prems(1) rids(2) mid(1) by (simp add: exec_foreign_delete_def update_plan_of_def)
  ultimately show ?case using Cons.IH[OF _ _ mid(2), of "ses \<lparr> ri_FdwState := Some (UpdateState mid client) \<rparr>"] rids(3) by simp
qed

text \<open>The rows a deletion keeps.\<close>

definition kept_rows :: "nat set \<Rightarrow> 'a list \<Rightarrow> 'a list" where
  "kept_rows D rows = map snd (filter (\<lambda>(r, row). r \<notin> D) (enumerate 0 rows))"

definition delete_edits :: "nat set \<Rightarrow> blob_edits" where
  "delete_edits D = empty_edits \<lparr> deletes := D \<rparr>"

lemma edit_rows_deletes:
  "edit_rows (delete_edits D) n rows = map snd (filter (\<lambda>(r, row). r \<notin> D) (enumerate n rows))"
proof (induction rows arbitrary: n)
  case (Cons row rows)
  have "edited_row (delete_edits D) n row = row"
    by (intro nth_equalityI) (simp_all add: edited_row_def edited_cell_def override_at_def delete_edits_def empty_edits_def
        nth_enumerate_eq)
  then show ?case using Cons by (auto simp: delete_edits_def)
qed simp

text \<open>The row id that the scan gives to row \<open>r\<close> of blob \<open>i\<close>.\<close>

definition row_rid :: "(string \<Rightarrow> int fdw_result) \<Rightarrow> blob_ref list \<Rightarrow> nat \<times> nat \<Rightarrow> row_id" where
  "row_rid footer_rows listed = (\<lambda>(i, r). from_absolute (of_nat (base_id footer_rows listed i)) (of_nat r))"

definition valid_address :: "(string \<Rightarrow> int fdw_result) \<Rightarrow> blob_ref list \<Rightarrow> nat \<times> nat \<Rightarrow> bool" where
  "valid_address footer_rows listed = (\<lambda>(i, r). i < length listed \<and> r < footer_count footer_rows (fst (listed ! i)))"

lemma row_rid_resolves:
  assumes "build_blob_table footer_rows listed = Ok (blob_table plan)" "distinct (map fst listed)"
    "length (blob_table plan) < 2 ^ 32" "valid_address footer_rows listed (i, r)"
  shows "resolve_to_source plan (row_rid footer_rows listed (i, r)) = Ok (base_id footer_rows listed i, r)"
    "base_id footer_rows listed i < length (blob_table plan)"
    "be_name (blob_table plan ! base_id footer_rows listed i) = fst (listed ! i)"
    "be_etag (blob_table plan ! base_id footer_rows listed i) = snd (listed ! i)"
    "r < 2 ^ 32"
proof -
  obtain name etag where n: "listed ! i = (name, etag)" by (cases "listed ! i")
  have v: "i < length listed" "r < footer_count footer_rows name" using assms(4) n by (simp_all add: valid_address_def)
  note res = resolve_row[OF assms(1,2) v(1) n v(2) refl assms(3)]
  show "resolve_to_source plan (row_rid footer_rows listed (i, r)) = Ok (base_id footer_rows listed i, r)"
    using res(1) by (simp add: row_rid_def)
  show "base_id footer_rows listed i < length (blob_table plan)" by (rule res(2))
  show "be_name (blob_table plan ! base_id footer_rows listed i) = fst (listed ! i)"
    "be_etag (blob_table plan ! base_id footer_rows listed i) = snd (listed ! i)" using res(3) n by simp_all
  have "footer_count footer_rows name \<le> u32_MAX"
    using build_blob_table_Ok[OF assms(1)] nth_mem[OF v(1)] n by auto
  then show "r < 2 ^ 32" using v(2) by (simp add: u32_MAX_def)
qed

lemma op_updates_Del [simp]: "op_updates plan base (map Del rids) r = None"
  by (induction rids) auto

lemma map_of_none: "(\<And>r. map_of al r = None) \<Longrightarrow> al = []"
  by (metis list.set_intros(1) map_of_eq_None_iff image_eqI neq_Nil_conv)

lemma plan_of_deletes:
  assumes "build_blob_table footer_rows listed = Ok (blob_table plan)" "distinct (map fst listed)"
    "length (blob_table plan) < 2 ^ 32" "edits plan = []" "edit_count plan = 0"
    "\<forall>a \<in> set addrs. valid_address footer_rows listed a" "length addrs \<le> MAX_EDITS_PER_STATEMENT"
  obtains es where "try_fold record_op (map Del (map (row_rid footer_rows listed) addrs)) plan
      = Ok (plan \<lparr> edits := es, edit_count := length addrs \<rparr>)"
    "fst ` set es = base_id footer_rows listed ` fst ` set addrs" "distinct (map fst es)"
    "inj_on (base_id footer_rows listed) (fst ` set addrs)"
    "\<forall>i \<in> fst ` set addrs.
      edits_of (plan \<lparr> edits := es, edit_count := length addrs \<rparr>) (base_id footer_rows listed i) = delete_edits {r. (i, r) \<in> set addrs}"
proof -
  let ?rids = "map (row_rid footer_rows listed) addrs" and ?base = "base_id footer_rows listed"
  note res = row_rid_resolves[OF assms(1-3)]
  have r: "resolve_to_source plan (row_rid footer_rows listed a) = Ok (?base (fst a), snd a)" if "a \<in> set addrs" for a
    using res(1)[of "fst a" "snd a"] assms(6) that by simp
  have "\<forall>rid \<in> set ?rids. \<exists>t. resolve_to_source plan rid = Ok t" using r by auto
  from deletes_recorded[OF this] assms(4,5,7)
  obtain es where es: "try_fold record_op (map Del ?rids) plan = Ok (plan \<lparr> edits := es, edit_count := length addrs \<rparr>)"
    "fst ` set es = (\<lambda>rid. fst (projr (resolve_to_source plan rid))) ` set ?rids"
    by auto
  let ?p = "plan \<lparr> edits := es, edit_count := length addrs \<rparr>"
  have rec: "recorded plan (map Del ?rids) ?p" by (rule recorded_run[OF es(1) assms(4,5)])
  have valid: "\<exists>r. valid_address footer_rows listed (i, r)" if "i \<in> fst ` set addrs" for i
  proof -
    from that obtain r where "(i, r) \<in> set addrs" by auto
    then show ?thesis using assms(6) by blast
  qed
  have inj: "inj_on ?base (fst ` set addrs)"
  proof (rule inj_onI)
    fix i j
    assume "i \<in> fst ` set addrs" "j \<in> fst ` set addrs" "?base i = ?base j"
    moreover from this obtain ri rj where "valid_address footer_rows listed (i, ri)" "valid_address footer_rows listed (j, rj)"
      using valid by blast
    ultimately have "fst (listed ! i) = fst (listed ! j)" "i < length listed" "j < length listed"
      using res(3)[of i ri] res(3)[of j rj] by (simp_all add: valid_address_def)
    then show "i = j" using nth_eq_iff_index_eq[OF assms(2)] by simp
  qed
  have "(\<lambda>rid. fst (projr (resolve_to_source plan rid))) ` set ?rids = ?base ` fst ` set addrs"
    unfolding set_map image_image using r by (intro image_cong) auto
  moreover have "edits_of ?p (?base i) = delete_edits {r. (i, r) \<in> set addrs}" if i: "i \<in> fst ` set addrs" for i
  proof -
    have "op_deletes plan (?base i) (map Del ?rids) = {r. (i, r) \<in> set addrs}"
    proof (intro equalityI subsetI)
      fix x
      assume "x \<in> op_deletes plan (?base i) (map Del ?rids)"
      then obtain a where a: "a \<in> set addrs" "?base (fst a) = ?base i" "x = snd a mod 2 ^ 32"
        using r by (auto simp: op_deletes_def)
      then have "fst a = i" using inj_onD[OF inj a(2)] i by simp
      moreover have "snd a < 2 ^ 32" using res(5)[of "fst a" "snd a"] assms(6) a(1) by simp
      ultimately show "x \<in> {r. (i, r) \<in> set addrs}" using a by (cases a) simp
    next
      fix x
      assume "x \<in> {r. (i, r) \<in> set addrs}"
      then have x: "(i, x) \<in> set addrs" by simp
      then have "x = x mod 2 ^ 32" using res(5)[of i x] assms(6) by simp
      then show "x \<in> op_deletes plan (?base i) (map Del ?rids)" using r[OF x] x by (force simp: op_deletes_def)
    qed
    moreover have "updates (edits_of ?p (?base i)) = []"
      by (rule map_of_none) (use rec op_updates_Del[of plan "?base i" ?rids] in \<open>simp only: recorded_def\<close>)
    moreover have "deletes (edits_of ?p (?base i)) = op_deletes plan (?base i) (map Del ?rids)"
      using rec by (simp only: recorded_def)
    ultimately show ?thesis by (cases "edits_of ?p (?base i)") (simp add: delete_edits_def empty_edits_def)
  qed
  moreover have "distinct (map fst es)" using rec by (simp add: recorded_def)
  ultimately show ?thesis using that[OF es(1)] es(2) inj by simp
qed

section \<open>From the first callback to the last\<close>

lemma begin_delete:
  fixes ses :: "('s, 'w, 'c) session"
  assumes "mt_operation node = CMD_DELETE"
    "begin_state sdk footer_rows cat relid tupdesc node (ses_handoff ses) = (Ok (UpdateState plan client :: ('w, 'c) fdw_modify_state), h)"
  obtains listed where "ses_handoff ses relid = Some [listed]" "h = (ses_handoff ses)(relid := None)"
    "build_blob_table (footer_rows client) listed = Ok (blob_table plan)" "edits plan = []" "edit_count plan = 0"
    "begin_foreign_modify sdk footer_rows cat relid tupdesc node False ses
      = (Ok (), ses \<lparr> ses_backend := (ses_backend ses) \<lparr> slot := Some coord_new \<rparr>, ses_handoff := h, ri_FdwState := Some (UpdateState plan client) \<rparr>)"
proof -
  have "build_plan sdk footer_rows cat relid tupdesc node True (ses_handoff ses) = (Ok (plan, client), h)"
    using assms by (auto simp: begin_state_def elim!: st_then_cases)
  then obtain opts listed where b: "take_unique relid (ses_handoff ses) = (Ok (Some listed), h)"
    "finish_plan (footer_rows client) opts tupdesc node True listed = Ok plan"
    by (auto simp: build_plan_def result_simps split: sum.splits option.splits elim!: st_then_cases)
  have "build_blob_table (footer_rows client) listed = Ok (blob_table plan)" "edits plan = []" "edit_count plan = 0"
    using b(2) by (auto simp: finish_plan_def result_simps)
  moreover have "begin_foreign_modify sdk footer_rows cat relid tupdesc node False ses
      = (Ok (), ses \<lparr> ses_backend := (ses_backend ses) \<lparr> slot := Some coord_new \<rparr>, ses_handoff := h, ri_FdwState := Some (UpdateState plan client) \<rparr>)"
    using assms(2) by (simp add: begin_foreign_modify_def open_statement_def)
  ultimately show ?thesis using that take_unique_Some[OF b(1)] by blast
qed

text \<open>A blob that the deletion of the rows \<open>D\<close> can rewrite: it is as the scan saw it, its stream gives the
  batches \<open>bs\<close> of the table's schema, and the rewrite succeeds within the size limit.\<close>

definition deletable ::
  "'w parquet_lib \<Rightarrow> arrow_ops \<Rightarrow> modify_plan \<Rightarrow> contents \<Rightarrow> blob_ref \<Rightarrow> nat set \<Rightarrow> record_batch list \<Rightarrow> bool" where
  "deletable L A plan c ref D bs \<longleftrightarrow> \<not> is_staging_name (fst ref)
    \<and> (\<forall>b \<in> set bs. wf_batch b \<and> batch_schema b = plan_schema plan) \<and> sum_list (map num_rows bs) \<le> u32_MAX
    \<and> (\<exists>body. c (fst ref) = Some (body, snd ref) \<and> length body \<le> MAX_BLOB_BYTES \<and> file_batches L body = Some bs
       \<and> (\<exists>x. rewrite_blob L A (plan_schema plan) (plan_compression plan) (fst ref) (delete_edits D) body = Ok x
          \<and> (\<forall>nb. x = Some nb \<longrightarrow> length nb \<le> MAX_BLOB_BYTES)))"

lemma delete_edits_fit: "edits_fit sch (delete_edits D)"
  by (simp add: edits_fit_def delete_edits_def empty_edits_def override_at_def)

lemma deletable_ready:
  assumes "deletable L A plan0 c ref D bs" "plan_schema plan = plan_schema plan0" "plan_compression plan = plan_compression plan0"
    "k < length (blob_table plan)" "be_name (blob_table plan ! k) = fst ref" "be_etag (blob_table plan ! k) = snd ref"
    "edits_of plan k = delete_edits D"
  shows "ready L A plan c k"
  using assms by (auto simp: deletable_def ready_def rewritten_def split: option.splits)

lemma deletable_rewritten:
  assumes "deletable L A plan0 c ref D bs" "plan_schema plan = plan_schema plan0" "plan_compression plan = plan_compression plan0"
    "be_name (blob_table plan ! k) = fst ref" "edits_of plan k = delete_edits D" "rewritten L A plan c k = Ok out"
    "arrow_compute A" "parquet_writes L held"
  shows "case out of
      None \<Rightarrow> kept_rows D (concat (map batch_rows bs)) = []
    | Some f \<Rightarrow> kept_rows D (concat (map batch_rows bs)) \<noteq> [] \<and> file_rows L f = Some (kept_rows D (concat (map batch_rows bs)))"
proof -
  obtain body where body: "c (fst ref) = Some (body, snd ref)" "file_batches L body = Some bs"
    and bs: "\<forall>b \<in> set bs. wf_batch b \<and> batch_schema b = plan_schema plan" "sum_list (map num_rows bs) \<le> u32_MAX"
    using assms(1,2) by (auto simp: deletable_def)
  have "rewrite_blob L A (plan_schema plan) (plan_compression plan) (fst ref) (delete_edits D) body = Ok out"
    using assms(4-6) body(1) by (simp add: rewritten_def)
  with rewrite_blob_spec[OF assms(7,8) body(2) bs(1) delete_edits_fit bs(2), of D "plan_compression plan" "fst ref"]
  show ?thesis by (simp add: edit_rows_deletes kept_rows_def split: option.splits)
qed

text \<open>The last callback, for the plan of a run of deletions.\<close>

lemma end_delete:
  assumes "responsive_store svc view ok env later budget" "ok (store be)" "arrow_compute A" "parquet_writes L held"
    "build_blob_table footer_rows listed = Ok (blob_table plan)" "distinct (map fst listed)"
    "length (blob_table plan) < 2 ^ 32" "edits plan = []" "edit_count plan = 0"
    "\<forall>a \<in> set addrs. valid_address footer_rows listed a" "length addrs \<le> MAX_EDITS_PER_STATEMENT"
    "\<forall>i \<in> fst ` set addrs. deletable L A plan (view (store be)) (listed ! i) {r. (i, r) \<in> set addrs} (bs i)"
    "2 * card (fst ` set addrs) \<le> budget (store be)"
    "unused uuid (next_uuid be) (next_uuid be + card (fst ` set addrs)) (view (store be))" "slot be = Some coord_new"
    "try_fold record_op (map Del (map (row_rid footer_rows listed) addrs)) plan = Ok plan'"
  shows "\<exists>be'. commit_plan svc L A uuid plan' be = (Ok (), be') \<and> slot be' = Some []
    \<and> (\<forall>i \<in> fst ` set addrs.
        case map_option fst (view (store be') (fst (listed ! i))) of
          None \<Rightarrow> kept_rows {r. (i, r) \<in> set addrs} (concat (map batch_rows (bs i))) = []
        | Some f \<Rightarrow> kept_rows {r. (i, r) \<in> set addrs} (concat (map batch_rows (bs i))) \<noteq> []
            \<and> file_rows L f = Some (kept_rows {r. (i, r) \<in> set addrs} (concat (map batch_rows (bs i)))))
    \<and> (\<forall>n. n \<notin> (\<lambda>i. fst (listed ! i)) ` fst ` set addrs \<longrightarrow>
        map_option fst (view (store be') n) = map_option fst (view (store be) n))"
proof -
  let ?base = "base_id footer_rows listed" and ?I = "fst ` set addrs"
  let ?del = "\<lambda>i. {r. (i, r) \<in> set addrs}" and ?rows = "\<lambda>i. concat (map batch_rows (bs i))"
  obtain es where run: "try_fold record_op (map Del (map (row_rid footer_rows listed) addrs)) plan
      = Ok (plan \<lparr> edits := es, edit_count := length addrs \<rparr>)" and keys: "fst ` set es = ?base ` ?I" "distinct (map fst es)"
    "inj_on ?base ?I" and dels: "\<forall>i \<in> ?I.
      edits_of (plan \<lparr> edits := es, edit_count := length addrs \<rparr>) (?base i) = delete_edits (?del i)"
    by (rule plan_of_deletes[OF assms(5-11)])
  have p: "plan' = plan \<lparr> edits := es, edit_count := length addrs \<rparr>" using run assms(16) by simp
  note es = p keys bspec[OF dels[folded p]]
  have same: "blob_table plan' = blob_table plan" "plan_schema plan' = plan_schema plan" "plan_compression plan' = plan_compression plan"
    "edits plan' = es" using es(1) by simp_all
  have at: "?base i < length (blob_table plan')" "be_name (blob_table plan' ! ?base i) = fst (listed ! i)"
    "be_etag (blob_table plan' ! ?base i) = snd (listed ! i)" "i < length listed" if i: "i \<in> ?I" for i
  proof -
    obtain r where "valid_address footer_rows listed (i, r)" using i assms(10) by fastforce
    then show "?base i < length (blob_table plan')" "be_name (blob_table plan' ! ?base i) = fst (listed ! i)"
      "be_etag (blob_table plan' ! ?base i) = snd (listed ! i)" "i < length listed"
      using row_rid_resolves[OF assms(5-7)] same by (auto simp: valid_address_def)
  qed
  have ready: "\<forall>k \<in> fst ` set (edits plan'). ready L A plan' (view (store be)) k"
  proof
    fix k
    assume "k \<in> fst ` set (edits plan')"
    then obtain i where i: "i \<in> ?I" "k = ?base i" using es(2) same(4) by blast
    show "ready L A plan' (view (store be)) k"
      unfolding i(2) using deletable_ready[OF bspec[OF assms(12) i(1)] same(2,3) at(1-3)[OF i(1)] es(5)[OF i(1)]] .
  qed
  have inj: "inj_on (\<lambda>k. be_name (blob_table plan' ! k)) (fst ` set (edits plan'))"
  proof (rule inj_onI)
    fix k l
    assume "k \<in> fst ` set (edits plan')" "l \<in> fst ` set (edits plan')" and eq: "be_name (blob_table plan' ! k) = be_name (blob_table plan' ! l)"
    then obtain i j where "i \<in> ?I" "k = ?base i" "j \<in> ?I" "l = ?base j" using es(2) same(4) by auto
    then show "k = l" using at eq nth_eq_iff_index_eq[OF assms(6), of i j] by simp
  qed
  have card: "length (edits plan') = card ?I"
    using distinct_card[OF es(3)] es(2,4) same(4) by (simp add: card_image)
  have dist: "distinct (map fst (edits plan'))" using es(3) same(4) by simp
  obtain be' where be': "commit_plan svc L A uuid plan' be = (Ok (), be')" "slot be' = Some []"
    "\<forall>k \<in> fst ` set (edits plan'). rewritten L A plan' (view (store be)) k = Ok (map_option fst (view (store be') (be_name (blob_table plan' ! k))))"
    "\<forall>n. n \<notin> (\<lambda>k. be_name (blob_table plan' ! k)) ` fst ` set (edits plan') \<longrightarrow> map_option fst (view (store be') n) = map_option fst (view (store be) n)"
    using responsive_store.commit_plan_answer[OF assms(1,2) assms(15)[unfolded coord_new_def] dist ready inj assms(13)[folded card]
        assms(14)[folded card]] by blast
  have "case map_option fst (view (store be') (fst (listed ! i))) of
          None \<Rightarrow> kept_rows (?del i) (?rows i) = []
        | Some f \<Rightarrow> kept_rows (?del i) (?rows i) \<noteq> [] \<and> file_rows L f = Some (kept_rows (?del i) (?rows i))" if i: "i \<in> ?I" for i
  proof -
    have "rewritten L A plan' (view (store be)) (?base i) = Ok (map_option fst (view (store be') (fst (listed ! i))))"
      using be'(3) es(2) same(4) at(2)[OF i] i by auto
    from deletable_rewritten[OF _ same(2,3) at(2)[OF i] es(5)[OF i] this assms(3,4)] assms(12) i show ?thesis by blast
  qed
  moreover have "(\<lambda>k. be_name (blob_table plan' ! k)) ` fst ` set (edits plan') = (\<lambda>i. fst (listed ! i)) ` ?I"
    unfolding same(4) es(2) image_image using at(2) by (intro image_cong) (auto simp: image_image)
  ultimately show ?thesis using be' by auto
qed

section \<open>Property\<close>

text \<open>C3: what a DELETE does, from its first callback to its last.  The statement begins on the one blob list
  the scan of the relation handed over, receives the ctids of the rows \<open>addrs\<close> of the listed blobs, in
  any order and with repetitions, and ends.  On a store that answers, when the blobs with a deleted row
  are as the scan saw them and can be rewritten, and fresh identifiers are available: the statement
  succeeds; every such blob then holds exactly its other rows in their order, or is gone when there
  are none; every other blob has the body it had; and the hand-over entry, the statement's state and
  its coordinator are gone.\<close>

theorem delete_statement_correct:
  fixes ses :: "('s, 'w, 'c) session"
  assumes "mt_operation node = CMD_DELETE"
    "begin_state sdk footer_rows cat relid tupdesc node (ses_handoff ses) = (Ok (UpdateState plan client :: ('w, 'c) fdw_modify_state), h)"
    "ses_handoff ses relid = Some [listed]" "distinct (map fst listed)" "length (blob_table plan) < 2 ^ 32"
    "map (\<lambda>ps. read_ctid_via_junk ps (ctid_attno plan)) slots
      = map (\<lambda>a. Ok (from_ctid (to_ctid (row_rid (footer_rows client) listed a)))) addrs"
    "\<forall>a \<in> set addrs. valid_address (footer_rows client) listed a" "length addrs \<le> MAX_EDITS_PER_STATEMENT"
    "responsive_store (svc client) view ok env later budget" "ok (store (ses_backend ses))"
    "arrow_compute A" "parquet_writes L held"
    "\<forall>i \<in> fst ` set addrs. deletable L A plan (view (store (ses_backend ses))) (listed ! i) {r. (i, r) \<in> set addrs} (bs i)"
    "2 * card (fst ` set addrs) \<le> budget (store (ses_backend ses))"
    "unused uuid (next_uuid (ses_backend ses)) (next_uuid (ses_backend ses) + card (fst ` set addrs)) (view (store (ses_backend ses)))"
  shows "\<exists>ses'. delete_statement svc C A L order uuid sdk footer_rows cat relid tupdesc node slots ses = (Ok (), ses')
    \<and> (\<forall>i \<in> fst ` set addrs.
        case map_option fst (view (store (ses_backend ses')) (fst (listed ! i))) of
          None \<Rightarrow> kept_rows {r. (i, r) \<in> set addrs} (concat (map batch_rows (bs i))) = []
        | Some f \<Rightarrow> kept_rows {r. (i, r) \<in> set addrs} (concat (map batch_rows (bs i))) \<noteq> []
            \<and> file_rows L f = Some (kept_rows {r. (i, r) \<in> set addrs} (concat (map batch_rows (bs i)))))
    \<and> (\<forall>n. n \<notin> (\<lambda>i. fst (listed ! i)) ` fst ` set addrs \<longrightarrow>
        map_option fst (view (store (ses_backend ses')) n) = map_option fst (view (store (ses_backend ses)) n))
    \<and> ses_handoff ses' = (ses_handoff ses)(relid := None) \<and> ri_FdwState ses' = None \<and> slot (ses_backend ses') = None"
proof -
  obtain l where l: "ses_handoff ses relid = Some [l]" and h: "h = (ses_handoff ses)(relid := None)"
    and t: "build_blob_table (footer_rows client) l = Ok (blob_table plan)" and e: "edits plan = []" "edit_count plan = 0"
    and b: "begin_foreign_modify sdk footer_rows cat relid tupdesc node False ses
      = (Ok (), ses \<lparr> ses_backend := (ses_backend ses) \<lparr> slot := Some coord_new \<rparr>, ses_handoff := h, ri_FdwState := Some (UpdateState plan client) \<rparr>)"
    by (rule begin_delete[OF assms(1,2)])
  have [simp]: "l = listed" using l assms(3) by simp
  define be where "be = (ses_backend ses) \<lparr> slot := Some coord_new \<rparr>"
  have be: "store be = store (ses_backend ses)" "next_uuid be = next_uuid (ses_backend ses)" "slot be = Some coord_new"
    by (simp_all add: be_def)
  define ses1 where "ses1 = ses \<lparr> ses_backend := be, ses_handoff := h, ri_FdwState := Some (UpdateState plan client) \<rparr>"
  obtain es where run: "try_fold record_op (map Del (map (row_rid (footer_rows client) listed) addrs)) plan
      = Ok (plan \<lparr> edits := es, edit_count := length addrs \<rparr>)"
    by (rule plan_of_deletes[OF t[simplified] assms(4,5) e assms(7,8)])
  let ?plan = "plan \<lparr> edits := es, edit_count := length addrs \<rparr>"
  have "try_fold exec_foreign_delete slots ses1 = Ok (ses1 \<lparr> ri_FdwState := Some (UpdateState ?plan client) \<rparr>)"
    by (rule exec_deletes[OF _ _ run]) (use assms(6) in \<open>simp_all add: ses1_def comp_def\<close>)
  moreover obtain be' where be': "commit_plan (svc client) L A uuid ?plan be = (Ok (), be')" "slot be' = Some []"
    "\<forall>i \<in> fst ` set addrs.
        case map_option fst (view (store be') (fst (listed ! i))) of
          None \<Rightarrow> kept_rows {r. (i, r) \<in> set addrs} (concat (map batch_rows (bs i))) = []
        | Some f \<Rightarrow> kept_rows {r. (i, r) \<in> set addrs} (concat (map batch_rows (bs i))) \<noteq> []
            \<and> file_rows L f = Some (kept_rows {r. (i, r) \<in> set addrs} (concat (map batch_rows (bs i))))"
    "\<forall>n. n \<notin> (\<lambda>i. fst (listed ! i)) ` fst ` set addrs \<longrightarrow>
        map_option fst (view (store be') n) = map_option fst (view (store be) n)"
    using end_delete[OF assms(9) assms(10)[folded be(1)] assms(11,12) t[simplified] assms(4,5) e assms(7,8) assms(13)[folded be(1)]
        assms(14)[folded be(1)] assms(15)[folded be(1) be(2)] be(3) run] by blast
  ultimately have "delete_statement svc C A L order uuid sdk footer_rows cat relid tupdesc node slots ses
      = (Ok (), ses1 \<lparr> ri_FdwState := None, ses_backend := be' \<lparr> slot := None \<rparr> \<rparr>)"
    using b by (simp add: delete_statement_def end_foreign_modify_def take_state_def close_on_success_def close_statement_success_def
        coord_is_empty_def ses1_def be_def)
  then show ?thesis using be'(3,4) be(1) h by (intro exI[of _ "ses1 \<lparr> ri_FdwState := None, ses_backend := be' \<lparr> slot := None \<rparr> \<rparr>"])
    (simp add: ses1_def)
qed

text \<open>A table over the blob of the demonstration store, one byte per row, from which rows 3, 1 and again 3
  are deleted.\<close>

definition demo_sdk :: "(unit, string, unit) azure_sdk" where
  "demo_sdk = \<lparr> managed_identity_new = Inr (), client_secret_new = \<lambda>_ _ _. Inl '''', env_var = \<lambda>_. None,
    url_host = \<lambda>_. Inl '''', url_parse = Inr, container_client_new = \<lambda>_ _. Inr () \<rparr>"

definition demo_catalog :: foreign_catalog where
  "demo_catalog = \<lparr>
    cat_table = Some (Some [Some (''container'', Some ''data''), Some (''filename'', Some ''a.parquet'')]),
    cat_server = Some (Some [Some (''account_name'', Some ''acct''), Some (''auth_method'', Some ''managed_identity'')]),
    cat_user_mapping = None \<rparr>"

definition demo_tupdesc :: "pg_attribute list" where
  "demo_tupdesc = [\<lparr> attname = ''id'', atttypid = INT8OID, attnum = 1, attnotnull = True, attisdropped = False \<rparr>]"

definition demo_node :: modify_node where
  "demo_node = \<lparr> mt_operation = CMD_DELETE, mt_subplan = 0, mt_update_colnos = None, mt_outer = Some (Some (Some 1)) \<rparr>"

definition demo_addrs :: "(nat \<times> nat) list" where "demo_addrs = [(0, 3), (0, 1), (0, 3)]"

definition demo_listed :: "blob_ref list" where "demo_listed = [(''a.parquet'', etag_text 1)]"

definition demo_footer :: "unit azure_client \<Rightarrow> string \<Rightarrow> int fdw_result" where "demo_footer c n = Ok 4"

definition demo_client :: "unit azure_client" where
  "demo_client = \<lparr> client_inner = (), client_account = ''acct'', client_container = ''data'' \<rparr>"

definition demo_slots :: "plan_slot list" where
  "demo_slots = map (\<lambda>a. \<lparr> ps_tupdesc = [], ps_junk = \<lambda>_. Some (Some (to_ctid (row_rid (demo_footer demo_client) demo_listed a))) \<rparr>) demo_addrs"

definition demo_session :: "(fake_state, string, unit) session" where
  "demo_session = \<lparr> ses_backend = demo_backend, ses_handoff = (\<lambda>_. None)(7 \<mapsto> [demo_listed]), ri_FdwState = None \<rparr>"

definition delete_plan :: modify_plan where
  "delete_plan = \<lparr> blob_table = [\<lparr> be_name = ''a.parquet'', chunk_base_row = 0, be_etag = etag_text 1 \<rparr>], edits = [],
    plan_schema = example_schema, pg_oids = [INT8OID], update_attnums = [], plan_compression = Snappy, is_delete = True,
    ctid_attno = 1, edit_count = 0 \<rparr>"

lemma demo_options:
  "read_all_options (url_host demo_sdk) demo_catalog 7 = Ok
    (\<lparr> account_name = ''acct'', endpoint = ''blob.core.windows.net'', server_auth_method = ManagedIdentity, enable_pushdown = True \<rparr>,
     \<lparr> sas_url = None \<rparr>,
     \<lparr> container = ''data'', filename = ''a.parquet'', compression = Snappy, parallel_workers = None, partition_columns = [],
       partition_keys = [], sorted_cols = [], files_in_order = False \<rparr>)"
  by code_simp

lemma demo_connect: "connect demo_sdk \<lparr> account_name = ''acct'', endpoint = ''blob.core.windows.net'', server_auth_method = ManagedIdentity,
    enable_pushdown = True \<rparr> \<lparr> sas_url = None \<rparr> ''data'' = Ok demo_client"
  by code_simp

lemma delete_demo_schema: "pg_attrs_to_arrow_schema demo_tupdesc = Ok example_schema"
  by code_simp

lemma delete_demo_table: "build_blob_table (demo_footer demo_client) demo_listed = Ok (blob_table delete_plan)"
  by (simp add: demo_listed_def demo_footer_def delete_plan_def blob_row_count_def u32_MAX_def blob_chunks_def div_ceil_def)

lemma demo_begin:
  "begin_state demo_sdk demo_footer demo_catalog 7 demo_tupdesc demo_node (ses_handoff demo_session)
    = (Ok (UpdateState delete_plan demo_client :: (string, unit) fdw_modify_state), (\<lambda>_. None))"
proof -
  have "finish_plan (demo_footer demo_client) \<lparr> container = ''data'', filename = ''a.parquet'', compression = Snappy, parallel_workers = None,
      partition_columns = [], partition_keys = [], sorted_cols = [], files_in_order = False \<rparr> demo_tupdesc demo_node True demo_listed
    = Ok delete_plan"
    unfolding finish_plan_def delete_demo_table
    using delete_demo_schema by (simp add: demo_tupdesc_def find_ctid_attno_def demo_node_def delete_plan_def)
  moreover have "take_unique 7 (ses_handoff demo_session) = (Ok (Some demo_listed), (\<lambda>_. None))"
    by (auto simp: take_unique_def pop_entry_def demo_session_def)
  moreover have "mt_operation demo_node = CMD_DELETE" by (simp add: demo_node_def)
  ultimately show ?thesis by (simp add: begin_state_def build_plan_def demo_options demo_connect)
qed

lemma demo_delete_rewrite:
  "rewrite_blob byte_lib list_arrow example_schema codec name (delete_edits {1, 3}) ''abcd'' = Ok (Some ''ac'')"
proof -
  let ?b = "example_batch [97, 98, 99, 100]" and ?e = "delete_edits {1, 3}"
  have wf: "wf_batch ?b" "batch_schema ?b = example_schema" "0 + num_rows ?b \<le> u32_MAX" "num_rows ?b = 4"
    by (simp_all add: wf_batch_def fits_schema_def example_batch_def example_schema_def array_len_def u32_MAX_def)
  have e: "edit_rows ?e 0 (batch_rows ?b) = [[Some (CInt 97)], [Some (CInt 99)]]"
    unfolding edit_rows_deletes by (simp add: example_batch_rows)
  obtain r where r: "apply_edits_batch list_arrow ?b 0 example_schema ?e = Ok r" "batch_rows r = [[Some (CInt 97)], [Some (CInt 99)]]"
    using la.apply_edits_batch_ok[OF wf(1) _ wf(3), of ?e] delete_edits_fit wf(2) e by auto
  have n: "num_rows r = 2" using length_batch_rows[of r] r(2) by simp
  have w: "batch_writer_write byte_lib r [] = Ok ''ac''"
    by (simp add: batch_writer_write_def byte_lib_def r(2) char_of_def)
  have "rewrite_loop byte_lib list_arrow example_schema name ?e 0 0 0 [] [Inr ?b] = Ok (4, 2, ''ac'')"
    using r(1) n w wf(4) by (simp add: Let_def MAX_BLOB_BYTES_def byte_lib_simps)
  then show ?thesis
    by (simp add: rewrite_blob_def byte_lib_simps batch_writer_new_def batch_writer_finish_def delete_edits_def empty_edits_def)
qed

lemma demo_deletable:
  "deletable byte_lib list_arrow delete_plan (fake_view ''c'' (store demo_backend)) (demo_listed ! 0) {1, 3} [example_batch [97, 98, 99, 100]]"
proof -
  have "file_batches byte_lib ''abcd'' = Some [example_batch [97, 98, 99, 100]]" by (simp add: file_batches_def byte_lib_def)
  moreover have "wf_batch (example_batch [97, 98, 99, 100])" "batch_schema (example_batch [97, 98, 99, 100]) = example_schema"
    "num_rows (example_batch [97, 98, 99, 100]) \<le> u32_MAX"
    by (simp_all add: wf_batch_def fits_schema_def example_batch_def example_schema_def array_len_def u32_MAX_def)
  moreover have "plan_schema delete_plan = example_schema" by (simp add: delete_plan_def)
  ultimately show ?thesis
    using demo_name demo_delete_rewrite by (simp add: deletable_def demo_view demo_listed_def MAX_BLOB_BYTES_def)
qed

theorem delete_statement_correct_witness:
  "\<exists>ses'. delete_statement (\<lambda>_. fake_service ''c'') plain_convert list_arrow byte_lib id demo_uuid demo_sdk demo_footer demo_catalog 7
      demo_tupdesc demo_node demo_slots demo_session = (Ok (), ses')
    \<and> (case map_option fst (fake_view ''c'' (store (ses_backend ses')) ''a.parquet'') of
         None \<Rightarrow> False
       | Some f \<Rightarrow> file_rows byte_lib f = Some (byte_rows ''ac''))"
proof -
  let ?c = demo_client and ?I = "fst ` set demo_addrs"
  have I: "?I = {0}" "{r. (0, r) \<in> set demo_addrs} = {1, 3}" by (auto simp: demo_addrs_def)
  have ses: "ses_backend demo_session = demo_backend" "ses_handoff demo_session 7 = Some [demo_listed]"
    by (simp_all add: demo_session_def)
  have v: "\<forall>a \<in> set demo_addrs. valid_address (demo_footer ?c) demo_listed a"
    by (simp add: demo_addrs_def valid_address_def demo_listed_def footer_count_def demo_footer_def blob_row_count_def)
  have s: "map (\<lambda>ps. read_ctid_via_junk ps (ctid_attno delete_plan)) demo_slots
      = map (\<lambda>a. Ok (from_ctid (to_ctid (row_rid (demo_footer ?c) demo_listed a)))) demo_addrs"
    by (simp add: demo_slots_def read_ctid_via_junk_def delete_plan_def)
  have d: "\<forall>i \<in> ?I. deletable byte_lib list_arrow delete_plan (fake_view ''c'' (store (ses_backend demo_session))) (demo_listed ! i)
      {r. (i, r) \<in> set demo_addrs} [example_batch [97, 98, 99, 100]]"
    unfolding I(1) ses(1) using demo_deletable I(2) by simp
  have m: "length demo_addrs \<le> MAX_EDITS_PER_STATEMENT" "length (blob_table delete_plan) < 2 ^ 32" "distinct (map fst demo_listed)"
    "mt_operation demo_node = CMD_DELETE" "2 * card ?I \<le> fake_budget (store (ses_backend demo_session))"
    using demo_ok(2) unfolding I(1) ses(1)
    by (simp_all add: demo_addrs_def MAX_EDITS_PER_STATEMENT_def delete_plan_def demo_listed_def demo_node_def u64_MAX_def)
  have k: "kept_rows {1, 3} (concat (map batch_rows [example_batch [97, 98, 99, 100]])) = byte_rows ''ac''"
    by (simp add: kept_rows_def example_batch_rows byte_rows_def)
  obtain ses' where d: "delete_statement (\<lambda>_. fake_service ''c'') plain_convert list_arrow byte_lib id demo_uuid demo_sdk demo_footer demo_catalog 7
      demo_tupdesc demo_node demo_slots demo_session = (Ok (), ses')"
    "case map_option fst (fake_view ''c'' (store (ses_backend ses')) (fst (demo_listed ! 0))) of
          None \<Rightarrow> kept_rows {r. (0, r) \<in> set demo_addrs} (concat (map batch_rows [example_batch [97, 98, 99, 100]])) = []
        | Some f \<Rightarrow> kept_rows {r. (0, r) \<in> set demo_addrs} (concat (map batch_rows [example_batch [97, 98, 99, 100]])) \<noteq> []
            \<and> file_rows byte_lib f = Some (kept_rows {r. (0, r) \<in> set demo_addrs} (concat (map batch_rows [example_batch [97, 98, 99, 100]])))"
    using delete_statement_correct[where svc = "\<lambda>_. fake_service ''c''", OF m(4) demo_begin ses(2) m(3,2) s v m(1) fake.responsive_store_axioms
        demo_ok(1)[folded ses(1)] la.arrow_compute_axioms byte_lib_writes d m(5), of demo_uuid plain_convert id] demo_unused
    unfolding I(1) ses(1) by auto
  have "kept_rows {1, 3} (concat (map batch_rows [example_batch [97, 98, 99, 100]])) \<noteq> []" unfolding k by (simp add: byte_rows_def)
  then show ?thesis using d unfolding I(2) k
    by (intro exI[of _ ses']) (auto simp: demo_listed_def split: option.splits)
qed

end
