(* ===== verification/Import_Schema.thy ===== *)
theory Import_Schema
  imports Modify
begin

text \<open>
  \<^verbatim>\<open>src/fdw/import_schema.rs\<close> and the SQL functions of \<^verbatim>\<open>src/lib.rs\<close> over it: IMPORT FOREIGN SCHEMA lists the
  parquet blobs below a prefix, groups them by directory, reads the schema of the first blob of each
  group and writes a CREATE FOREIGN TABLE statement per group.

  A \<^verbatim>\<open>BTreeMap\<close> is an association list read in the order of its keys; notices are a list of texts.  The
  property is what the statements say to a reader of SQL's quoting rules.
\<close>

section \<open>Grouping\<close>

definition directory_of :: "string \<Rightarrow> string" where
  "directory_of b = (case rsplit_once (CHR ''/'') b of Some (dir, _) \<Rightarrow> dir | None \<Rightarrow> [])"

definition table_name_of :: "string \<Rightarrow> string \<Rightarrow> string" where
  "table_name_of cont dir =
    (if dir = [] then cont else (case rsplit_once (CHR ''/'') dir of Some (_, name) \<Rightarrow> name | None \<Rightarrow> dir))"

fun group_by_dir :: "string list \<Rightarrow> (string \<times> string list) list \<Rightarrow> (string \<times> string list) list" where
  "group_by_dir [] m = m"
| "group_by_dir (b # bs) m =
    group_by_dir bs (AList.update (directory_of b) ((case map_of m (directory_of b) of None \<Rightarrow> [] | Some v \<Rightarrow> v) @ [b]) m)"

definition claimed_notice :: "string \<Rightarrow> string \<Rightarrow> string \<Rightarrow> string" where
  "claimed_notice dir table prev = ''skipped directory '' @ quoted dir @ '' '' @ em_dash @ '' its table name '' @ quoted table
    @ '' is already claimed by directory '' @ quoted prev @ ''; narrow the IMPORT FOREIGN SCHEMA ''
    @ ''remote_schema prefix to disambiguate''"

text \<open>The second pass, over the directories in order; \<open>claimed\<close> maps a table to the directory that has it.\<close>

fun claim_tables ::
  "string \<Rightarrow> (string \<times> string list) list \<Rightarrow> (string \<times> string) list \<Rightarrow> (string \<times> string list) list
    \<Rightarrow> (string \<times> string list) list \<times> string list" where
  "claim_tables cont [] claimed out = (out, [])"
| "claim_tables cont ((dir, bs) # rest) claimed out =
    (let table = table_name_of cont dir in
     (case map_of claimed table of
        Some prev \<Rightarrow> (case claim_tables cont rest claimed out of (o', ns) \<Rightarrow> (o', claimed_notice dir table prev # ns))
      | None \<Rightarrow> claim_tables cont rest (AList.update table dir claimed) (AList.update table bs out)))"

definition group_blobs_by_directory :: "string list \<Rightarrow> string \<Rightarrow> (string \<times> string list) list \<times> string list" where
  "group_blobs_by_directory bs cont =
    (case claim_tables cont (sort_key fst (group_by_dir bs [])) [] [] of (out, ns) \<Rightarrow> (sort_key fst out, ns))"

section \<open>The statement\<close>

definition double_quotes :: "char \<Rightarrow> string \<Rightarrow> string" where
  "double_quotes q s = q # concat (map (\<lambda>c. if c = q then [q, q] else [c]) s) @ [q]"

definition quote_ident :: "string \<Rightarrow> string" where "quote_ident s = double_quotes (CHR 0x22) s"

definition quote_str :: "string \<Rightarrow> string" where "quote_str s = double_quotes (CHR 0x27) s"

fun ddl_columns :: "nat \<Rightarrow> (string \<times> string) list \<Rightarrow> string" where
  "ddl_columns i [] = []"
| "ddl_columns i ((col, ty) # cols) =
    (if i > 0 then [CHR '','', CHR 0x0A] else []) @ ''    '' @ quote_ident col @ '' '' @ ty @ ddl_columns (i + 1) cols"

definition build_create_table_ddl :: "string \<Rightarrow> string \<Rightarrow> string \<Rightarrow> string \<Rightarrow> string \<Rightarrow> (string \<times> string) list \<Rightarrow> string" where
  "build_create_table_ddl local_schema table server cont filename_glob cols =
    ''CREATE FOREIGN TABLE '' @ quote_ident local_schema @ ''.'' @ quote_ident table @ '' ('' @ [CHR 0x0A]
    @ ddl_columns 0 cols @ [CHR 0x0A] @ '') SERVER '' @ quote_ident server @ '' OPTIONS ('' @ ''container '' @ quote_str cont
    @ '', filename '' @ quote_str filename_glob @ '');''"

section \<open>The import\<close>

record import_catalog =
  ic_server :: "(string \<times> def_list) option"
  ic_user_mapping :: "def_list option"

datatype import_list_type = FDW_IMPORT_SCHEMA_ALL | FDW_IMPORT_SCHEMA_LIMIT_TO | FDW_IMPORT_SCHEMA_EXCEPT

record import_stmt =
  is_remote_schema :: string
  is_local_schema :: string
  is_options :: def_list
  is_list_type :: import_list_type
  is_table_list :: "string option list option"

definition read_server_and_um ::
  "(string \<Rightarrow> string + (string \<times> string option)) \<Rightarrow> import_catalog \<Rightarrow> (server_options \<times> user_mapping_options) fdw_result" where
  "read_server_and_um host cat =
    and_then (ok_or (ic_server cat) (InvalidOption ''foreign server not found'')) (\<lambda>(_, server).
    let um_kv = (case ic_user_mapping cat of None \<Rightarrow> [] | Some l \<Rightarrow> pg_list_to_kv l) in
    and_then (parse_server_options_from_slice (pg_list_to_kv server)) (\<lambda>server_opts.
    and_then (parse_user_mapping_options_from_slice host um_kv) (\<lambda>um_opts.
    Ok (server_opts, um_opts))))"

definition client_for_server ::
  "('tok, 'url, 'c) azure_sdk \<Rightarrow> import_catalog \<Rightarrow> string \<Rightarrow> 'c azure_client fdw_result" where
  "client_for_server sdk cat cont =
    and_then (validate_container_name cont) (\<lambda>_.
    and_then (read_server_and_um (url_host sdk) cat) (\<lambda>(server_opts, um_opts).
    connect sdk server_opts um_opts cont))"

definition build_filename_glob :: "string \<Rightarrow> string" where
  "build_filename_glob sample =
    (case rsplit_once (CHR ''/'') sample of Some (dir, _) \<Rightarrow> dir @ ''/*.parquet'' | None \<Rightarrow> ''*.parquet'')"

definition infer_columns :: "convert_lib \<Rightarrow> 'f parquet_reader \<Rightarrow> string \<Rightarrow> (string \<times> string) list fdw_result" where
  "infer_columns C R name =
    (case rd_new R name of
       Inl e \<Rightarrow> Err (Parquet e)
     | Inr f \<Rightarrow>
         and_then (try_map (\<lambda>fld. and_then (arrow_type_to_pg_typename C (field_type fld)) (\<lambda>ty. Ok (field_name fld, ty))) (rd_schema R f)) (\<lambda>cols.
         if cols = [] then Err (SchemaMismatch (''Parquet file '' @ quoted name @ '' has no columns, cannot import''))
         else Ok cols))"

definition table_list_names :: "import_stmt \<Rightarrow> string list" where
  "table_list_names stmt = (case is_table_list stmt of None \<Rightarrow> [] | Some l \<Rightarrow> map from_utf8_lossy (List.map_filter id l))"

definition apply_limit_or_except :: "import_stmt \<Rightarrow> (string \<times> string list) list \<Rightarrow> (string \<times> string list) list" where
  "apply_limit_or_except stmt groups =
    (case is_list_type stmt of
       FDW_IMPORT_SCHEMA_ALL \<Rightarrow> groups
     | FDW_IMPORT_SCHEMA_LIMIT_TO \<Rightarrow> filter (\<lambda>(k, _). k \<in> set (table_list_names stmt)) groups
     | FDW_IMPORT_SCHEMA_EXCEPT \<Rightarrow> filter (\<lambda>(k, _). k \<notin> set (table_list_names stmt)) groups)"

definition inference_notice :: "string \<Rightarrow> fdw_error \<Rightarrow> string" where
  "inference_notice table e = ''skipped table '' @ [CHR 0x22] @ table @ [CHR 0x22] @ '' (schema inference failed: '' @ error_to_string e @ '')''"

fun emit_ddls ::
  "convert_lib \<Rightarrow> 'f parquet_reader \<Rightarrow> string \<Rightarrow> string \<Rightarrow> string \<Rightarrow> (string \<times> string list) list \<Rightarrow> string list \<times> string list" where
  "emit_ddls C R local_schema server cont [] = ([], [])"
| "emit_ddls C R local_schema server cont ((table, bs) # groups) =
    (case emit_ddls C R local_schema server cont groups of (ddls, ns) \<Rightarrow>
     (case bs of
        [] \<Rightarrow> (ddls, ns)
      | sample # _ \<Rightarrow>
          (case infer_columns C R sample of
             Inl e \<Rightarrow> (ddls, inference_notice table e # ns)
           | Inr cols \<Rightarrow> (build_create_table_ddl local_schema table server cont (build_filename_glob sample) cols # ddls, ns))))"

definition pack_ddls :: "string list \<Rightarrow> string list fdw_result" where
  "pack_ddls ddls = try_map (\<lambda>d. if CHR 0x00 \<in> set d then Err (SchemaMismatch ''generated DDL contains NUL byte'') else Ok d) ddls"

definition is_parquet_name :: "string \<Rightarrow> bool" where
  "is_parquet_name n \<longleftrightarrow> ends_with (to_ascii_lowercase n) ''.parquet''"

definition import_container :: "import_stmt \<Rightarrow> string fdw_result" where
  "import_container stmt =
    and_then (ok_or (map_option snd (find (\<lambda>(k, _). k = ''container'') (pg_list_to_kv (is_options stmt))))
      (MissingOption (''IMPORT FOREIGN SCHEMA requires OPTIONS (container '' @ quoted ''xxx'' @ '')''))) (\<lambda>cont.
    and_then (validate_container_name cont) (\<lambda>_. Ok cont))"

text \<open>The statements and the notices.\<close>

definition do_import ::
  "('tok, 'url, 'c) azure_sdk \<Rightarrow> ('c azure_client \<Rightarrow> 's blob_service) \<Rightarrow> ('c azure_client \<Rightarrow> 'f parquet_reader) \<Rightarrow> convert_lib
    \<Rightarrow> import_catalog \<Rightarrow> import_stmt \<Rightarrow> 's \<Rightarrow> (string list \<times> string list) fdw_result \<times> 's" where
  "do_import sdk svc R C cat stmt s =
    (case ic_server cat of
       None \<Rightarrow> (Err (InvalidOption ''foreign server not found''), s)
     | Some (srv, _) \<Rightarrow>
         (let server_name = from_utf8_lossy srv; remote = from_utf8_lossy (is_remote_schema stmt);
              local_schema = from_utf8_lossy (is_local_schema stmt) in
          (case and_then (import_container stmt) (\<lambda>cont. and_then (client_for_server sdk cat cont) (\<lambda>client.
                and_then (validate_blob_pattern remote ''remote_schema'') (\<lambda>_. Ok (cont, client)))) of
             Inl e \<Rightarrow> (Err e, s)
           | Inr (cont, client) \<Rightarrow>
               st_then (list_with_prefix_etags (svc client) remote s) (\<lambda>listed s'.
               (case group_blobs_by_directory (filter is_parquet_name (map fst listed)) cont of (groups, ns1) \<Rightarrow>
               (case emit_ddls C (R client) local_schema server_name cont (apply_limit_or_except stmt groups) of (ddls, ns2) \<Rightarrow>
                 (and_then (pack_ddls ddls) (\<lambda>l. Ok (l, ns1 @ ns2)), s')))))))"

definition import_foreign_schema ::
  "('tok, 'url, 'c) azure_sdk \<Rightarrow> ('c azure_client \<Rightarrow> 's blob_service) \<Rightarrow> ('c azure_client \<Rightarrow> 'f parquet_reader) \<Rightarrow> convert_lib
    \<Rightarrow> import_catalog \<Rightarrow> import_stmt \<Rightarrow> 's \<Rightarrow> ((sql_state \<times> string) + (string list \<times> string list)) \<times> 's" where
  "import_foreign_schema sdk svc R C cat stmt s =
    (case do_import sdk svc R C cat stmt s of
       (Inl e, s') \<Rightarrow> (Inl (raise_report e), s')
     | (Inr l, s') \<Rightarrow> (Inr l, s'))"

section \<open>The SQL functions\<close>

text \<open>What they report: the code and the message.\<close>

datatype sql_report = Report string string

definition make_err :: "string \<Rightarrow> sql_report" where "make_err msg = Report ''ERRCODE_FDW_ERROR'' msg"

definition map_spi_err :: "string \<Rightarrow> sql_report" where "map_spi_err e = make_err (''SPI: '' @ e)"

definition parquet_azure_fdw_validator ::
  "(string \<Rightarrow> string + (string \<times> string option)) \<Rightarrow> catalog_oids \<Rightarrow> string option list \<Rightarrow> nat \<Rightarrow> (sql_state \<times> string) + unit" where
  "parquet_azure_fdw_validator host oids options catalog =
    (case validate host oids options catalog of Inl e \<Rightarrow> Inl (raise_report e) | Inr _ \<Rightarrow> Inr ())"

text \<open>The server programming interface: looking up a server by name gives its catalog entry, and a
  statement is run on the database.\<close>

record 'd spi =
  spi_quote_identifier :: "string \<Rightarrow> string"
  spi_quote_literal :: "string \<Rightarrow> string"
  spi_server :: "string \<Rightarrow> string + import_catalog option"
  spi_run :: "string \<Rightarrow> 'd \<Rightarrow> (string + unit) \<times> 'd"

definition run_sql :: "'d spi \<Rightarrow> string \<Rightarrow> 'd \<Rightarrow> (sql_report + unit) \<times> 'd" where
  "run_sql P sql d = (case spi_run P sql d of (Inl e, d') \<Rightarrow> (Inl (map_spi_err e), d') | (Inr _, d') \<Rightarrow> (Inr (), d'))"

definition import_parquet_azure :: "'d spi \<Rightarrow> string \<Rightarrow> string \<Rightarrow> string \<Rightarrow> string \<Rightarrow> 'd \<Rightarrow> (sql_report + unit) \<times> 'd" where
  "import_parquet_azure P server cont remote_prefix target_schema d =
    (if remote_prefix = [] then
       (Inl (make_err ''remote_prefix must be non-empty (PG IMPORT FOREIGN SCHEMA requires a name)''), d)
     else run_sql P (''IMPORT FOREIGN SCHEMA '' @ spi_quote_identifier P remote_prefix @ '' FROM SERVER '' @ spi_quote_identifier P server
        @ '' INTO '' @ spi_quote_identifier P target_schema @ '' OPTIONS (container '' @ spi_quote_literal P cont @ '')'') d)"

definition or_report :: "'a fdw_result \<Rightarrow> ('a \<Rightarrow> sql_report + 'b) \<Rightarrow> sql_report + 'b" where
  "or_report r f = (case r of Inl e \<Rightarrow> Inl (make_err (error_to_string e)) | Inr a \<Rightarrow> f a)"

definition explicit_ddl ::
  "('tok, 'url, 'c) azure_sdk \<Rightarrow> ('c azure_client \<Rightarrow> 'f parquet_reader) \<Rightarrow> convert_lib \<Rightarrow> 'd spi \<Rightarrow> string \<Rightarrow> string \<Rightarrow> string \<Rightarrow> string
    \<Rightarrow> sql_report + string" where
  "explicit_ddl sdk R C P server target_schema table source =
    (case spi_server P server of
       Inl e \<Rightarrow> Inl (map_spi_err e)
     | Inr None \<Rightarrow> Inl (make_err (''server '' @ quoted server @ '' not found''))
     | Inr (Some cat) \<Rightarrow>
         (case split_once (CHR ''/'') source of
            None \<Rightarrow> Inl (make_err (''source must be '' @ quoted ''<container>/<blob>''))
          | Some (cont, blob) \<Rightarrow>
              if cont = [] \<or> blob = [] then Inl (make_err (''source must be '' @ quoted ''<container>/<blob>''))
              else
                or_report (validate_container_name cont) (\<lambda>_.
                or_report (validate_blob_pattern blob ''source blob name'') (\<lambda>_.
                or_report (client_for_server sdk cat cont) (\<lambda>client.
                or_report (infer_columns C (R client) blob) (\<lambda>cols.
                Inr (build_create_table_ddl target_schema table server cont blob cols)))))))"

definition import_parquet_azure_explicit ::
  "('tok, 'url, 'c) azure_sdk \<Rightarrow> ('c azure_client \<Rightarrow> 'f parquet_reader) \<Rightarrow> convert_lib \<Rightarrow> 'd spi \<Rightarrow> string \<Rightarrow> string \<Rightarrow> string
    \<Rightarrow> string list \<Rightarrow> 'd \<Rightarrow> (sql_report + unit) \<times> 'd" where
  "import_parquet_azure_explicit sdk R C P server target_schema table sources d =
    (case sources of
       [source] \<Rightarrow>
         (case explicit_ddl sdk R C P server target_schema table source of
            Inl e \<Rightarrow> (Inl e, d)
          | Inr ddl \<Rightarrow> run_sql P ddl d)
     | _ \<Rightarrow> (Inl (Report ''ERRCODE_FEATURE_NOT_SUPPORTED''
          ''import_parquet_azure_explicit currently supports exactly one source per call''), d))"

section \<open>What the grouping gives\<close>

lemma group_by_dir_spec:
  assumes "distinct (map fst m)"
  shows "distinct (map fst (group_by_dir bs m))"
    "map_of (group_by_dir bs m) d =
      (case map_of m d of
         None \<Rightarrow> if filter (\<lambda>b. directory_of b = d) bs = [] then None else Some (filter (\<lambda>b. directory_of b = d) bs)
       | Some v \<Rightarrow> Some (v @ filter (\<lambda>b. directory_of b = d) bs))"
  using assms
  by (induction bs m rule: group_by_dir.induct) (auto simp: distinct_update update_conv' split: option.splits)

text \<open>A table goes to the first directory with its name, and every directory's name is taken.\<close>

definition owns :: "string \<Rightarrow> (string \<times> string list) list \<Rightarrow> string \<times> string list \<Rightarrow> bool" where
  "owns cont dirs = (\<lambda>(t, bs). \<exists>dir. (dir, bs) \<in> set dirs \<and> t = table_name_of cont dir
    \<and> (\<forall>d \<in> fst ` set dirs. table_name_of cont d = t \<longrightarrow> dir \<le> d))"

lemma owns_Cons: "owns cont dirs g \<Longrightarrow> fst g \<noteq> table_name_of cont dir \<Longrightarrow> owns cont ((dir, bs) # dirs) g"
  by (auto simp: owns_def)

lemma same_key: "distinct (map fst al) \<Longrightarrow> g \<in> set al \<Longrightarrow> h \<in> set al \<Longrightarrow> fst g = fst h \<Longrightarrow> g = h"
  by (metis eq_key_imp_eq_value prod.collapse)

lemma claim_tables_spec:
  assumes "sorted (map fst rest)" "distinct (map fst out)" "fst ` set claimed = fst ` set out"
    "claim_tables cont rest claimed out = (out', ns)"
  shows "distinct (map fst out') \<and> set out \<subseteq> set out' \<and> (\<forall>g \<in> set out'. g \<in> set out \<or> owns cont rest g)
    \<and> table_name_of cont ` fst ` set rest \<subseteq> fst ` set out'"
  using assms
proof (induction rest arbitrary: claimed out ns)
  case (Cons x rest)
  obtain dir bs where x: "x = (dir, bs)" by (cases x)
  let ?t = "table_name_of cont dir"
  have s: "sorted (map fst rest)" "\<forall>d \<in> fst ` set rest. dir \<le> d" using Cons.prems(1) x by auto
  show ?case
  proof (cases "map_of claimed ?t")
    case (Some prev)
    then obtain ns' where ns': "claim_tables cont rest claimed out = (out', ns')"
      using Cons.prems(4) x by (auto simp: Let_def split: prod.splits)
    note ih = Cons.IH[OF s(1) Cons.prems(2,3) ns']
    have "?t \<in> fst ` set claimed" using Some by (metis map_of_eq_None_iff option.distinct(1))
    then obtain v where v: "(?t, v) \<in> set out" using Cons.prems(3) by auto
    have dist: "distinct (map fst out')" and sub: "set out \<subseteq> set out'" using ih by blast+
    have "g \<in> set out \<or> owns cont (x # rest) g" if g: "g \<in> set out'" for g
    proof (cases "fst g = ?t")
      case True
      then have "g = (?t, v)" using same_key[OF dist g] v sub by auto
      then show ?thesis using v by simp
    next
      case False
      then show ?thesis using ih g owns_Cons[of cont rest g dir bs] x by blast
    qed
    moreover have "?t \<in> fst ` set out'" using v sub by force
    ultimately show ?thesis using ih x by simp
  next
    case None
    then have new: "?t \<notin> fst ` set claimed" "?t \<notin> fst ` set out" using Cons.prems(3) by (simp_all add: map_of_eq_None_iff)
    have rec: "claim_tables cont rest (claimed @ [(?t, dir)]) (out @ [(?t, bs)]) = (out', ns)"
      using Cons.prems(4) x None new by (simp add: Let_def update_new map_of_eq_None_iff)
    have "distinct (map fst (out @ [(?t, bs)]))" "fst ` set (claimed @ [(?t, dir)]) = fst ` set (out @ [(?t, bs)])"
      using Cons.prems(2,3) new by auto
    note ih = Cons.IH[OF s(1) this rec]
    have dist: "distinct (map fst out')" and sub: "insert (?t, bs) (set out) \<subseteq> set out'" using ih by auto
    have "g \<in> set out \<or> owns cont (x # rest) g" if g: "g \<in> set out'" for g
    proof (cases "fst g = ?t")
      case True
      then have "g = (?t, bs)" using same_key[OF dist g] sub by auto
      then show ?thesis using s(2) x by (auto simp: owns_def)
    next
      case False
      then show ?thesis using ih g owns_Cons[of cont rest g dir bs] x by auto
    qed
    moreover have "?t \<in> fst ` set out'" using sub by force
    ultimately show ?thesis using ih x by simp
  qed
qed simp

lemma group_blobs_spec:
  assumes "group_blobs_by_directory names cont = (groups, ns)"
  shows "sorted (map fst groups)" "distinct (map fst groups)"
    "(t, bs) \<in> set groups \<Longrightarrow> \<exists>dir. t = table_name_of cont dir \<and> bs = filter (\<lambda>b. directory_of b = dir) names \<and> bs \<noteq> []
      \<and> (\<forall>b \<in> set names. table_name_of cont (directory_of b) = t \<longrightarrow> dir \<le> directory_of b)"
    "b \<in> set names \<Longrightarrow> table_name_of cont (directory_of b) \<in> fst ` set groups"
proof -
  let ?m = "group_by_dir names []"
  obtain out where out: "claim_tables cont (sort_key fst ?m) [] [] = (out, ns)" "groups = sort_key fst out"
    using assms by (auto simp: group_blobs_by_directory_def split: prod.splits)
  note m = group_by_dir_spec[of "[]" names, simplified]
  have at: "(d, v) \<in> set ?m \<longleftrightarrow> v = filter (\<lambda>b. directory_of b = d) names \<and> v \<noteq> []" for d v
    using m(2)[of d] map_of_eq_Some_iff[OF m(1), of d v] by (auto split: if_splits)
  note spec = claim_tables_spec[OF _ _ _ out(1), simplified]
  show "sorted (map fst groups)" "distinct (map fst groups)" using spec out(2) by (simp_all add: distinct_sort_key)
  have dirs: "directory_of b \<in> fst ` set ?m" if "b \<in> set names" for b
    using at[of "directory_of b" "filter (\<lambda>x. directory_of x = directory_of b) names"] that by (force simp: image_iff filter_empty_conv)
  show "\<exists>dir. t = table_name_of cont dir \<and> bs = filter (\<lambda>b. directory_of b = dir) names \<and> bs \<noteq> []
      \<and> (\<forall>b \<in> set names. table_name_of cont (directory_of b) = t \<longrightarrow> dir \<le> directory_of b)" if "(t, bs) \<in> set groups"
  proof -
    have "owns cont (sort_key fst ?m) (t, bs)" using spec that out(2) by auto
    then obtain dir where "(dir, bs) \<in> set ?m" "t = table_name_of cont dir" "\<forall>d \<in> fst ` set ?m. table_name_of cont d = t \<longrightarrow> dir \<le> d"
      by (auto simp: owns_def)
    then show ?thesis using at dirs by blast
  qed
  show "table_name_of cont (directory_of b) \<in> fst ` set groups" if "b \<in> set names"
  proof -
    have "table_name_of cont ` fst ` set ?m \<subseteq> fst ` set out" using spec by blast
    then show ?thesis using dirs[OF that] out(2) by auto
  qed
qed

section \<open>Reading the statement\<close>

text \<open>The quoting rules of SQL: inside quotes a doubled quote stands for itself, a quoted name is not
  empty, and outside quotes the statement is read symbol by symbol, blanks apart.\<close>

datatype sql_token = Quoted_Ident string | Literal string | Sym char

fun scan_quoted :: "char \<Rightarrow> string \<Rightarrow> (string \<times> string) option" where
  "scan_quoted q [] = None"
| "scan_quoted q [c] = (if c = q then Some ([], []) else None)"
| "scan_quoted q (c # d # s) =
    (if c \<noteq> q then map_option (apfst (Cons c)) (scan_quoted q (d # s))
     else if d = q then map_option (apfst (Cons q)) (scan_quoted q s)
     else Some ([], d # s))"

lemma scan_quoted_shorter: "scan_quoted q s = Some (x, r) \<Longrightarrow> length r < length s"
  by (induction q s arbitrary: x rule: scan_quoted.induct) (force split: if_splits)+

definition is_blank :: "char \<Rightarrow> bool" where "is_blank c \<longleftrightarrow> c = CHR '' '' \<or> c = CHR 0x0A"

function lex_sql :: "string \<Rightarrow> sql_token list option" where
  "lex_sql [] = Some []"
| "lex_sql (c # s) =
    (if c = CHR 0x22 then
       (case scan_quoted c s of
          None \<Rightarrow> None
        | Some (x, r) \<Rightarrow> if x = [] then None else map_option (Cons (Quoted_Ident x)) (lex_sql r))
     else if c = CHR 0x27 then
       (case scan_quoted c s of None \<Rightarrow> None | Some (x, r) \<Rightarrow> map_option (Cons (Literal x)) (lex_sql r))
     else if is_blank c then lex_sql s
     else map_option (Cons (Sym c)) (lex_sql s))"
  by pat_completeness auto
termination by (relation "measure length") (auto dest: scan_quoted_shorter)

lemma scan_quoted_doubled:
  assumes "s = [] \<or> hd s \<noteq> q"
  shows "scan_quoted q (concat (map (\<lambda>c. if c = q then [q, q] else [c]) x) @ q # s) = Some (x, s)"
proof (induction x)
  case Nil
  then show ?case using assms by (cases s) auto
next
  case (Cons c x)
  have "\<exists>d t. concat (map (\<lambda>c. if c = q then [q, q] else [c]) x) @ q # s = d # t" by (cases x) auto
  then show ?case using Cons by auto
qed

definition syms :: "string \<Rightarrow> sql_token list" where "syms w = map Sym (filter (\<lambda>c. \<not> is_blank c) w)"

definition unquoted :: "string \<Rightarrow> bool" where "unquoted w \<longleftrightarrow> CHR 0x22 \<notin> set w \<and> CHR 0x27 \<notin> set w"

lemma lex_unquoted: "unquoted w \<Longrightarrow> lex_sql (w @ s) = map_option ((@) (syms w)) (lex_sql s)"
  by (induction w) (cases "lex_sql s"; auto simp: unquoted_def syms_def)+

lemma lex_ident:
  "x \<noteq> [] \<Longrightarrow> s = [] \<or> hd s \<noteq> CHR 0x22 \<Longrightarrow> lex_sql (quote_ident x @ s) = map_option (Cons (Quoted_Ident x)) (lex_sql s)"
  using scan_quoted_doubled[of s "CHR 0x22" x] by (simp add: quote_ident_def double_quotes_def)

lemma lex_str:
  "s = [] \<or> hd s \<noteq> CHR 0x27 \<Longrightarrow> lex_sql (quote_str x @ s) = map_option (Cons (Literal x)) (lex_sql s)"
  using scan_quoted_doubled[of s "CHR 0x27" x] by (simp add: quote_str_def double_quotes_def)

text \<open>What the statement should say.\<close>

fun column_tokens :: "nat \<Rightarrow> (string \<times> string) list \<Rightarrow> sql_token list" where
  "column_tokens i [] = []"
| "column_tokens i ((col, ty) # cols) = (if i > 0 then [Sym (CHR '','')] else []) @ Quoted_Ident col # syms ty @ column_tokens (i + 1) cols"

definition ddl_tokens :: "string \<Rightarrow> string \<Rightarrow> string \<Rightarrow> string \<Rightarrow> string \<Rightarrow> (string \<times> string) list \<Rightarrow> sql_token list" where
  "ddl_tokens local_schema table server cont filename_glob cols =
    syms ''CREATE FOREIGN TABLE'' @ [Quoted_Ident local_schema, Sym (CHR ''.''), Quoted_Ident table, Sym (CHR ''('')]
    @ column_tokens 0 cols @ Sym (CHR '')'') # syms ''SERVER'' @ Quoted_Ident server # syms ''OPTIONS (container'' @ Literal cont # Sym (CHR '','')
    # syms ''filename'' @ [Literal filename_glob, Sym (CHR '')''), Sym (CHR '';'')]"

lemma lex_columns:
  assumes "\<forall>(n, ty) \<in> set cols. n \<noteq> [] \<and> unquoted ty"
  shows "lex_sql (ddl_columns i cols @ CHR 0x0A # s) = map_option ((@) (column_tokens i cols)) (lex_sql s)"
  using assms
proof (induction i cols rule: ddl_columns.induct)
  case (1 i)
  then show ?case by (cases "lex_sql s") (simp_all add: is_blank_def)
next
  case (2 i col ty cols)
  let ?rest = "ddl_columns (i + 1) cols @ CHR 0x0A # s"
  have u: "unquoted ty" "col \<noteq> []" using 2 by auto
  have b: "unquoted (if i > 0 then [CHR '','', CHR 0x0A] else [])" "unquoted ''    ''" "unquoted '' ''"
    by (auto simp: unquoted_def)
  have "lex_sql (quote_ident col @ '' '' @ ty @ ?rest) = map_option (\<lambda>ts. Quoted_Ident col # syms ty @ column_tokens (i + 1) cols @ ts) (lex_sql s)"
    using lex_ident[OF u(2), of "'' '' @ ty @ ?rest"] lex_unquoted[OF b(3), of "ty @ ?rest"] lex_unquoted[OF u(1), of ?rest] 2
    by (cases "lex_sql s") (simp_all add: syms_def is_blank_def)
  then show ?case using lex_unquoted[OF b(1)] lex_unquoted[OF b(2)]
    by (cases "lex_sql s") (auto simp: syms_def is_blank_def)
qed

lemma ddl_lexes:
  assumes "\<forall>(n, ty) \<in> set cols. n \<noteq> [] \<and> unquoted ty" "local_schema \<noteq> []" "table \<noteq> []" "server \<noteq> []"
  shows "lex_sql (build_create_table_ddl local_schema table server cont glob cols) = Some (ddl_tokens local_schema table server cont glob cols)"
proof -
  let ?s6 = "'');''"
  let ?s5 = "'', filename '' @ quote_str glob @ ?s6"
  let ?s4 = "'' OPTIONS ('' @ ''container '' @ quote_str cont @ ?s5"
  let ?s3 = "'') SERVER '' @ quote_ident server @ ?s4"
  let ?s2 = "'' ('' @ [CHR 0x0A] @ ddl_columns 0 cols @ CHR 0x0A # ?s3"
  have u: "unquoted ''CREATE FOREIGN TABLE ''" "unquoted ''.''" "unquoted ('' ('' @ [CHR 0x0A])" "unquoted '') SERVER ''"
    "unquoted ('' OPTIONS ('' @ ''container '')" "unquoted '', filename ''" "unquoted ?s6"
    by (simp_all add: unquoted_def)
  have l6: "lex_sql ?s6 = Some (syms ?s6)" using lex_unquoted[OF u(7), of "[]"] by simp
  have l5: "lex_sql ?s5 = Some (syms '', filename '' @ Literal glob # syms ?s6)"
    using lex_unquoted[OF u(6)] lex_str[of ?s6 glob] l6 by simp
  have l4: "lex_sql ?s4 = Some (syms ('' OPTIONS ('' @ ''container '') @ Literal cont # syms '', filename '' @ Literal glob # syms ?s6)"
    using lex_unquoted[OF u(5), of "quote_str cont @ ?s5"] lex_str[of ?s5 cont] l5 by simp
  have l3: "lex_sql ?s3 = Some (syms '') SERVER '' @ Quoted_Ident server # syms ('' OPTIONS ('' @ ''container '') @ Literal cont
      # syms '', filename '' @ Literal glob # syms ?s6)"
    using lex_unquoted[OF u(4)] lex_ident[OF assms(4), of ?s4] l4 by simp
  have l2: "lex_sql ?s2 = map_option (\<lambda>ts. syms ('' ('' @ [CHR 0x0A]) @ column_tokens 0 cols @ ts) (lex_sql ?s3)"
    using lex_unquoted[OF u(3), of "ddl_columns 0 cols @ CHR 0x0A # ?s3"] lex_columns[OF assms(1), of 0 ?s3] by (cases "lex_sql ?s3") simp_all
  have "lex_sql (''CREATE FOREIGN TABLE '' @ quote_ident local_schema @ ''.'' @ quote_ident table @ ?s2)
      = map_option (\<lambda>ts. syms ''CREATE FOREIGN TABLE '' @ Quoted_Ident local_schema # syms ''.'' @ Quoted_Ident table # ts) (lex_sql ?s2)"
    using lex_unquoted[OF u(1)] lex_ident[OF assms(2), of "''.'' @ quote_ident table @ ?s2"] lex_unquoted[OF u(2)] lex_ident[OF assms(3), of ?s2]
    by (cases "lex_sql ?s2") simp_all
  then show ?thesis unfolding l2 l3 by (simp add: build_create_table_ddl_def ddl_tokens_def syms_def is_blank_def)
qed

text \<open>The type names have no quotes.\<close>

lemma show_int_unquoted: "unquoted (show_nat n)" "unquoted (show_int z)"
proof -
  have "\<not> is_ascii_digit (CHR 0x22)" "\<not> is_ascii_digit (CHR 0x27)" by code_simp+
  then have n: "unquoted (show_nat n)" for n unfolding unquoted_def using show_nat_digits by blast
  show "unquoted (show_nat n)" by (rule n)
  show "unquoted (show_int z)" using n by (simp add: show_int_def unquoted_def)
qed

lemma typename_unquoted: "arrow_type_to_pg_typename C ty = Ok name \<Longrightarrow> unquoted name"
  using show_int_unquoted
  by (cases ty) (auto simp: arrow_type_to_pg_typename_def unquoted_def Let_def split: if_splits)

lemma infer_columns_unquoted:
  assumes "infer_columns C R name = Ok cols"
  shows "\<forall>(n, ty) \<in> set cols. unquoted ty"
proof -
  obtain f where "try_map (\<lambda>fld. and_then (arrow_type_to_pg_typename C (field_type fld)) (\<lambda>ty. Ok (field_name fld, ty))) (rd_schema R f) = Ok cols"
    using assms by (auto simp: infer_columns_def result_simps split: sum.splits if_splits)
  then show ?thesis
    by (auto simp: try_map_Inr_iff result_simps list_all2_conv_all_nth in_set_conv_nth dest!: typename_unquoted)
      (metis typename_unquoted prod.inject)
qed

section \<open>The import as a whole\<close>

definition wanted :: "import_stmt \<Rightarrow> string \<Rightarrow> bool" where
  "wanted stmt t \<longleftrightarrow>
    (case is_list_type stmt of
       FDW_IMPORT_SCHEMA_ALL \<Rightarrow> True
     | FDW_IMPORT_SCHEMA_LIMIT_TO \<Rightarrow> t \<in> set (table_list_names stmt)
     | FDW_IMPORT_SCHEMA_EXCEPT \<Rightarrow> t \<notin> set (table_list_names stmt))"

lemma apply_limit_wanted: "apply_limit_or_except stmt groups = filter (\<lambda>(t, bs). wanted stmt t) groups"
  by (cases "is_list_type stmt") (simp_all add: apply_limit_or_except_def wanted_def)

definition importable :: "convert_lib \<Rightarrow> 'f parquet_reader \<Rightarrow> string \<times> string list \<Rightarrow> bool" where
  "importable C R = (\<lambda>(t, bs). bs \<noteq> [] \<and> is_ok (infer_columns C R (hd bs)))"

lemma emit_ddls_map:
  "fst (emit_ddls C R local_schema server cont groups) =
    map (\<lambda>(t, bs). build_create_table_ddl local_schema t server cont (build_filename_glob (hd bs)) (projr (infer_columns C R (hd bs))))
      (filter (importable C R) groups)"
proof (induction groups)
  case (Cons g groups)
  obtain t bs where g: "g = (t, bs)" by (cases g)
  show ?case
  proof (cases bs)
    case Nil
    then show ?thesis using Cons g by (simp add: importable_def case_prod_beta)
  next
    case b: (Cons b rest)
    then show ?thesis using Cons g by (cases "infer_columns C R b") (simp_all add: importable_def case_prod_beta)
  qed
qed simp

lemma pack_ddls_same: "pack_ddls ddls = Ok l \<Longrightarrow> l = ddls"
  unfolding pack_ddls_def by (induction ddls arbitrary: l) (auto simp: result_simps split: if_splits)

lemma do_import_Ok:
  assumes "ic_server cat = Some (srv, opts)" "import_container stmt = Ok cont" "client_for_server sdk cat cont = Ok client"
    "list_with_prefix_etags (svc client) (from_utf8_lossy (is_remote_schema stmt)) s = (Ok listed, s1)"
    "do_import sdk svc R C cat stmt s = (Ok (ddls, ns), s')"
  obtains groups ns1 where "group_blobs_by_directory (filter is_parquet_name (map fst listed)) cont = (groups, ns1)"
    "ddls = map (\<lambda>(t, bs). build_create_table_ddl (from_utf8_lossy (is_local_schema stmt)) t (from_utf8_lossy srv) cont
        (build_filename_glob (hd bs)) (projr (infer_columns C (R client) (hd bs))))
      (filter (importable C (R client)) (filter (\<lambda>(t, bs). wanted stmt t) groups))"
proof -
  obtain groups ns1 where g: "group_blobs_by_directory (filter is_parquet_name (map fst listed)) cont = (groups, ns1)" by fastforce
  obtain ds ns2 where e: "emit_ddls C (R client) (from_utf8_lossy (is_local_schema stmt)) (from_utf8_lossy srv) cont
      (apply_limit_or_except stmt groups) = (ds, ns2)" by fastforce
  have "pack_ddls ds = Ok ddls"
    using assms g e by (auto simp: do_import_def Let_def result_simps split: sum.splits)
  then have "ddls = ds" by (rule pack_ddls_same)
  then show ?thesis
    using that[OF g] e emit_ddls_map[of C "R client" "from_utf8_lossy (is_local_schema stmt)" "from_utf8_lossy srv" cont "apply_limit_or_except stmt groups"]
    by (simp add: apply_limit_wanted)
qed

text \<open>The directory of a group of blobs.\<close>

definition group_dir :: "string \<times> string list \<Rightarrow> string" where
  "group_dir = (\<lambda>(t, bs). directory_of (hd bs))"

lemma group_dir_spec:
  assumes "group_blobs_by_directory names cont = (groups, ns)" "(t, bs) \<in> set groups"
  shows "table_name_of cont (group_dir (t, bs)) = t" "filter (\<lambda>b. directory_of b = group_dir (t, bs)) names = bs" "bs \<noteq> []"
    "\<forall>b \<in> set names. table_name_of cont (directory_of b) = t \<longrightarrow> group_dir (t, bs) \<le> directory_of b"
proof -
  obtain dir where d: "t = table_name_of cont dir" "bs = filter (\<lambda>b. directory_of b = dir) names" "bs \<noteq> []"
    "\<forall>b \<in> set names. table_name_of cont (directory_of b) = t \<longrightarrow> dir \<le> directory_of b"
    using group_blobs_spec(3)[OF assms] by blast
  have "hd bs \<in> set bs" using d(3) by simp
  then have "directory_of (hd bs) = dir" unfolding d(2) by simp
  then show "table_name_of cont (group_dir (t, bs)) = t" "filter (\<lambda>b. directory_of b = group_dir (t, bs)) names = bs" "bs \<noteq> []"
    "\<forall>b \<in> set names. table_name_of cont (directory_of b) = t \<longrightarrow> group_dir (t, bs) \<le> directory_of b"
    using d by (simp_all add: group_dir_def)
qed

text \<open>A directory that gets a table: no listed blob lies in a directory that comes before it and has
  the same last component.\<close>

definition first_of_name :: "string list \<Rightarrow> string \<Rightarrow> string \<Rightarrow> bool" where
  "first_of_name names cont dir \<longleftrightarrow>
    (\<forall>b \<in> set names. table_name_of cont (directory_of b) = table_name_of cont dir \<longrightarrow> dir \<le> directory_of b)"

lemma group_of_first:
  assumes "group_blobs_by_directory names cont = (groups, ns)" "b \<in> set names" "first_of_name names cont (directory_of b)"
  shows "(table_name_of cont (directory_of b), filter (\<lambda>x. directory_of x = directory_of b) names) \<in> set groups"
proof -
  let ?t = "table_name_of cont (directory_of b)"
  obtain bs where g: "(?t, bs) \<in> set groups" using group_blobs_spec(4)[OF assms(1,2)] by auto
  note d = group_dir_spec[OF assms(1) g]
  have "group_dir (?t, bs) \<le> directory_of b" using d(4) assms(2) by blast
  moreover have "directory_of b \<le> group_dir (?t, bs)"
  proof -
    have "hd bs \<in> set names" using hd_in_set[OF d(3)] d(2) by (metis filter_is_subset subsetD)
    then show ?thesis using assms(3) d(1) by (simp add: first_of_name_def group_dir_def)
  qed
  ultimately have "group_dir (?t, bs) = directory_of b" by (rule antisym)
  then show ?thesis using g d(2) by simp
qed

text \<open>What holds of a directory and its statement.\<close>

definition statement_for ::
  "convert_lib \<Rightarrow> 'f parquet_reader \<Rightarrow> string list \<Rightarrow> string \<Rightarrow> string \<Rightarrow> string \<Rightarrow> string \<Rightarrow> string \<Rightarrow> bool" where
  "statement_for C R names local_schema server cont d dir \<longleftrightarrow> (\<exists>sample rest cols.
    filter (\<lambda>b. directory_of b = dir) names = sample # rest \<and> infer_columns C R sample = Ok cols
    \<and> (table_name_of cont dir \<noteq> [] \<and> (\<forall>(n, ty) \<in> set cols. n \<noteq> []) \<longrightarrow>
        lex_sql d = Some (ddl_tokens local_schema (table_name_of cont dir) server cont (build_filename_glob sample) cols)))"

lemma group_statement:
  assumes "group_blobs_by_directory names cont = (groups, ns)" "(t, bs) \<in> set groups" "importable C R (t, bs)"
    "server \<noteq> []" "local_schema \<noteq> []"
  shows "statement_for C R names local_schema server cont
    (build_create_table_ddl local_schema t server cont (build_filename_glob (hd bs)) (projr (infer_columns C R (hd bs)))) (group_dir (t, bs))"
proof -
  note d = group_dir_spec[OF assms(1,2)]
  obtain cols where cols: "infer_columns C R (hd bs) = Ok cols" using assms(3) by (auto simp: importable_def is_ok_iff)
  have "bs = hd bs # tl bs" using d(3) by simp
  moreover have "lex_sql (build_create_table_ddl local_schema t server cont (build_filename_glob (hd bs)) cols)
      = Some (ddl_tokens local_schema t server cont (build_filename_glob (hd bs)) cols)"
    if "t \<noteq> []" "\<forall>(n, ty) \<in> set cols. n \<noteq> []"
    by (rule ddl_lexes[OF _ assms(5) that(1) assms(4)]) (use infer_columns_unquoted[OF cols] that(2) in auto)
  ultimately show ?thesis unfolding statement_for_def
    using d(1,2) cols by (intro exI[of _ "hd bs"] exI[of _ "tl bs"] exI[of _ cols]) simp
qed

lemma imported_dirs:
  assumes "group_blobs_by_directory names cont = (groups, ns)" "b \<in> set names"
  shows "directory_of b \<in> group_dir ` set (filter (importable C R) (filter (\<lambda>(t, bs). wanted stmt t) groups))
    \<longleftrightarrow> first_of_name names cont (directory_of b) \<and> wanted stmt (table_name_of cont (directory_of b))
      \<and> is_ok (infer_columns C R (hd (filter (\<lambda>x. directory_of x = directory_of b) names)))" (is "?l = ?r")
proof
  assume ?l
  then obtain t bs where x: "(t, bs) \<in> set groups" "wanted stmt t" "importable C R (t, bs)" "group_dir (t, bs) = directory_of b" by auto
  then show ?r using group_dir_spec[OF assms(1) x(1)] by (auto simp: first_of_name_def importable_def)
next
  assume r: ?r
  let ?bs = "filter (\<lambda>x. directory_of x = directory_of b) names"
  have "(table_name_of cont (directory_of b), ?bs) \<in> set groups" using group_of_first[OF assms] r by blast
  moreover have "?bs \<noteq> []" using assms(2) by (auto simp: filter_empty_conv)
  moreover have "group_dir (table_name_of cont (directory_of b), ?bs) = directory_of b"
    using \<open>?bs \<noteq> []\<close> hd_in_set[of ?bs] by (simp add: group_dir_def)
  ultimately show ?l using r by (force simp: importable_def)
qed

section \<open>Property\<close>

text \<open>C21: what IMPORT FOREIGN SCHEMA returns.  There is one statement per table, in the order of the table
  names.  A directory has a statement exactly when it comes first among the listed directories with its
  last component, the statement's LIMIT TO or EXCEPT admits the name, and the schema of its first
  parquet blob can be read; and the statement, read by SQL's quoting rules, names exactly that schema, table,
  server, container and pattern, and exactly the columns inferred, whatever characters these names
  are made of, as long as none is empty.\<close>

theorem import_statements_exact:
  assumes "ic_server cat = Some (srv, opts)" "import_container stmt = Ok cont" "client_for_server sdk cat cont = Ok client"
    "list_with_prefix_etags (svc client) (from_utf8_lossy (is_remote_schema stmt)) s = (Ok listed, s1)"
    "do_import sdk svc R C cat stmt s = (Ok (ddls, ns), s')"
    "from_utf8_lossy srv \<noteq> []" "from_utf8_lossy (is_local_schema stmt) \<noteq> []" "names = filter is_parquet_name (map fst listed)"
  shows "\<exists>dirs. sorted_wrt (<) (map (table_name_of cont) dirs)
    \<and> (\<forall>b \<in> set names. directory_of b \<in> set dirs \<longleftrightarrow> first_of_name names cont (directory_of b)
        \<and> wanted stmt (table_name_of cont (directory_of b))
        \<and> is_ok (infer_columns C (R client) (hd (filter (\<lambda>x. directory_of x = directory_of b) names))))
    \<and> list_all2 (statement_for C (R client) names (from_utf8_lossy (is_local_schema stmt)) (from_utf8_lossy srv) cont) ddls dirs"
proof -
  obtain groups ns1 where g: "group_blobs_by_directory names cont = (groups, ns1)"
    and ddls: "ddls = map (\<lambda>(t, bs). build_create_table_ddl (from_utf8_lossy (is_local_schema stmt)) t (from_utf8_lossy srv) cont
        (build_filename_glob (hd bs)) (projr (infer_columns C (R client) (hd bs))))
      (filter (importable C (R client)) (filter (\<lambda>(t, bs). wanted stmt t) groups))"
    unfolding assms(8) by (rule do_import_Ok[OF assms(1-3) assms(4) assms(5)])
  let ?gs = "filter (importable C (R client)) (filter (\<lambda>(t, bs). wanted stmt t) groups)"
  have names: "map (table_name_of cont) (map group_dir ?gs) = map fst ?gs"
    using group_dir_spec(1)[OF g] by (auto simp: comp_def)
  have "sorted_wrt (<) (map fst groups)" using group_blobs_spec(1,2)[OF g] by (simp add: strict_sorted_iff)
  then have "sorted_wrt (<) (map fst ?gs)" by (simp add: sorted_wrt_map sorted_wrt_filter)
  moreover have "list_all2 (statement_for C (R client) names (from_utf8_lossy (is_local_schema stmt)) (from_utf8_lossy srv) cont)
      ddls (map group_dir ?gs)"
    unfolding ddls list_all2_map1 list_all2_map2
    by (rule list.rel_refl_strong) (use group_statement[OF g _ _ assms(6,7)] in auto)
  moreover have "\<forall>b \<in> set names. directory_of b \<in> set (map group_dir ?gs) \<longleftrightarrow> first_of_name names cont (directory_of b)
        \<and> wanted stmt (table_name_of cont (directory_of b))
        \<and> is_ok (infer_columns C (R client) (hd (filter (\<lambda>x. directory_of x = directory_of b) names)))"
    using imported_dirs[OF g] unfolding set_map by blast
  ultimately show ?thesis unfolding names[symmetric] by blast
qed

text \<open>Two directories with one last component, and a local schema with a quote in its name.\<close>

definition import_demo_service :: "unit blob_service" where
  "import_demo_service = \<lparr> svc_download = \<lambda>_ _ _ s. (Inl (SdkError None ''''), s),
    svc_get_properties = \<lambda>_ s. (Inl (SdkError None ''''), s),
    svc_upload = \<lambda>_ _ _ _ s. (Inr None, s), svc_delete = \<lambda>_ _ s. (Inr (), s),
    svc_list = \<lambda>_ s. (Inr (map (\<lambda>n. Inr \<lparr> item_name = Some n, item_etag = Some ''e'' \<rparr>)
      [''b/raw/y.parquet'', ''a/raw/x.parquet'', ''a/raw/_SUCCESS'']), s) \<rparr>"

definition import_demo_catalog :: import_catalog where
  "import_demo_catalog = \<lparr>
    ic_server = Some (''srv'', Some [Some (''account_name'', Some ''acct''), Some (''auth_method'', Some ''managed_identity'')]),
    ic_user_mapping = None \<rparr>"

definition import_demo_stmt :: import_stmt where
  "import_demo_stmt = \<lparr> is_remote_schema = ''a'', is_local_schema = [CHR 0x22, CHR ''s''],
    is_options = Some [Some (''container'', Some ''data'')], is_list_type = FDW_IMPORT_SCHEMA_ALL, is_table_list = None \<rparr>"

definition import_demo_reader :: "record_batch parquet_reader" where
  "import_demo_reader = list_reader (\<lambda>_. Some (example_batch []))"

definition import_demo_ddl :: string where
  "import_demo_ddl = build_create_table_ddl [CHR 0x22, CHR ''s''] ''raw'' ''srv'' ''data'' ''a/raw/*.parquet'' [(''id'', ''BIGINT'')]"

lemma import_demo_steps:
  "import_container import_demo_stmt = Ok ''data''" "client_for_server demo_sdk import_demo_catalog ''data'' = Ok demo_client"
  "filter is_parquet_name [''b/raw/y.parquet'', ''a/raw/x.parquet'', ''a/raw/_SUCCESS''] = [''b/raw/y.parquet'', ''a/raw/x.parquet'']"
  "from_utf8_lossy ''srv'' = ''srv''" "from_utf8_lossy [CHR 0x22, CHR ''s''] = [CHR 0x22, CHR ''s'']"
  by code_simp+

lemma import_demo_listing:
  "list_with_prefix_etags import_demo_service p ()
    = (Ok [(''b/raw/y.parquet'', ''e''), (''a/raw/x.parquet'', ''e''), (''a/raw/_SUCCESS'', ''e'')], ())"
proof -
  have "\<not> is_staging_name ''b/raw/y.parquet''" "\<not> is_staging_name ''a/raw/x.parquet''" "\<not> is_staging_name ''a/raw/_SUCCESS''"
    by code_simp+
  then show ?thesis by (simp add: list_with_prefix_etags_def import_demo_service_def MAX_LIST_RESULTS_def)
qed

lemma import_demo_groups:
  "group_blobs_by_directory [''b/raw/y.parquet'', ''a/raw/x.parquet''] ''data''
    = ([(''raw'', [''a/raw/x.parquet''])], [claimed_notice ''b/raw'' ''raw'' ''a/raw''])"
  by code_simp

lemma import_demo_infer: "infer_columns plain_convert import_demo_reader n = Ok [(''id'', ''BIGINT'')]"
  by (simp add: infer_columns_def import_demo_reader_def list_reader_def example_batch_def example_schema_def arrow_type_to_pg_typename_def)

lemma import_demo_run:
  "do_import demo_sdk (\<lambda>_. import_demo_service) (\<lambda>_. import_demo_reader) plain_convert import_demo_catalog import_demo_stmt ()
    = (Ok ([import_demo_ddl], [claimed_notice ''b/raw'' ''raw'' ''a/raw'']), ())"
proof -
  have v: "validate_blob_pattern (from_utf8_lossy (is_remote_schema import_demo_stmt)) ''remote_schema'' = Ok ()"
    "build_filename_glob ''a/raw/x.parquet'' = ''a/raw/*.parquet''" by code_simp+
  have n: "pack_ddls [import_demo_ddl] = Ok [import_demo_ddl]" by code_simp
  have c: "ic_server import_demo_catalog = Some (''srv'', Some [Some (''account_name'', Some ''acct''), Some (''auth_method'', Some ''managed_identity'')])"
    "is_local_schema import_demo_stmt = [CHR 0x22, CHR ''s'']" "is_list_type import_demo_stmt = FDW_IMPORT_SCHEMA_ALL"
    by (simp_all add: import_demo_catalog_def import_demo_stmt_def)
  show ?thesis
    unfolding do_import_def c(1) option.case prod.case import_demo_steps(1,4) Let_def and_then.simps import_demo_steps(2) v(1) sum.case
      import_demo_listing st_then_simps list.map fst_conv import_demo_steps(3) import_demo_groups c(2) import_demo_steps(5)
    by (simp add: apply_limit_or_except_def c(3) import_demo_infer v(2) n import_demo_ddl_def[symmetric])
qed

theorem import_statements_exact_witness:
  "\<exists>dirs. ''a/raw'' \<in> set dirs
    \<and> list_all2 (statement_for plain_convert import_demo_reader [''b/raw/y.parquet'', ''a/raw/x.parquet''] [CHR 0x22, CHR ''s''] ''srv'' ''data'')
        [import_demo_ddl] dirs"
proof -
  let ?names = "[''b/raw/y.parquet'', ''a/raw/x.parquet'']"
  have c: "ic_server import_demo_catalog = Some (''srv'', Some [Some (''account_name'', Some ''acct''), Some (''auth_method'', Some ''managed_identity'')])"
    "is_local_schema import_demo_stmt = [CHR 0x22, CHR ''s'']" "wanted import_demo_stmt t" for t
    by (simp_all add: import_demo_catalog_def import_demo_stmt_def wanted_def)
  have d: "directory_of ''a/raw/x.parquet'' = ''a/raw''" "first_of_name ?names ''data'' ''a/raw''" by code_simp+
  note t = import_statements_exact[where svc = "\<lambda>_. import_demo_service" and R = "\<lambda>_. import_demo_reader",
      OF c(1) import_demo_steps(1,2) import_demo_listing import_demo_run]
  obtain dirs where dirs: "\<forall>b \<in> set ?names. directory_of b \<in> set dirs \<longleftrightarrow> first_of_name ?names ''data'' (directory_of b)
        \<and> wanted import_demo_stmt (table_name_of ''data'' (directory_of b))
        \<and> is_ok (infer_columns plain_convert import_demo_reader (hd (filter (\<lambda>x. directory_of x = directory_of b) ?names)))"
    "list_all2 (statement_for plain_convert import_demo_reader ?names [CHR 0x22, CHR ''s''] ''srv'' ''data'') [import_demo_ddl] dirs"
    using t[of ?names] unfolding c(2) import_demo_steps(4,5) list.map fst_conv import_demo_steps(3) by auto
  moreover have "''a/raw'' \<in> set dirs" using dirs(1) d c(3) by (simp add: import_demo_infer)
  ultimately show ?thesis by blast
qed

text \<open>The names that are empty.  A blob below a doubled slash gives a table without a name, and the
  statement for it cannot be read.\<close>

lemma empty_table_name:
  "group_blobs_by_directory [''a//x.parquet''] ''data'' = ([([], [''a//x.parquet''])], [])"
  "lex_sql (build_create_table_ddl ''s'' [] ''srv'' ''data'' ''a//*.parquet'' [(''id'', ''BIGINT'')]) = None"
  by code_simp+

end
