(* ===== verification/Spec2Isabelle.thy ===== *)
theory Spec2Isabelle
  imports Fdw_Error Options Glob Multifile Kernel Rowid Commit Pushdown_Walk Insert Import_Schema
begin

text \<open>
  A verification library for \<^verbatim>\<open>parquet_azure_fdw\<close>, the PostgreSQL foreign data
  wrapper that reads and writes parquet blobs in Azure Blob Storage.
\<close>

end
